(* ===== verification/Prelude.thy ===== *)
theory Prelude
  imports Main "HOL-Library.Word"
begin

text \<open>
  Shared vocabulary of the h0r.net development: the C integer types of
  \<open>libk/stdint.h\<close> and \<open>libk/stddef.h\<close>, the constants of \<open>config.h\<close> that several
  components use, the result type of operations that may stop in a panic screen
  (\<open>trigger_psod\<close>) or leave an array, and generic lemmas on words and lists.
\<close>

section \<open>Integer types and constants\<close>

type_synonym u8 = "8 word"
type_synonym u16 = "16 word"
type_synonym u32 = "32 word"
type_synonym u64 = "64 word"

text \<open>\<open>libk/stddef.h\<close>: \<open>usize\<close> is \<open>unsigned long\<close>, 64 bits on this target; a pointer is
  its 64-bit address.\<close>

type_synonym usize = u64
type_synonym ptr = u64

abbreviation (input) NULL :: ptr where "NULL \<equiv> 0"

text \<open>\<open>config.h\<close>\<close>

abbreviation (input) PAGE_SIZE :: u64 where "PAGE_SIZE \<equiv> 4096"

abbreviation (input) MAX_PROCESSES :: u32 where "MAX_PROCESSES \<equiv> 64"

text \<open>\<open>libk/limits.h\<close>\<close>

abbreviation (input) UINT32_MAX :: u32 where "UINT32_MAX \<equiv> 4294967295"

section \<open>Results\<close>

text \<open>
  \<open>trigger_psod\<close> prints the panic screen and halts: it never returns, so a call of it ends
  the operation with \<open>Psod code\<close>. An access outside a C array with a known size has no
  defined result; the operation ends with \<open>Oob\<close>.
\<close>

datatype fault = Psod nat | Oob

text \<open>\<open>utils/error.h\<close>\<close>

abbreviation (input) HN_ERR_OUT_OF_MEM :: nat where "HN_ERR_OUT_OF_MEM \<equiv> 35"
abbreviation (input) HN_ERR_NO_FS :: nat where "HN_ERR_NO_FS \<equiv> 37"

type_synonym ('a, 's) result = "fault + 'a \<times> 's"

definition then_do :: "('a, 's) result \<Rightarrow> ('a \<Rightarrow> 's \<Rightarrow> ('b, 't) result) \<Rightarrow> ('b, 't) result" where
  "then_do m f = (case m of Inl e \<Rightarrow> Inl e | Inr (x, s) \<Rightarrow> f x s)"

lemma then_do_simps [simp]:
  "then_do (Inl e) f = Inl e"
  "then_do (Inr (x, s)) f = f x s"
  by (simp_all add: then_do_def)

lemma then_do_Inr_iff:
  "then_do m f = Inr r \<longleftrightarrow> (\<exists>x s. m = Inr (x, s) \<and> f x s = Inr r)"
  by (auto simp: then_do_def split: sum.splits)

lemma then_doE [elim]:
  assumes "then_do m f = Inr r"
  obtains x s where "m = Inr (x, s)" "f x s = Inr r"
  using assms by (auto simp: then_do_Inr_iff)

section \<open>Words\<close>

lemma unat_u64_less [simp]: "unat (x :: u64) < 18446744073709551616"
  using unsigned_less [of x] by simp

lemma unat_u64_le [simp]: "unat (x :: u64) \<le> 18446744073709551616"
  using unat_u64_less [of x] by linarith

lemma unat_add_u64: "unat (a + b :: u64) = (unat a + unat b) mod 18446744073709551616"
  by (simp add: unat_word_ariths)

lemma unat_add_no_wrap:
  "unat a + unat b < 18446744073709551616 \<Longrightarrow> unat (a + b :: u64) = unat a + unat b"
  by (simp add: unat_word_ariths)

lemma unat_of_nat_u64: "n < 18446744073709551616 \<Longrightarrow> unat (of_nat n :: u64) = n"
  by (simp add: unat_of_nat take_bit_eq_mod)

lemma unat_add_of_nat:
  "unat a + i < 18446744073709551616 \<Longrightarrow> unat (a + of_nat i :: u64) = unat a + i"
  by (simp add: unat_word_ariths unat_of_nat take_bit_eq_mod)

lemma of_nat_eq_u64:
  "i < 18446744073709551616 \<Longrightarrow> j < 18446744073709551616 \<Longrightarrow>
   ((of_nat i :: u64) = of_nat j) = (i = j)"
  by (metis unat_of_nat_u64)

lemma add_of_nat_neq:
  "i < 18446744073709551616 \<Longrightarrow> j < 18446744073709551616 \<Longrightarrow>
   (a + of_nat i = a + (of_nat j :: u64)) = (i = j)"
  by (simp add: of_nat_eq_u64)

lemma unat_div_u64: "unat (a div b :: u64) = unat a div unat b"
  by (simp add: unat_div_distrib)

lemma unat_mod_u64: "unat (a mod b :: u64) = unat a mod unat b"
  by (simp add: unat_mod_distrib)

lemma unat_eq_iff_u64: "(a = b) = (unat a = unat (b :: u64))"
  by (simp add: word_unat_eq_iff)

end
