(* ===== verification/Memory.thy ===== *)
theory Memory
  imports Prelude
begin

unbundle bit_operations_syntax

text \<open>
  The machine's memory, and the memory functions of \<open>libk/string.c\<close> (\<open>memchr\<close> to
  \<open>memset\<close>).

  \<open>pmem\<close> is physical memory, one byte per address. While the kernel's page map is active
  the boot loader maps every physical address twice: at the same virtual address, and at
  that address plus \<open>hn_data.hhdm_off\<close> (the higher-half direct map). \<open>core/mm/mem.h\<close>
  converts between the two. A C access to an address goes through \<open>v2p\<close>, so two pointers
  to one physical byte alias in the model as they do in the kernel. Page faults are not
  modelled: an access to an address the boot map leaves out reads or writes the byte \<open>v2p\<close>
  gives.
\<close>

section \<open>Memory and the two windows on it\<close>

record machine =
  pmem :: "u64 \<Rightarrow> u8"
  hhdm_off :: u64

definition v2p :: "u64 \<Rightarrow> ptr \<Rightarrow> u64" where
  "v2p off a = (if a < off then a else a - off)"

definition PHYS_TO_VIRT :: "'z machine_scheme \<Rightarrow> u64 \<Rightarrow> ptr" where
  "PHYS_TO_VIRT s a = a + hhdm_off s"

definition VIRT_TO_PHYS :: "'z machine_scheme \<Rightarrow> ptr \<Rightarrow> u64" where
  "VIRT_TO_PHYS s a = a - hhdm_off s"

definition load8 :: "'z machine_scheme \<Rightarrow> ptr \<Rightarrow> u8" where
  "load8 s a = pmem s (v2p (hhdm_off s) a)"

definition store8 :: "ptr \<Rightarrow> u8 \<Rightarrow> 'z machine_scheme \<Rightarrow> 'z machine_scheme" where
  "store8 a b s = s\<lparr>pmem := (pmem s)(v2p (hhdm_off s) a := b)\<rparr>"

text \<open>Multi-byte accesses are little-endian, as on x86-64.\<close>

primrec load_bytes :: "'z machine_scheme \<Rightarrow> ptr \<Rightarrow> nat \<Rightarrow> u8 list" where
  "load_bytes s a 0 = []"
| "load_bytes s a (Suc n) = load8 s a # load_bytes s (a + 1) n"

primrec store_bytes :: "ptr \<Rightarrow> u8 list \<Rightarrow> 'z machine_scheme \<Rightarrow> 'z machine_scheme" where
  "store_bytes a [] s = s"
| "store_bytes a (b # bs) s = store_bytes (a + 1) bs (store8 a b s)"

primrec bytes_word :: "u8 list \<Rightarrow> 'a::len word" where
  "bytes_word [] = 0"
| "bytes_word (b # bs) = ucast b OR push_bit 8 (bytes_word bs)"

primrec word_bytes :: "nat \<Rightarrow> 'a::len word \<Rightarrow> u8 list" where
  "word_bytes 0 w = []"
| "word_bytes (Suc n) w = ucast w # word_bytes n (drop_bit 8 w)"

definition load16 :: "'z machine_scheme \<Rightarrow> ptr \<Rightarrow> u16" where
  "load16 s a = bytes_word (load_bytes s a 2)"

definition load32 :: "'z machine_scheme \<Rightarrow> ptr \<Rightarrow> u32" where
  "load32 s a = bytes_word (load_bytes s a 4)"

definition load64 :: "'z machine_scheme \<Rightarrow> ptr \<Rightarrow> u64" where
  "load64 s a = bytes_word (load_bytes s a 8)"

definition store32 :: "ptr \<Rightarrow> u32 \<Rightarrow> 'z machine_scheme \<Rightarrow> 'z machine_scheme" where
  "store32 a w = store_bytes a (word_bytes 4 w)"

definition store64 :: "ptr \<Rightarrow> u64 \<Rightarrow> 'z machine_scheme \<Rightarrow> 'z machine_scheme" where
  "store64 a w = store_bytes a (word_bytes 8 w)"

section \<open>The memory functions of libk/string.c\<close>

text \<open>
  Each loop counts \<open>n\<close> down to 0 while the pointers advance: it is a recursion on the
  number of rounds left, \<open>unat n\<close> at the call.
\<close>

primrec memchr_loop :: "'z machine_scheme \<Rightarrow> u8 \<Rightarrow> nat \<Rightarrow> ptr \<Rightarrow> ptr" where
  "memchr_loop s uc 0 su = NULL"
| "memchr_loop s uc (Suc n) su = (if load8 s su = uc then su else memchr_loop s uc n (su + 1))"

definition memchr :: "'z machine_scheme \<Rightarrow> ptr \<Rightarrow> u32 \<Rightarrow> usize \<Rightarrow> ptr" where
  "memchr s p c n = memchr_loop s (ucast c) (unat n) p"

primrec memcmp_loop :: "'z machine_scheme \<Rightarrow> nat \<Rightarrow> ptr \<Rightarrow> ptr \<Rightarrow> int" where
  "memcmp_loop s 0 su1 su2 = 0"
| "memcmp_loop s (Suc n) su1 su2 =
     (if load8 s su1 \<noteq> load8 s su2
      then (if load8 s su1 < load8 s su2 then -1 else 1)
      else memcmp_loop s n (su1 + 1) (su2 + 1))"

definition memcmp :: "'z machine_scheme \<Rightarrow> ptr \<Rightarrow> ptr \<Rightarrow> usize \<Rightarrow> int" where
  "memcmp s s1 s2 n = memcmp_loop s (unat n) s1 s2"

primrec memcpy_loop :: "nat \<Rightarrow> ptr \<Rightarrow> ptr \<Rightarrow> 'z machine_scheme \<Rightarrow> 'z machine_scheme" where
  "memcpy_loop 0 su1 su2 s = s"
| "memcpy_loop (Suc n) su1 su2 s = memcpy_loop n (su1 + 1) (su2 + 1) (store8 su1 (load8 s su2) s)"

definition memcpy :: "ptr \<Rightarrow> ptr \<Rightarrow> usize \<Rightarrow> 'z machine_scheme \<Rightarrow> 'z machine_scheme" where
  "memcpy s1 s2 n = memcpy_loop (unat n) s1 s2"

text \<open>The loop of \<open>memmove\<close> that copies downwards: both pointers are decremented first.\<close>

primrec memmove_down :: "nat \<Rightarrow> ptr \<Rightarrow> ptr \<Rightarrow> 'z machine_scheme \<Rightarrow> 'z machine_scheme" where
  "memmove_down 0 sc1 sc2 s = s"
| "memmove_down (Suc n) sc1 sc2 s =
     memmove_down n (sc1 - 1) (sc2 - 1) (store8 (sc1 - 1) (load8 s (sc2 - 1)) s)"

definition memmove :: "ptr \<Rightarrow> ptr \<Rightarrow> usize \<Rightarrow> 'z machine_scheme \<Rightarrow> 'z machine_scheme" where
  "memmove s1 s2 n s =
     (if s2 < s1 \<and> s1 < s2 + n
      then memmove_down (unat n) (s1 + n) (s2 + n) s
      else memcpy_loop (unat n) s1 s2 s)"

primrec memset_loop :: "nat \<Rightarrow> ptr \<Rightarrow> u8 \<Rightarrow> 'z machine_scheme \<Rightarrow> 'z machine_scheme" where
  "memset_loop 0 su uc s = s"
| "memset_loop (Suc n) su uc s = memset_loop n (su + 1) uc (store8 su uc s)"

definition memset :: "ptr \<Rightarrow> u32 \<Rightarrow> usize \<Rightarrow> 'z machine_scheme \<Rightarrow> 'z machine_scheme" where
  "memset p c n = memset_loop (unat n) p (ucast c)"

section \<open>Frame facts\<close>

text \<open>No store moves the direct map.\<close>

lemma hhdm_off_store8 [simp]: "hhdm_off (store8 a b s) = hhdm_off s"
  by (simp add: store8_def)

lemma hhdm_off_store_bytes [simp]: "hhdm_off (store_bytes a bs s) = hhdm_off s"
  by (induction bs arbitrary: a s) simp_all

lemma hhdm_off_store32 [simp]: "hhdm_off (store32 a w s) = hhdm_off s"
  by (simp add: store32_def)

lemma hhdm_off_store64 [simp]: "hhdm_off (store64 a w s) = hhdm_off s"
  by (simp add: store64_def)

lemma hhdm_off_memset_loop [simp]: "hhdm_off (memset_loop n a c s) = hhdm_off s"
  by (induction n arbitrary: a s) simp_all

lemma hhdm_off_memset [simp]: "hhdm_off (memset a c n s) = hhdm_off s"
  by (simp add: memset_def)

lemma hhdm_off_memcpy_loop [simp]: "hhdm_off (memcpy_loop n a b s) = hhdm_off s"
  by (induction n arbitrary: a b s) simp_all

lemma hhdm_off_memcpy [simp]: "hhdm_off (memcpy a b n s) = hhdm_off s"
  by (simp add: memcpy_def)

lemma hhdm_off_memmove_down [simp]: "hhdm_off (memmove_down n a b s) = hhdm_off s"
  by (induction n arbitrary: a b s) simp_all

lemma hhdm_off_memmove [simp]: "hhdm_off (memmove a b n s) = hhdm_off s"
  by (simp add: memmove_def)

lemma PHYS_TO_VIRT_cong: "hhdm_off s = hhdm_off t \<Longrightarrow> PHYS_TO_VIRT s p = PHYS_TO_VIRT t p"
  by (simp add: PHYS_TO_VIRT_def)

lemma VIRT_TO_PHYS_TO_VIRT [simp]: "VIRT_TO_PHYS s (PHYS_TO_VIRT s p) = p"
  by (simp add: PHYS_TO_VIRT_def VIRT_TO_PHYS_def)

text \<open>
  A store changes \<open>pmem\<close> only. The equations write the result as an update of that one
  field; with them every other field of an extended state is seen to be unchanged.
\<close>

named_theorems pmem_only

lemma store8_pmem_only [pmem_only]: "store8 a b s = s\<lparr>pmem := pmem (store8 a b s)\<rparr>"
  by (simp add: store8_def)

lemma store_bytes_pmem_only [pmem_only]:
  "store_bytes a bs s = s\<lparr>pmem := pmem (store_bytes a bs s)\<rparr>"
proof (induction bs arbitrary: a s)
  case (Cons b bs)
  show ?case by (subst store_bytes.simps, subst Cons) (simp add: store8_def)
qed simp

lemma store64_pmem_only [pmem_only]: "store64 a w s = s\<lparr>pmem := pmem (store64 a w s)\<rparr>"
  unfolding store64_def by (rule store_bytes_pmem_only)

lemma store32_pmem_only [pmem_only]: "store32 a w s = s\<lparr>pmem := pmem (store32 a w s)\<rparr>"
  unfolding store32_def by (rule store_bytes_pmem_only)

lemma memset_loop_pmem_only: "memset_loop n a c s = s\<lparr>pmem := pmem (memset_loop n a c s)\<rparr>"
proof (induction n arbitrary: a s)
  case (Suc n)
  show ?case by (subst memset_loop.simps, subst Suc) (simp add: store8_def)
qed simp

lemma memset_pmem_only [pmem_only]: "memset a c n s = s\<lparr>pmem := pmem (memset a c n s)\<rparr>"
  unfolding memset_def by (rule memset_loop_pmem_only)

lemma memcpy_loop_pmem_only: "memcpy_loop n a b s = s\<lparr>pmem := pmem (memcpy_loop n a b s)\<rparr>"
proof (induction n arbitrary: a b s)
  case (Suc n)
  show ?case by (subst memcpy_loop.simps, subst Suc) (simp add: store8_def)
qed simp

lemma memcpy_pmem_only [pmem_only]: "memcpy a b n s = s\<lparr>pmem := pmem (memcpy a b n s)\<rparr>"
  unfolding memcpy_def by (rule memcpy_loop_pmem_only)

section \<open>Physical ranges\<close>

text \<open>
  \<open>prange p n\<close>: the physical addresses from \<open>p\<close> on, \<open>n\<close> of them, up to the end of the
  address space. \<open>span off a n p\<close>: the virtual range of \<open>n\<close> bytes at \<open>a\<close> is the physical
  range at \<open>p\<close>.
\<close>

definition prange :: "u64 \<Rightarrow> nat \<Rightarrow> u64 set" where
  "prange p n = {q. unat p \<le> unat q \<and> unat q < unat p + n}"

definition span :: "u64 \<Rightarrow> ptr \<Rightarrow> nat \<Rightarrow> u64 \<Rightarrow> bool" where
  "span off a n p \<longleftrightarrow> unat p + n \<le> 2 ^ 64 \<and> (\<forall>i<n. v2p off (a + of_nat i) = p + of_nat i)"

lemma prange_0 [simp]: "prange p 0 = {}"
  by (auto simp: prange_def)

lemma prange_Suc:
  assumes "unat p + Suc n \<le> 2 ^ 64"
  shows "prange p (Suc n) = insert p (prange (p + 1) n)"
proof (cases n)
  case 0
  then show ?thesis
    by (auto simp: prange_def word_unat_eq_iff)
next
  case (Suc m)
  with assms have "unat (p + 1) = unat p + 1"
    by (simp add: unat_add_no_wrap)
  then show ?thesis
    by (auto simp: prange_def word_unat_eq_iff)
qed

lemma prange_disjoint:
  "unat p + m \<le> unat q \<or> unat q + n \<le> unat p \<Longrightarrow> prange p m \<inter> prange q n = {}"
  by (auto simp: prange_def)

lemma prange_subset: "unat p \<le> unat q \<Longrightarrow> unat q + n \<le> unat p + m \<Longrightarrow> prange q n \<subseteq> prange p m"
  by (auto simp: prange_def)

lemma prange_offset:
  assumes "i < n" "unat p + n \<le> 2 ^ 64"
  shows "p + of_nat i \<in> prange p n"
proof -
  have "unat (p + of_nat i) = unat p + i"
    using assms by (intro unat_add_of_nat) simp
  then show ?thesis using assms by (simp add: prange_def)
qed

lemma prangeE:
  assumes "q \<in> prange p n"
  obtains i where "i < n" "q = p + of_nat i"
proof
  show "unat q - unat p < n" using assms by (auto simp: prange_def)
  have "unat q = unat p + (unat q - unat p)" using assms by (auto simp: prange_def)
  then have "of_nat (unat q) = (of_nat (unat p + (unat q - unat p)) :: u64)" by simp
  then show "q = p + of_nat (unat q - unat p)" by simp
qed

lemma span_Suc:
  assumes "span off a (Suc n) p"
  shows "v2p off a = p" "span off (a + 1) n (p + 1)"
proof -
  from assms have b: "unat p + Suc n \<le> 2 ^ 64"
    and t: "\<And>i. i < Suc n \<Longrightarrow> v2p off (a + of_nat i) = p + of_nat i"
    by (auto simp: span_def)
  show "v2p off a = p" using t [of 0] by simp
  have "unat (p + 1) + n \<le> 2 ^ 64"
  proof (cases n)
    case 0
    then show ?thesis by simp
  next
    case (Suc m)
    with b have "unat (p + 1) = unat p + 1" by (simp add: unat_add_no_wrap)
    with b show ?thesis by simp
  qed
  moreover have "v2p off (a + 1 + of_nat i) = p + 1 + of_nat i" if "i < n" for i
    using t [of "Suc i"] that by (simp add: algebra_simps)
  ultimately show "span off (a + 1) n (p + 1)" by (simp add: span_def)
qed

lemma span_mono: "span off a n p \<Longrightarrow> m \<le> n \<Longrightarrow> span off a m p"
  by (auto simp: span_def)

lemma span_shift:
  assumes "span off a n p" "k + m \<le> n"
  shows "span off (a + of_nat k) m (p + of_nat k)"
proof (cases "m = 0")
  case True
  then show ?thesis by (simp add: span_def)
next
  case False
  with assms have "unat (p + of_nat k) = unat p + k"
    by (intro unat_add_of_nat) (auto simp: span_def)
  moreover have "v2p off (a + of_nat k + of_nat i) = p + of_nat k + of_nat i" if "i < m" for i
  proof -
    have "v2p off (a + of_nat (k + i)) = p + of_nat (k + i)"
      using assms that unfolding span_def by (metis add.commute add_less_cancel_left order_less_le_trans)
    then show ?thesis by (simp add: add.assoc)
  qed
  ultimately show ?thesis using assms by (simp add: span_def)
qed

text \<open>Ranges below the direct map are their own physical range.\<close>

lemma span_low:
  assumes "unat a + n \<le> unat off"
  shows "span off a n a"
proof -
  have "v2p off (a + of_nat i) = a + of_nat i" if "i < n" for i
  proof -
    have "unat (a + of_nat i) = unat a + i"
      using assms that unat_u64_less [of off] by (intro unat_add_of_nat) linarith
    then show ?thesis using assms that by (simp add: v2p_def word_less_nat_alt)
  qed
  moreover have "unat a + n \<le> 18446744073709551616"
    using assms unat_u64_less [of off] by linarith
  ultimately show ?thesis by (simp add: span_def)
qed

text \<open>Ranges of the direct map are the physical range they map.\<close>

lemma span_high:
  assumes "unat off + unat p + n \<le> 2 ^ 64"
  shows "span off (p + off) n p"
proof -
  have "v2p off (p + off + of_nat i) = p + of_nat i" if i: "i < n" for i
  proof -
    have "unat (p + of_nat i) = unat p + i"
      using assms i by (intro unat_add_of_nat) simp
    then have "unat (p + of_nat i + off) = unat p + i + unat off"
      using assms i by (subst unat_add_no_wrap) simp_all
    then have "\<not> p + off + of_nat i < off"
      by (simp add: word_less_nat_alt algebra_simps)
    then show ?thesis by (simp add: v2p_def)
  qed
  then show ?thesis using assms by (simp add: span_def)
qed

lemma span_PHYS_TO_VIRT:
  "unat (hhdm_off s) + unat p + n \<le> 2 ^ 64 \<Longrightarrow> span (hhdm_off s) (PHYS_TO_VIRT s p) n p"
  by (simp add: PHYS_TO_VIRT_def span_high)

section \<open>What the loops write\<close>

lemma pmem_store8: "pmem (store8 a b s) q = (if q = v2p (hhdm_off s) a then b else pmem s q)"
  by (simp add: store8_def)

lemma load8_pmem_cong: "hhdm_off s = hhdm_off t \<Longrightarrow> pmem s = pmem t \<Longrightarrow> load8 s a = load8 t a"
  by (simp add: load8_def)

lemma prange_fresh:
  assumes "unat p + Suc n \<le> 2 ^ 64"
  shows "p \<notin> prange (p + 1) n"
proof (cases n)
  case (Suc m)
  with assms have "unat (p + 1) = unat p + 1" by (simp add: unat_add_no_wrap)
  then show ?thesis by (simp add: prange_def)
qed simp

lemma span_bound: "span off a n p \<Longrightarrow> unat p + n \<le> 2 ^ 64"
  by (simp add: span_def)

lemma pmem_memset_loop:
  assumes "span (hhdm_off s) a n p"
  shows "pmem (memset_loop n a c s) q = (if q \<in> prange p n then c else pmem s q)"
  using assms
proof (induction n arbitrary: a p s)
  case (Suc n)
  note sp = span_Suc [OF Suc.prems]
  from Suc.IH [of "store8 a c s" "a + 1" "p + 1"] sp(2)
  show ?case
    by (auto simp: prange_Suc [OF span_bound [OF Suc.prems]] pmem_store8 sp(1))
qed simp

lemma pmem_memset:
  "span (hhdm_off s) a (unat n) p \<Longrightarrow>
   pmem (memset a c n s) q = (if q \<in> prange p (unat n) then ucast c else pmem s q)"
  by (simp add: memset_def pmem_memset_loop)

text \<open>
  A forward copy delivers the source bytes if the ranges are disjoint, and also if they
  overlap with the destination below the source.
\<close>

lemma pmem_memcpy_loop:
  assumes "span (hhdm_off s) a n p" "span (hhdm_off s) b n r"
    and "unat p \<le> unat r \<or> unat r + n \<le> unat p"
  shows "pmem (memcpy_loop n a b s) q = (if q \<in> prange p n then pmem s (r + (q - p)) else pmem s q)"
  using assms
proof (induction n arbitrary: a b p r s)
  case (Suc n)
  note sp = span_Suc [OF Suc.prems(1)] and sr = span_Suc [OF Suc.prems(2)]
  note bp = span_bound [OF Suc.prems(1)] and br = span_bound [OF Suc.prems(2)]
  let ?t = "store8 a (load8 s b) s"
  have t: "pmem ?t x = (if x = p then pmem s r else pmem s x)" for x
    by (simp add: pmem_store8 sp(1) sr(1) load8_def)
  show ?case
  proof (cases "n = 0")
    case True
    then show ?thesis
      using t [of q] prange_Suc [OF bp] by simp
  next
    case False
    then have p1: "unat (p + 1) = unat p + 1" and r1: "unat (r + 1) = unat r + 1"
      using bp br by (simp_all add: unat_add_no_wrap)
    have ih: "pmem (memcpy_loop n (a + 1) (b + 1) ?t) q =
        (if q \<in> prange (p + 1) n then pmem ?t (r + 1 + (q - (p + 1))) else pmem ?t q)"
      using sp(2) sr(2) Suc.prems(3) p1 r1 by (intro Suc.IH) auto
    have src: "r + (q - p) \<noteq> p" if "q \<in> prange (p + 1) n"
    proof -
      from that p1 obtain i where i: "i < n" "q = p + 1 + of_nat i" by (elim prangeE) auto
      then have "r + (q - p) = r + of_nat (Suc i)" by (simp add: algebra_simps)
      moreover have "unat (r + of_nat (Suc i)) = unat r + Suc i"
        using br i by (intro unat_add_of_nat) simp
      ultimately show ?thesis using Suc.prems(3) i by (auto simp del: of_nat_Suc)
    qed
    show ?thesis
      using ih src t by (auto simp: prange_Suc [OF bp] prange_fresh [OF bp] algebra_simps)
  qed
qed simp

lemma pmem_memcpy:
  "span (hhdm_off s) a (unat n) p \<Longrightarrow> span (hhdm_off s) b (unat n) r \<Longrightarrow>
   unat p \<le> unat r \<or> unat r + unat n \<le> unat p \<Longrightarrow>
   pmem (memcpy a b n s) q = (if q \<in> prange p (unat n) then pmem s (r + (q - p)) else pmem s q)"
  by (simp add: memcpy_def pmem_memcpy_loop)

text \<open>The downward copy of \<open>memmove\<close> delivers them if the destination is above the source.\<close>

lemma pmem_memmove_down:
  assumes "span (hhdm_off s) a n p" "span (hhdm_off s) b n r" "unat r \<le> unat p"
  shows "pmem (memmove_down n (a + of_nat n) (b + of_nat n) s) q =
    (if q \<in> prange p n then pmem s (r + (q - p)) else pmem s q)"
  using assms
proof (induction n arbitrary: s)
  case (Suc n)
  let ?t = "store8 (a + of_nat n) (load8 s (b + of_nat n)) s"
  have eq: "memmove_down (Suc n) (a + of_nat (Suc n)) (b + of_nat (Suc n)) s =
      memmove_down n (a + of_nat n) (b + of_nat n) ?t"
    by (simp add: algebra_simps)
  have va: "v2p (hhdm_off s) (a + of_nat n) = p + of_nat n"
    and vb: "v2p (hhdm_off s) (b + of_nat n) = r + of_nat n"
    using Suc.prems by (auto simp: span_def)
  have t: "pmem ?t x = (if x = p + of_nat n then pmem s (r + of_nat n) else pmem s x)" for x
    by (simp add: pmem_store8 va vb load8_def)
  have ih: "pmem (memmove_down n (a + of_nat n) (b + of_nat n) ?t) q =
      (if q \<in> prange p n then pmem ?t (r + (q - p)) else pmem ?t q)"
    using Suc.prems by (intro Suc.IH) (auto intro: span_mono)
  have bp: "unat p + Suc n \<le> 2 ^ 64" and br: "unat r + Suc n \<le> 2 ^ 64"
    using Suc.prems by (simp_all add: span_def)
  have un: "unat (p + of_nat n) = unat p + n"
    using bp by (intro unat_add_of_nat) simp
  have top: "prange p (Suc n) = insert (p + of_nat n) (prange p n)"
    using un by (auto simp: prange_def word_unat_eq_iff)
  have src: "r + (q - p) \<noteq> p + of_nat n" if "q \<in> prange p n"
  proof -
    from that obtain i where i: "i < n" "q = p + of_nat i" by (elim prangeE)
    have "unat (r + of_nat i) = unat r + i"
      using br i by (intro unat_add_of_nat) simp
    then have "unat (r + (q - p)) = unat r + i" using i by simp
    then show ?thesis using i un Suc.prems(3) by auto
  qed
  show ?case
    using ih src t unfolding eq by (auto simp: top)
qed simp

lemma hhdm_load8_range:
  "span (hhdm_off s) a n p \<Longrightarrow> i < n \<Longrightarrow> load8 s (a + of_nat i) = pmem s (p + of_nat i)"
  by (simp add: span_def load8_def)

lemma load_bytes_map: "load_bytes s a n = map (\<lambda>i. load8 s (a + of_nat i)) [0..<n]"
proof (induction n arbitrary: a)
  case (Suc n)
  have "map (\<lambda>i. load8 s (a + of_nat i)) [0..<Suc n] =
      load8 s a # map (\<lambda>i. load8 s (a + of_nat (Suc i))) [0..<n]"
    by (subst upt_conv_Cons) (simp_all add: map_Suc_upt [symmetric] del: upt_Suc)
  then show ?case by (simp add: Suc.IH algebra_simps)
qed simp

lemma length_load_bytes [simp]: "length (load_bytes s a n) = n"
  by (simp add: load_bytes_map)

lemma load_bytes_span:
  "span (hhdm_off s) a n p \<Longrightarrow> load_bytes s a n = map (\<lambda>i. pmem s (p + of_nat i)) [0..<n]"
  by (simp add: load_bytes_map hhdm_load8_range)

text \<open>
  Reading a range gives the same bytes in two states that agree on the physical range.
\<close>

lemma load_bytes_cong:
  assumes "span (hhdm_off s) a n p" "hhdm_off t = hhdm_off s"
    and "\<And>q. q \<in> prange p n \<Longrightarrow> pmem t q = pmem s q"
  shows "load_bytes t a n = load_bytes s a n"
proof -
  have "pmem t (p + of_nat i) = pmem s (p + of_nat i)" if "i < n" for i
    using assms(3) prange_offset [OF that span_bound [OF assms(1)]] by blast
  then show ?thesis using assms by (simp add: load_bytes_span)
qed

lemma load64_cong:
  "span (hhdm_off s) a 8 p \<Longrightarrow> hhdm_off t = hhdm_off s \<Longrightarrow>
   (\<And>q. q \<in> prange p 8 \<Longrightarrow> pmem t q = pmem s q) \<Longrightarrow> load64 t a = load64 s a"
  unfolding load64_def by (subst load_bytes_cong) auto

section \<open>Encoding of words\<close>

lemma length_word_bytes [simp]: "length (word_bytes n w) = n"
  by (induction n arbitrary: w) simp_all

lemma bytes_word_word_bytes: "bytes_word (word_bytes n w) = take_bit (8 * n) w"
proof (induction n arbitrary: w)
  case (Suc n)
  have "ucast (ucast w :: u8) OR push_bit 8 (take_bit (8 * n) (drop_bit 8 w)) = take_bit (8 + 8 * n) w"
    by (rule bit_eqI) (auto simp: bit_simps)
  then show ?case by (simp add: Suc)
qed simp

lemma word_bytes_bytes_word:
  "8 * length bs \<le> LENGTH('a::len) \<Longrightarrow> word_bytes (length bs) (bytes_word bs :: 'a word) = bs"
proof (induction bs)
  case (Cons b bs)
  let ?w = "bytes_word bs :: 'a word"
  have lo: "ucast (ucast b OR push_bit 8 ?w :: 'a word) = b"
    using Cons.prems by (intro bit_eqI) (auto simp: bit_simps)
  have "drop_bit 8 (ucast b OR push_bit 8 ?w) = take_bit (LENGTH('a) - 8) ?w"
    using Cons.prems by (intro bit_eqI) (auto simp: bit_simps dest: bit_imp_le_length)
  moreover have "word_bytes n (take_bit m v) = word_bytes n v" if "8 * n \<le> m" for n m and v :: "'a word"
    using that
  proof (induction n arbitrary: m v)
    case (Suc n)
    have "ucast (take_bit m v) = (ucast v :: u8)"
      using Suc.prems by (intro bit_eqI) (auto simp: bit_simps)
    moreover have "drop_bit 8 (take_bit m v) = take_bit (m - 8) (drop_bit 8 v)"
      by (simp add: drop_bit_take_bit)
    ultimately show ?case using Suc by simp
  qed simp
  ultimately show ?case using Cons lo by simp
qed simp

lemma pmem_store_bytes:
  assumes "span (hhdm_off s) a (length bs) p"
  shows "pmem (store_bytes a bs s) q =
    (if q \<in> prange p (length bs) then bs ! (unat q - unat p) else pmem s q)"
  using assms
proof (induction bs arbitrary: a p s)
  case (Cons b bs)
  note sp = span_Suc [OF Cons.prems [unfolded list.size add_Suc_right add_0_right]]
  have bd: "unat p + Suc (length bs) \<le> 2 ^ 64" using span_bound [OF Cons.prems] by simp
  have ih: "pmem (store_bytes (a + 1) bs (store8 a b s)) q =
     (if q \<in> prange (p + 1) (length bs) then bs ! (unat q - unat (p + 1)) else pmem (store8 a b s) q)"
    using sp by (intro Cons.IH) simp
  have nth: "(b # bs) ! (unat q - unat p) = bs ! (unat q - unat (p + 1))" if "q \<in> prange (p + 1) (length bs)"
  proof -
    from that have "length bs \<noteq> 0" by (auto simp: prange_def)
    then have "1 \<le> length bs" by (simp add: Suc_le_eq)
    then have "unat (p + 1) = unat p + 1"
      using bd by (intro unat_add_no_wrap [THEN trans]) simp_all
    with that show ?thesis by (auto simp: prange_def nth_Cons' )
  qed
  show ?case
    using ih nth by (auto simp: prange_Suc [OF bd] pmem_store8 sp(1))
qed simp

lemma load_bytes_store_bytes:
  assumes "span (hhdm_off s) a (length bs) p"
  shows "load_bytes (store_bytes a bs s) a (length bs) = bs"
proof (rule nth_equalityI)
  fix i assume "i < length (load_bytes (store_bytes a bs s) a (length bs))"
  then have i: "i < length bs" by simp
  then have "unat (p + of_nat i) = unat p + i"
    using span_bound [OF assms] by (intro unat_add_of_nat) simp
  then show "load_bytes (store_bytes a bs s) a (length bs) ! i = bs ! i"
    using assms i prange_offset [OF i span_bound [OF assms]]
    by (simp add: load_bytes_span pmem_store_bytes)
qed simp

lemma load64_store64: "span (hhdm_off s) a 8 p \<Longrightarrow> load64 (store64 a w s) a = w"
  using load_bytes_store_bytes [of s a "word_bytes 8 w" p]
  by (simp add: load64_def store64_def bytes_word_word_bytes take_bit_word_eq_self)

lemma load32_store32: "span (hhdm_off s) a 4 p \<Longrightarrow> load32 (store32 a w s) a = w"
  using load_bytes_store_bytes [of s a "word_bytes 4 w" p]
  by (simp add: load32_def store32_def bytes_word_word_bytes take_bit_word_eq_self)

lemma pmem_store64_other:
  "span (hhdm_off s) a 8 p \<Longrightarrow> q \<notin> prange p 8 \<Longrightarrow> pmem (store64 a w s) q = pmem s q"
  using pmem_store_bytes [of s a "word_bytes 8 w" p q] by (simp add: store64_def)

lemma pmem_store32_other:
  "span (hhdm_off s) a 4 p \<Longrightarrow> q \<notin> prange p 4 \<Longrightarrow> pmem (store32 a w s) q = pmem s q"
  using pmem_store_bytes [of s a "word_bytes 4 w" p q] by (simp add: store32_def)

text \<open>A word store leaves a word at a disjoint physical place alone.\<close>

lemma load64_store64_other:
  assumes "span (hhdm_off s) a 8 p" "span (hhdm_off s) b 8 r" "prange p 8 \<inter> prange r 8 = {}"
  shows "load64 (store64 a w s) b = load64 s b"
  using assms by (intro load64_cong [of _ _ r]) (auto intro: pmem_store64_other)

section \<open>Copies deliver the source\<close>

text \<open>
  \<open>same_window\<close>: both virtual ranges go through the same of the two windows, so the
  comparison of pointers in \<open>memmove\<close> tells how the physical ranges overlap.
\<close>

definition same_window :: "u64 \<Rightarrow> ptr \<Rightarrow> ptr \<Rightarrow> nat \<Rightarrow> bool" where
  "same_window off a b n \<longleftrightarrow>
     (unat a + n \<le> unat off \<and> unat b + n \<le> unat off) \<or>
     (unat off \<le> unat a \<and> unat off \<le> unat b \<and> unat a + n < 2 ^ 64 \<and> unat b + n < 2 ^ 64)"

lemma span_window:
  assumes "unat off \<le> unat a" "unat a + n < 2 ^ 64"
  shows "span off a n (a - off)"
proof -
  have "unat (a - off) = unat a - unat off"
    using assms by (simp add: unat_sub word_le_nat_alt)
  then have "span off (a - off + off) n (a - off)"
    using assms by (intro span_high) simp
  then show ?thesis by simp
qed

lemma same_window_span:
  assumes "same_window off a b n"
  obtains p r where "span off a n p" "span off b n r"
    "unat p + unat b = unat r + unat a" "unat a + n < 2 ^ 64" "unat b + n < 2 ^ 64"
proof (cases "unat a + n \<le> unat off \<and> unat b + n \<le> unat off")
  case True
  then have "unat a + n < 2 ^ 64" "unat b + n < 2 ^ 64"
    using le_less_trans [OF _ unat_u64_less [of off]] by auto
  with that [of a b] True show ?thesis by (auto simp: span_low)
next
  case False
  with assms have h: "unat off \<le> unat a" "unat off \<le> unat b"
     "unat a + n < 2 ^ 64" "unat b + n < 2 ^ 64"
    by (auto simp: same_window_def)
  then have "unat (a - off) = unat a - unat off" "unat (b - off) = unat b - unat off"
    by (simp_all add: unat_sub word_le_nat_alt)
  with that [of "a - off" "b - off"] h show ?thesis by (simp add: span_window)
qed

lemma memmove_delivers:
  assumes "same_window (hhdm_off s) d src (unat n)"
  shows "load_bytes (memmove d src n s) d (unat n) = load_bytes s src (unat n)"
    and "\<forall>i < unat n. q \<noteq> v2p (hhdm_off s) (d + of_nat i) \<Longrightarrow> pmem (memmove d src n s) q = pmem s q"
proof -
  from assms obtain p r where sp: "span (hhdm_off s) d (unat n) p" "span (hhdm_off s) src (unat n) r"
    and off: "unat p + unat src = unat r + unat d" and b: "unat d + unat n < 2 ^ 64" "unat src + unat n < 2 ^ 64"
    by (rule same_window_span)
  have sn: "unat (src + n) = unat src + unat n"
    using b by (intro unat_add_no_wrap) simp
  have pm: "pmem (memmove d src n s) q = (if q \<in> prange p (unat n) then pmem s (r + (q - p)) else pmem s q)" for q
  proof (cases "src < d \<and> d < src + n")
    case True
    then have "unat r \<le> unat p" using off by (simp add: word_less_nat_alt)
    with True sp show ?thesis
      using pmem_memmove_down [of s d "unat n" p src r q] by (simp add: memmove_def)
  next
    case False
    then have "unat p \<le> unat r \<or> unat r + unat n \<le> unat p"
      using off sn by (auto simp: word_less_nat_alt)
    with False sp show ?thesis
      using pmem_memcpy_loop [of s d "unat n" p src r q] by (auto simp: memmove_def)
  qed
  then have "pmem (memmove d src n s) (p + of_nat i) = pmem s (r + of_nat i)" if "i < unat n" for i
    using prange_offset [OF that span_bound [OF sp(1)]] by simp
  then show "load_bytes (memmove d src n s) d (unat n) = load_bytes s src (unat n)"
    using sp by (simp add: load_bytes_span)
  assume q: "\<forall>i < unat n. q \<noteq> v2p (hhdm_off s) (d + of_nat i)"
  have "q \<notin> prange p (unat n)"
  proof
    assume "q \<in> prange p (unat n)"
    then obtain i where "i < unat n" "q = p + of_nat i" by (rule prangeE)
    then show False using q sp(1) by (auto simp: span_def)
  qed
  then show "pmem (memmove d src n s) q = pmem s q" using pm by simp
qed

lemma memcpy_delivers:
  assumes "span (hhdm_off s) d (unat n) p" "span (hhdm_off s) src (unat n) r"
    and "unat p \<le> unat r \<or> unat r + unat n \<le> unat p"
  shows "load_bytes (memcpy d src n s) d (unat n) = load_bytes s src (unat n)"
proof -
  have "pmem (memcpy d src n s) (p + of_nat i) = pmem s (r + of_nat i)" if "i < unat n" for i
    using pmem_memcpy [OF assms] prange_offset [OF that span_bound [OF assms(1)]] by simp
  then show ?thesis using assms by (simp add: load_bytes_span)
qed

lemma memcmp_loop_eq_0: "memcmp_loop s n a b = 0 \<longleftrightarrow> load_bytes s a n = load_bytes s b n"
  by (induction n arbitrary: a b) auto

lemma memcmp_eq_0: "memcmp s a b n = 0 \<longleftrightarrow> load_bytes s a (unat n) = load_bytes s b (unat n)"
  by (simp add: memcmp_def memcmp_loop_eq_0)

section \<open>Reading and writing inside a range\<close>

lemma load_bytes_append:
  "load_bytes s a (m + n) = load_bytes s a m @ load_bytes s (a + of_nat m) n"
  by (induction m arbitrary: a) (simp_all add: algebra_simps)

lemma take_load_bytes: "k \<le> n \<Longrightarrow> take k (load_bytes s a n) = load_bytes s a k"
  using load_bytes_append [of s a k "n - k"] by simp

lemma drop_load_bytes: "k \<le> n \<Longrightarrow> drop k (load_bytes s a n) = load_bytes s (a + of_nat k) (n - k)"
  using load_bytes_append [of s a k "n - k"] by simp

text \<open>A copy writes nothing outside its destination, whatever its source.\<close>

lemma pmem_memcpy_loop_other:
  "span (hhdm_off s) a n p \<Longrightarrow> q \<notin> prange p n \<Longrightarrow> pmem (memcpy_loop n a b s) q = pmem s q"
proof (induction n arbitrary: a b p s)
  case (Suc n)
  note sp = span_Suc [OF Suc.prems(1)]
  show ?case
    using Suc.IH [of "store8 a (load8 s b) s" "a + 1" "p + 1" "b + 1"] sp Suc.prems(2)
    by (auto simp: prange_Suc [OF span_bound [OF Suc.prems(1)]] pmem_store8)
qed simp

lemma pmem_memcpy_other:
  "span (hhdm_off s) a (unat n) p \<Longrightarrow> q \<notin> prange p (unat n) \<Longrightarrow> pmem (memcpy a b n s) q = pmem s q"
  by (simp add: memcpy_def pmem_memcpy_loop_other)

lemma pmem_store_bytes_other:
  "span (hhdm_off s) a (length bs) p \<Longrightarrow> q \<notin> prange p (length bs) \<Longrightarrow> pmem (store_bytes a bs s) q = pmem s q"
  by (simp add: pmem_store_bytes)

text \<open>A store inside a range replaces the bytes there.\<close>

lemma load_bytes_store_inside:
  assumes sp: "span (hhdm_off s) a n p" and i: "i + length bs \<le> n"
  shows "load_bytes (store_bytes (a + of_nat i) bs s) a n =
    take i (load_bytes s a n) @ bs @ drop (i + length bs) (load_bytes s a n)"
proof -
  let ?t = "store_bytes (a + of_nat i) bs s" and ?l = "length bs"
  have si: "span (hhdm_off s) (a + of_nat i) ?l (p + of_nat i)" by (rule span_shift [OF sp i])
  have n: "n = i + ?l + (n - i - ?l)" using i by simp
  have un: "unat (p + of_nat i) = unat p + i" if "?l \<noteq> 0"
    using span_bound [OF sp] i that by (intro unat_add_of_nat) (cases bs; simp)
  have lo: "load_bytes ?t a i = load_bytes s a i"
  proof (rule load_bytes_cong [OF span_mono [OF sp]])
    fix q assume "q \<in> prange p i"
    then have "q \<notin> prange (p + of_nat i) ?l" using un by (cases "?l = 0") (auto simp: prange_def)
    then show "pmem ?t q = pmem s q" using pmem_store_bytes_other [OF si] by blast
  qed (use i in simp_all)
  have hi: "load_bytes ?t (a + of_nat (i + ?l)) (n - i - ?l) = load_bytes s (a + of_nat (i + ?l)) (n - i - ?l)"
  proof (cases "n - i - ?l = 0")
    case False
    then have "unat (p + of_nat (i + ?l)) = unat p + i + ?l"
      using span_bound [OF sp] i by (subst unat_add_of_nat) simp_all
    then have "q \<notin> prange (p + of_nat i) ?l" if "q \<in> prange (p + of_nat (i + ?l)) (n - i - ?l)" for q
      using that un by (cases "?l = 0") (auto simp: prange_def)
    moreover have "span (hhdm_off s) (a + of_nat (i + ?l)) (n - i - ?l) (p + of_nat (i + ?l))"
      using i by (intro span_shift [OF sp]) simp
    ultimately show ?thesis
      using pmem_store_bytes_other [OF si] by (intro load_bytes_cong) auto
  qed simp
  have "load_bytes ?t a n = load_bytes ?t a i @ load_bytes ?t (a + of_nat i) ?l @
      load_bytes ?t (a + of_nat (i + ?l)) (n - i - ?l)"
    by (subst n, subst load_bytes_append, subst load_bytes_append) simp
  also have "load_bytes ?t (a + of_nat i) ?l = bs" by (rule load_bytes_store_bytes [OF si])
  finally show ?thesis
    unfolding lo hi using i by (simp add: take_load_bytes drop_load_bytes)
qed

section \<open>Properties\<close>

text \<open>\<open>memmove\<close> writes memory only, and the same bytes as one store of what the source held.\<close>

lemma memmove_pmem_only: "memmove d src n s = s\<lparr>pmem := pmem (memmove d src n s)\<rparr>"
proof -
  have "memmove_down k a b s = s\<lparr>pmem := pmem (memmove_down k a b s)\<rparr>" for k a b
  proof (induction k arbitrary: a b s)
    case (Suc k)
    show ?case unfolding memmove_down.simps by (subst Suc) (simp add: store8_def)
  qed simp
  then show ?thesis
    unfolding memmove_def using memcpy_loop_pmem_only by (cases "src < d \<and> d < src + n") (simp, auto)
qed

text \<open>
  C29. \<open>memmove\<close> is one simultaneous copy: whatever way the ranges overlap, as long as both go
  through the same window on physical memory, it leaves the state that storing the bytes the source
  held before leaves.
\<close>

theorem memmove_equiv:
  assumes "same_window (hhdm_off s) d src (unat n)"
  shows "memmove d src n s = store_bytes d (load_bytes s src (unat n)) s"
proof -
  let ?m = "memmove d src n s" and ?t = "store_bytes d (load_bytes s src (unat n)) s"
  obtain p where sp: "span (hhdm_off s) d (unat n) p" using assms by (rule same_window_span)
  have off: "hhdm_off ?m = hhdm_off s" by (subst memmove_pmem_only) simp
  have "load_bytes ?t d (unat n) = load_bytes s src (unat n)"
    using load_bytes_store_bytes [of s d "load_bytes s src (unat n)" p] sp by simp
  then have eq: "load_bytes ?m d (unat n) = load_bytes ?t d (unat n)" using memmove_delivers(1) [OF assms] by simp
  have "pmem ?m q = pmem ?t q" for q
  proof (cases "\<exists>i < unat n. q = v2p (hhdm_off s) (d + of_nat i)")
    case True
    then obtain i where i: "i < unat n" "q = v2p (hhdm_off s) (d + of_nat i)" by blast
    have "load_bytes ?m d (unat n) ! i = load_bytes ?t d (unat n) ! i" by (simp only: eq)
    then show ?thesis using i by (simp add: load_bytes_map load8_def off)
  next
    case False
    then have "q \<notin> prange p (unat n)" using sp by (auto simp: span_def elim!: prangeE)
    then show ?thesis using False memmove_delivers(2) [OF assms] pmem_store_bytes [of s d "load_bytes s src (unat n)" p q] sp
      by simp
  qed
  then have "pmem ?m = pmem ?t" by (rule ext)
  then show ?thesis by (subst memmove_pmem_only, subst store_bytes_pmem_only) simp
qed

theorem memmove_equiv_witness:
  "memmove 0x102 0x100 8 \<lparr>pmem = ucast, hhdm_off = 0x8000\<rparr> =
     store_bytes 0x102 [0, 1, 2, 3, 4, 5, 6, 7] \<lparr>pmem = ucast, hhdm_off = 0x8000\<rparr>"
proof -
  have "[0..<8] = [0, 1, 2, 3, 4, 5, 6, 7]" by (simp add: upt_conv_Cons)
  then have "load_bytes \<lparr>pmem = ucast, hhdm_off = 0x8000\<rparr> 0x100 8 = [0, 1, 2, 3, 4, 5, 6, 7]"
    unfolding load_bytes_map by (simp add: load8_def v2p_def)
  then show ?thesis
    using memmove_equiv [of "\<lparr>pmem = ucast, hhdm_off = 0x8000\<rparr>" "0x102" "0x100" 8] by (simp add: same_window_def)
qed

text \<open>\<open>memmove\<close> delivers the source bytes and writes nothing outside the destination.\<close>

theorem memmove_spec:
  assumes "same_window (hhdm_off s) d src (unat n)"
  shows "load_bytes (memmove d src n s) d (unat n) = load_bytes s src (unat n) \<and>
    (\<forall>q. (\<forall>i < unat n. q \<noteq> v2p (hhdm_off s) (d + of_nat i)) \<longrightarrow> pmem (memmove d src n s) q = pmem s q)"
  using memmove_delivers [OF assms] by blast

theorem memmove_spec_witness:
  "load_bytes (memmove 0x102 0x100 8 \<lparr>pmem = ucast, hhdm_off = 0x8000\<rparr>) 0x102 8 =
     load_bytes \<lparr>pmem = ucast, hhdm_off = 0x8000\<rparr> 0x100 8"
  using memmove_spec [of "\<lparr>pmem = ucast, hhdm_off = 0x8000\<rparr>" "0x102" "0x100" 8]
  by (simp add: same_window_def)

end
