(* ===== verification/Endian.thy ===== *)
theory Endian
  imports Memory
begin

text \<open>
  Byte order: the macros of \<open>libk/byteswap.h\<close> and the host-to-big-endian names of
  \<open>libk/endian.h\<close>. Neither \<open>__BYTE_ORDER\<close> nor \<open>__LITTLE_ENDIAN\<close> is defined in the sources, so
  the preprocessor compares 0 with 0 and takes the little-endian branch.
\<close>

section \<open>The code\<close>

definition bswap_16 :: "u16 \<Rightarrow> u16" where
  "bswap_16 x = (drop_bit 8 x AND 0xff) OR push_bit 8 (x AND 0xff)"

definition bswap_32 :: "u32 \<Rightarrow> u32" where
  "bswap_32 x =
     drop_bit 24 (x AND 0xff000000) OR drop_bit 8 (x AND 0x00ff0000) OR
     push_bit 8 (x AND 0x0000ff00) OR push_bit 24 (x AND 0x000000ff)"

definition bswap_64 :: "u64 \<Rightarrow> u64" where
  "bswap_64 x =
     drop_bit 56 (x AND 0xff00000000000000) OR drop_bit 40 (x AND 0x00ff000000000000) OR
     drop_bit 24 (x AND 0x0000ff0000000000) OR drop_bit 8 (x AND 0x000000ff00000000) OR
     push_bit 8 (x AND 0x00000000ff000000) OR push_bit 24 (x AND 0x0000000000ff0000) OR
     push_bit 40 (x AND 0x000000000000ff00) OR push_bit 56 (x AND 0x00000000000000ff)"

definition uint16_identity :: "u16 \<Rightarrow> u16" where "uint16_identity x = x"
definition uint32_identity :: "u32 \<Rightarrow> u32" where "uint32_identity x = x"
definition uint64_identity :: "u64 \<Rightarrow> u64" where "uint64_identity x = x"

definition htobe16 :: "u16 \<Rightarrow> u16" where "htobe16 x = bswap_16 x"
definition htole16 :: "u16 \<Rightarrow> u16" where "htole16 x = uint16_identity x"
definition be16toh :: "u16 \<Rightarrow> u16" where "be16toh x = bswap_16 x"
definition le16toh :: "u16 \<Rightarrow> u16" where "le16toh x = uint16_identity x"
definition htobe32 :: "u32 \<Rightarrow> u32" where "htobe32 x = bswap_32 x"
definition htole32 :: "u32 \<Rightarrow> u32" where "htole32 x = uint32_identity x"
definition be32toh :: "u32 \<Rightarrow> u32" where "be32toh x = bswap_32 x"
definition le32toh :: "u32 \<Rightarrow> u32" where "le32toh x = uint32_identity x"
definition htobe64 :: "u64 \<Rightarrow> u64" where "htobe64 x = bswap_64 x"
definition htole64 :: "u64 \<Rightarrow> u64" where "htole64 x = uint64_identity x"
definition be64toh :: "u64 \<Rightarrow> u64" where "be64toh x = bswap_64 x"
definition le64toh :: "u64 \<Rightarrow> u64" where "le64toh x = uint64_identity x"

section \<open>Bytes\<close>

text \<open>A mask of one byte, and a word as the bits of its bytes.\<close>

lemma byte_masks:
  "(0xff :: u16) = mask 8"
  "(0xff :: u32) = mask 8" "(0xff00 :: u32) = push_bit 8 (mask 8)"
  "(0xff0000 :: u32) = push_bit 16 (mask 8)" "(0xff000000 :: u32) = push_bit 24 (mask 8)"
  "(0xff :: u64) = mask 8" "(0xff00 :: u64) = push_bit 8 (mask 8)"
  "(0xff0000 :: u64) = push_bit 16 (mask 8)" "(0xff000000 :: u64) = push_bit 24 (mask 8)"
  "(0xff00000000 :: u64) = push_bit 32 (mask 8)" "(0xff0000000000 :: u64) = push_bit 40 (mask 8)"
  "(0xff000000000000 :: u64) = push_bit 48 (mask 8)" "(0xff00000000000000 :: u64) = push_bit 56 (mask 8)"
  by (simp_all add: mask_eq_exp_minus_1 push_bit_eq_mult)

lemma byte_down:
  fixes x :: "'a::len word"
  assumes "m \<le> k"
  shows "drop_bit m (x AND push_bit k (mask 8)) = push_bit (k - m) (ucast (ucast (drop_bit k x) :: u8))"
  by (rule bit_word_eqI) (use assms in \<open>auto simp: bit_simps add.commute dest: bit_imp_le_length\<close>)

lemma byte_up:
  fixes x :: "'a::len word"
  shows "push_bit m (x AND push_bit k (mask 8)) = push_bit (m + k) (ucast (ucast (drop_bit k x) :: u8))"
  by (rule bit_word_eqI) (auto simp: bit_simps)

lemma byte_low:
  fixes x :: "'a::len word"
  shows "x AND mask 8 = ucast (ucast x :: u8)"
  by (rule bit_word_eqI) (auto simp: bit_simps)

lemma unfold_bytes:
  fixes x :: "'a::len word"
  shows "word_bytes 2 x = [ucast x, ucast (drop_bit 8 x)]"
    "word_bytes 4 x = [ucast x, ucast (drop_bit 8 x), ucast (drop_bit 16 x), ucast (drop_bit 24 x)]"
    "word_bytes 8 x = [ucast x, ucast (drop_bit 8 x), ucast (drop_bit 16 x), ucast (drop_bit 24 x),
       ucast (drop_bit 32 x), ucast (drop_bit 40 x), ucast (drop_bit 48 x), ucast (drop_bit 56 x)]"
proof -
  have n: "(2 :: nat) = Suc (Suc 0)" "(4 :: nat) = Suc (Suc (Suc (Suc 0)))" by simp_all
  have w4: "word_bytes 4 x = [ucast x, ucast (drop_bit 8 x), ucast (drop_bit 16 x), ucast (drop_bit 24 x)]" for x :: "'a word"
    by (subst n(2), unfold word_bytes.simps drop_bit_drop_bit) simp
  then show "word_bytes 4 x = [ucast x, ucast (drop_bit 8 x), ucast (drop_bit 16 x), ucast (drop_bit 24 x)]" .
  show "word_bytes 2 x = [ucast x, ucast (drop_bit 8 x)]"
    by (subst n(1), unfold word_bytes.simps drop_bit_drop_bit) simp
  have "word_bytes (m + n) w = word_bytes m w @ word_bytes n (drop_bit (8 * m) w)" for m n and w :: "'a word"
    by (induction m arbitrary: w) (simp_all add: drop_bit_drop_bit add.commute)
  from this [of 4 4 x] show "word_bytes 8 x = [ucast x, ucast (drop_bit 8 x), ucast (drop_bit 16 x), ucast (drop_bit 24 x),
       ucast (drop_bit 32 x), ucast (drop_bit 40 x), ucast (drop_bit 48 x), ucast (drop_bit 56 x)]"
    by (simp add: w4 drop_bit_drop_bit)
qed

lemmas join_bytes = bytes_word.simps push_bit_or push_bit_push_bit or.right_neutral
  push_bit_of_0 rev.simps append.simps

lemmas byte_simps = byte_masks byte_down byte_up byte_low

text \<open>The macros reverse the bytes of the little-endian encoding.\<close>

lemma bswap_16_bytes: "bswap_16 x = bytes_word (rev (word_bytes 2 x))"
  by (simp only: bswap_16_def byte_simps unfold_bytes join_bytes)

lemma byte_down_0:
  fixes x :: "'a::len word"
  shows "drop_bit k (x AND push_bit k (mask 8)) = ucast (ucast (drop_bit k x) :: u8)"
  using byte_down [of k k x] by (simp only: diff_self_eq_0 push_bit_0_id id_apply order.refl)

lemma bswap_32_bytes: "bswap_32 x = bytes_word (rev (word_bytes 4 x))"
  unfolding bswap_32_def unfold_bytes join_bytes byte_masks byte_down_0
  by (simp add: byte_low byte_up byte_down del: drop_bit_and push_bit_and)

lemma bswap_64_bytes: "bswap_64 x = bytes_word (rev (word_bytes 8 x))"
  unfolding bswap_64_def unfold_bytes join_bytes byte_masks byte_down_0
  by (simp add: byte_low byte_up byte_down del: drop_bit_and push_bit_and)

lemma bytes_word_inverse: "LENGTH('a) = 8 * n \<Longrightarrow> bytes_word (word_bytes n x) = (x :: 'a::len word)"
  by (metis bytes_word_word_bytes take_bit_word_eq_self order.refl)

lemma word_bytes_rev:
  "LENGTH('a) = 8 * n \<Longrightarrow> word_bytes n (bytes_word (rev (word_bytes n (x :: 'a::len word))) :: 'a word) =
     rev (word_bytes n x)"
  using word_bytes_bytes_word [where 'a = 'a, of "rev (word_bytes n x)"] by simp

section \<open>Properties\<close>

text \<open>
  Converting to network order and back is the identity at every width, and a value read
  from memory and converted has its first byte as the most significant one.
\<close>

theorem byteswap_roundtrip:
  "be16toh (htobe16 v) = v \<and> be32toh (htobe32 w) = w \<and> be64toh (htobe64 x) = x \<and>
   be32toh (load32 s a) = bytes_word (rev (load_bytes s a 4))"
proof -
  have "be32toh (load32 s a) = bytes_word (rev (load_bytes s a 4))"
    using word_bytes_bytes_word [where 'a = 32, of "load_bytes s a 4"]
    by (simp add: be32toh_def bswap_32_bytes load32_def)
  then show ?thesis
    by (simp add: be16toh_def htobe16_def be32toh_def htobe32_def be64toh_def htobe64_def
      bswap_16_bytes bswap_32_bytes bswap_64_bytes word_bytes_rev bytes_word_inverse)
qed

end
