(* ===== verification/Bitmap.thy ===== *)
theory Bitmap
  imports Memory
begin

unbundle bit_operations_syntax

text \<open>
  The bitmap of \<open>libk/bitmap.c\<close>: \<open>bitmap_get\<close> and \<open>bitmap_set\<close> on a byte buffer in
  memory, and their meaning as a set of numbered bits.
\<close>

section \<open>The code\<close>

record Bitmap =
  bm_size :: usize
  bm_buffer :: ptr

definition bitmap_get :: "Bitmap \<Rightarrow> usize \<Rightarrow> 'z machine_scheme \<Rightarrow> u8" where
  "bitmap_get bm index s =
     (let byteIndex = index div 8;
          bitIndex = ucast (index mod 8) :: u8;
          bitIndexer = push_bit (unat bitIndex) 1 :: u8
      in load8 s (bm_buffer bm + byteIndex) AND bitIndexer)"

definition bitmap_set :: "Bitmap \<Rightarrow> usize \<Rightarrow> u8 \<Rightarrow> 'z machine_scheme \<Rightarrow> bool \<times> 'z machine_scheme" where
  "bitmap_set bm index setto s =
     (if index > bm_size bm * 8 then (False, s)
      else
        let byteIndex = index div 8;
            bitIndex = ucast (index mod 8) :: u8;
            bitMask = push_bit (unat bitIndex) 1 :: u8;
            b = load8 s (bm_buffer bm + byteIndex);
            temp = b XOR (b AND bitMask)
        in (True, store8 (bm_buffer bm + byteIndex) (temp OR push_bit (unat bitIndex) setto) s))"

section \<open>The set of bits\<close>

definition bmp_bit :: "Bitmap \<Rightarrow> 'z machine_scheme \<Rightarrow> usize \<Rightarrow> bool" where
  "bmp_bit bm s i \<longleftrightarrow> bit (load8 s (bm_buffer bm + i div 8)) (unat i mod 8)"

text \<open>
  \<open>bmp_ok bm s\<close>: the buffer, with the one byte past its end that the bound check of
  \<open>bitmap_set\<close> lets through, is a range of physical memory.
\<close>

definition bmp_ok :: "Bitmap \<Rightarrow> 'z machine_scheme \<Rightarrow> bool" where
  "bmp_ok bm s \<longleftrightarrow> unat (bm_size bm) < 2 ^ 60 \<and>
     (\<exists>p. span (hhdm_off s) (bm_buffer bm) (Suc (unat (bm_size bm))) p)"

lemma unat_bit_index: "unat (ucast (i mod 8 :: u64) :: u8) = unat i mod 8"
proof -
  have "unat i mod 8 < 256"
    by (rule less_trans [OF mod_less_divisor]) simp_all
  then show ?thesis by (simp add: unsigned_ucast_eq unsigned_take_bit_eq unat_mod_u64 take_bit_eq_mod)
qed

lemma and_single_bit: "k < 8 \<Longrightarrow> ((b :: u8) AND push_bit k 1 \<noteq> 0) = bit b k"
proof -
  assume "k < 8"
  have "b AND push_bit k 1 = (if bit b k then push_bit k 1 else 0)"
    by (rule bit_eqI) (auto simp: bit_simps)
  moreover have "push_bit k (1 :: u8) \<noteq> 0"
    using \<open>k < 8\<close> by (auto simp: bit_eq_iff bit_simps)
  ultimately show ?thesis by simp
qed

lemma bitmap_get_bit: "bitmap_get bm i s \<noteq> 0 \<longleftrightarrow> bmp_bit bm s i"
  using and_single_bit [of "unat i mod 8"]
  by (simp add: bitmap_get_def bmp_bit_def unat_bit_index Let_def)

lemma bmp_ok_cong [simp]: "bmp_ok bm (store8 a b s) = bmp_ok bm s"
  by (simp add: bmp_ok_def)

lemma index_bound_iff:
  assumes "unat (bm_size bm) < 2 ^ 60"
  shows "i > bm_size bm * 8 \<longleftrightarrow> unat i > 8 * unat (bm_size bm)"
  using assms by (simp add: word_less_nat_alt unat_word_ariths mult.commute)

lemma bitmap_set_fst:
  "unat (bm_size bm) < 2 ^ 60 \<Longrightarrow> fst (bitmap_set bm i v s) = (unat i \<le> 8 * unat (bm_size bm))"
  using index_bound_iff [of bm i] by (auto simp: bitmap_set_def Let_def)

lemma bitmap_set_fail:
  "unat (bm_size bm) < 2 ^ 60 \<Longrightarrow> unat i > 8 * unat (bm_size bm) \<Longrightarrow> bitmap_set bm i v s = (False, s)"
  using index_bound_iff [of bm i] by (simp add: bitmap_set_def)

lemma hhdm_off_bitmap_set [simp]: "hhdm_off (snd (bitmap_set bm i v s)) = hhdm_off s"
  by (simp add: bitmap_set_def Let_def)

lemma bit_set_byte:
  assumes "k < 8" "n < 8"
  shows "bit ((b XOR (b AND push_bit k 1)) OR push_bit k (of_bool v) :: u8) n =
    (if n = k then v else bit b n)"
  using assms by (auto simp: bit_simps)

lemma bmp_index_eq:
  "(i div 8 = j div 8 \<and> unat i mod 8 = unat j mod 8) = (i = (j :: u64))"
  by (auto simp: word_unat_eq_iff unat_div_u64) (metis div_mult_mod_eq)

text \<open>Setting bit \<open>i\<close> changes the meaning of bit \<open>i\<close> and of no other bit of the buffer.\<close>

lemma bitmap_set_bit:
  assumes ok: "bmp_ok bm s" and i: "unat i \<le> 8 * unat (bm_size bm)" and j: "unat j \<le> 8 * unat (bm_size bm)"
  shows "bmp_bit bm (snd (bitmap_set bm i (of_bool v) s)) j = (if j = i then v else bmp_bit bm s j)"
proof -
  obtain p where p: "span (hhdm_off s) (bm_buffer bm) (Suc (unat (bm_size bm))) p"
    and small: "unat (bm_size bm) < 2 ^ 60"
    using ok by (auto simp: bmp_ok_def)
  have idx: "v2p (hhdm_off s) (bm_buffer bm + k div 8) = p + k div 8 \<and> unat (k div 8) \<le> unat (bm_size bm)"
    if "unat k \<le> 8 * unat (bm_size bm)" for k
  proof -
    from that have "unat (k div 8) \<le> unat (bm_size bm)" by (simp add: unat_div_u64)
    with p have "v2p (hhdm_off s) (bm_buffer bm + of_nat (unat (k div 8))) = p + of_nat (unat (k div 8))"
      unfolding span_def using less_Suc_eq_le by blast
    then show ?thesis using \<open>unat (k div 8) \<le> _\<close> by simp
  qed
  have eqa: "(v2p (hhdm_off s) (bm_buffer bm + j div 8) = v2p (hhdm_off s) (bm_buffer bm + i div 8)) =
      (j div 8 = i div 8)"
    using idx [OF i] idx [OF j] by simp
  have ni: "\<not> i > bm_size bm * 8" using i index_bound_iff [OF small, of i] by simp
  let ?a = "v2p (hhdm_off s) (bm_buffer bm + i div 8)"
  let ?k = "unat i mod 8"
  let ?b = "(pmem s ?a XOR (pmem s ?a AND push_bit ?k 1)) OR push_bit ?k (of_bool v)"
  have "snd (bitmap_set bm i (of_bool v) s) = store8 (bm_buffer bm + i div 8) ?b s"
    using ni by (simp add: bitmap_set_def Let_def unat_bit_index load8_def)
  then have "bmp_bit bm (snd (bitmap_set bm i (of_bool v) s)) j \<longleftrightarrow>
      (if j div 8 = i div 8 then bit ?b (unat j mod 8) else bmp_bit bm s j)"
    using eqa by (simp only: bmp_bit_def load8_def pmem_store8 hhdm_off_store8) simp
  moreover have "bit ?b (unat j mod 8) = (if unat j mod 8 = ?k then v else bit (pmem s ?a) (unat j mod 8))"
    by (intro bit_set_byte) simp_all
  ultimately show ?thesis
    using bmp_index_eq [of j i] by (auto simp: bmp_bit_def load8_def)
qed

text \<open>The bytes outside the buffer are not touched, unless the index is the one just past it.\<close>

definition bmp_region :: "Bitmap \<Rightarrow> 'z machine_scheme \<Rightarrow> u64 set" where
  "bmp_region bm s = (\<lambda>i. v2p (hhdm_off s) (bm_buffer bm + of_nat i)) ` {..<unat (bm_size bm)}"

lemma bitmap_set_frame:
  assumes "unat (bm_size bm) < 2 ^ 60" and "q \<notin> bmp_region bm s"
    and "unat i = 8 * unat (bm_size bm) \<longrightarrow> q \<noteq> v2p (hhdm_off s) (bm_buffer bm + bm_size bm)"
  shows "pmem (snd (bitmap_set bm i v s)) q = pmem s q"
proof -
  consider "unat i < 8 * unat (bm_size bm)" | "unat i = 8 * unat (bm_size bm)" | "unat i > 8 * unat (bm_size bm)"
    by linarith
  then show ?thesis
  proof cases
  case 1
  then have "unat (i div 8) < unat (bm_size bm)" by (simp add: unat_div_u64 less_mult_imp_div_less mult.commute)
  then have "v2p (hhdm_off s) (bm_buffer bm + of_nat (unat (i div 8))) \<in> bmp_region bm s"
    unfolding bmp_region_def by blast
  then show ?thesis
    using assms(2) by (auto simp: bitmap_set_def Let_def pmem_store8)
next
  case 2
  then have "i div 8 = bm_size bm" by (simp add: word_unat_eq_iff unat_div_u64)
  then show ?thesis using assms(3) 2 by (auto simp: bitmap_set_def Let_def pmem_store8)
next
  case 3
  then show ?thesis using assms(1) by (simp add: bitmap_set_fail)
qed
qed

lemma bmp_region_span:
  assumes "span (hhdm_off s) (bm_buffer bm) (unat (bm_size bm)) p"
  shows "bmp_region bm s = prange p (unat (bm_size bm))"
proof
  show "bmp_region bm s \<subseteq> prange p (unat (bm_size bm))"
    using assms prange_offset [OF _ span_bound [OF assms]]
    by (auto simp: bmp_region_def span_def)
  show "prange p (unat (bm_size bm)) \<subseteq> bmp_region bm s"
    using assms by (auto simp: bmp_region_def span_def elim!: prangeE)
qed

lemma bitmap_set_pmem_only [pmem_only]:
  "snd (bitmap_set bm i v s) = s\<lparr>pmem := pmem (snd (bitmap_set bm i v s))\<rparr>"
  by (simp add: bitmap_set_def Let_def store8_def)

section \<open>Properties\<close>

text \<open>
  \<open>bitmap_set\<close> then \<open>bitmap_get\<close>: setting a bit the bound check admits succeeds, changes that
  bit and no other bit, and writes no byte outside the buffer, but for the index just past it, which
  writes the one byte after; an index beyond is refused and changes nothing.
\<close>

theorem bitmap_set_get:
  assumes "bmp_ok bm s"
  shows "if unat i \<le> 8 * unat (bm_size bm)
    then \<exists>t. bitmap_set bm i (of_bool v) s = (True, t) \<and>
      (\<forall>j. unat j \<le> 8 * unat (bm_size bm) \<longrightarrow>
         (bitmap_get bm j t \<noteq> 0) = (if j = i then v else bitmap_get bm j s \<noteq> 0)) \<and>
      (\<forall>q. q \<notin> bmp_region bm s \<and> (unat i = 8 * unat (bm_size bm) \<longrightarrow>
         q \<noteq> v2p (hhdm_off s) (bm_buffer bm + bm_size bm)) \<longrightarrow> pmem t q = pmem s q)
    else bitmap_set bm i (of_bool v) s = (False, s)"
proof -
  have small: "unat (bm_size bm) < 2 ^ 60" using assms by (simp add: bmp_ok_def)
  show ?thesis
  proof (cases "unat i \<le> 8 * unat (bm_size bm)")
    case True
    let ?t = "snd (bitmap_set bm i (of_bool v) s)"
    have fr: "\<forall>q. q \<notin> bmp_region bm s \<and> (unat i = 8 * unat (bm_size bm) \<longrightarrow>
        q \<noteq> v2p (hhdm_off s) (bm_buffer bm + bm_size bm)) \<longrightarrow> pmem ?t q = pmem s q"
      using bitmap_set_frame [OF small] by blast
    have "bitmap_set bm i (of_bool v) s = (True, ?t)"
      using bitmap_set_fst [OF small, of i "of_bool v" s] True by (simp add: prod_eq_iff)
    then show ?thesis
      using True bitmap_set_bit [OF assms True, of _ v] fr
      unfolding bitmap_get_bit by (intro if_P [THEN iffD2] exI [of _ ?t]) simp_all
  qed (use bitmap_set_fail [OF small, of i "of_bool v" s] in \<open>simp add: not_le\<close>)
qed

theorem bitmap_set_get_witness:
  "\<exists>t. bitmap_set \<lparr>bm_size = 2, bm_buffer = 0x100\<rparr> 9 (of_bool True) \<lparr>pmem = \<lambda>_. 0, hhdm_off = 0x8000\<rparr> = (True, t) \<and>
     bitmap_get \<lparr>bm_size = 2, bm_buffer = 0x100\<rparr> 9 t \<noteq> 0"
proof -
  let ?bm = "\<lparr>bm_size = 2, bm_buffer = 0x100\<rparr>" and ?s = "\<lparr>pmem = \<lambda>_. 0, hhdm_off = 0x8000\<rparr> :: machine"
  have "span (hhdm_off ?s) 0x100 3 0x100" by (rule span_low) simp
  then have "bmp_ok ?bm ?s" by (auto simp: bmp_ok_def)
  from bitmap_set_get [OF this, of 9 True] show ?thesis by auto
qed

end
