(* ===== verification/Interfaces.thy ===== *)
theory Interfaces
  imports Memory
begin

text \<open>
  Page frames, and the contracts between the components: what a client of the page allocator
  may rely on. Each locale is interpreted on the model's own operations in the theory of the
  component that provides them.
\<close>

section \<open>Page frames\<close>

definition frame :: "ptr \<Rightarrow> nat" where "frame a = unat a div 4096"

text \<open>The frames of \<open>num\<close> pages from address \<open>a\<close> on.\<close>

definition frames :: "ptr \<Rightarrow> usize \<Rightarrow> nat set" where
  "frames a num = {frame a ..< frame a + unat num}"

lemma frame_less: "frame a < 2 ^ 52"
  using unat_u64_less [of a] unfolding frame_def by (simp add: less_mult_imp_div_less)

lemma of_nat_frame [simp]: "of_nat (frame a) = (a div 4096 :: u64)"
proof -
  have "frame a = unat (a div 4096)" by (simp add: frame_def unat_div_u64)
  then show ?thesis by (simp only: of_nat_unat ucast_id)
qed

lemma frame_offset:
  assumes "frame a + i < 2 ^ 52"
  shows "frame (a + of_nat i * 4096) = frame a + i"
proof -
  have "i < 4503599627370496" using assms by simp
  then have u: "unat (of_nat i * 4096 :: u64) = 4096 * i"
    by (simp add: unat_word_ariths unat_of_nat_u64)
  have "unat a < 4096 * Suc (frame a)"
    unfolding frame_def using dividend_less_times_div [of 4096 "unat a"] by simp
  then have "unat a + 4096 * i < 18446744073709551616" using assms by simp
  then have "unat (a + of_nat i * 4096) = unat a + 4096 * i"
    using u by (simp add: unat_add_no_wrap)
  then show ?thesis by (simp add: frame_def)
qed

lemma frame_eq_iff: "frame a = n \<longleftrightarrow> 4096 * n \<le> unat a \<and> unat a < 4096 * n + 4096"
proof -
  have "x div 4096 = n \<longleftrightarrow> 4096 * n \<le> x \<and> x < 4096 * n + 4096" for x :: nat
    using times_div_less_eq_dividend [of 4096 x] dividend_less_times_div [of 4096 x]
    by (auto intro!: div_nat_eqI)
  then show ?thesis by (simp add: frame_def)
qed

lemma frames_1 [simp]: "frames a 1 = {frame a}"
  by (auto simp: frames_def)

section \<open>The page allocator\<close>

text \<open>
  \<open>ok\<close> is the allocator's invariant, \<open>used_set\<close> the frames it has marked, \<open>avail\<close> that a
  request can be met. The contract for one page at a time is the usual one. For longer
  requests the code promises less: only the first frame of the range is known to be free.
\<close>

locale page_allocator =
  fixes ok :: "'s \<Rightarrow> bool"
    and used_set :: "'s \<Rightarrow> nat set"
    and avail :: "'s \<Rightarrow> bool"
    and request :: "usize \<Rightarrow> 's \<Rightarrow> (ptr, 's) result"
    and release :: "ptr \<Rightarrow> usize \<Rightarrow> 's \<Rightarrow> bool \<times> 's"
  assumes request_ok: "ok s \<Longrightarrow> unat n < 4096 \<Longrightarrow> request n s = Inr (p, s') \<Longrightarrow> ok s'"
    and request_aligned: "ok s \<Longrightarrow> unat n < 4096 \<Longrightarrow> request n s = Inr (p, s') \<Longrightarrow> p = of_nat (frame p) * 4096"
    and request_first: "ok s \<Longrightarrow> unat n < 4096 \<Longrightarrow> request n s = Inr (p, s') \<Longrightarrow> frame p \<notin> used_set s"
    and request_used: "ok s \<Longrightarrow> unat n < 4096 \<Longrightarrow> request n s = Inr (p, s') \<Longrightarrow>
        used_set s' = used_set s \<union> frames p n"
    and request_avail: "ok s \<Longrightarrow> unat n < 4096 \<Longrightarrow>
        (\<exists>p s'. request n s = Inr (p, s')) = avail s"
    and release_used: "ok s \<Longrightarrow> frames p n \<subseteq> used_set s \<Longrightarrow> n \<noteq> 0 \<Longrightarrow>
        used_set (snd (release p n s)) = used_set s - frames p n"
    and release_ok: "ok s \<Longrightarrow> ok (snd (release p n s))"
begin

text \<open>A page handed out stays used until it is released, so two requests never share a page.\<close>

lemma request_distinct:
  assumes "ok s" "unat n < 4096" "unat m < 4096"
    and "request n s = Inr (p, s1)" "request m s1 = Inr (q, s2)" "n \<noteq> 0"
  shows "frame p \<noteq> frame q" "frame q \<notin> frames p n"
proof -
  have "frame q \<notin> used_set s1"
    using request_first request_ok assms by blast
  moreover have "frames p n \<subseteq> used_set s1" using request_used assms by blast
  ultimately show q: "frame q \<notin> frames p n" by blast
  have "frame p \<in> frames p n" using assms(6) by (simp add: frames_def unat_gt_0)
  with q show "frame p \<noteq> frame q" by auto
qed

text \<open>Single pages: requesting and releasing a page gives the used set back.\<close>

lemma request_release_page:
  assumes "ok s" "request 1 s = Inr (p, s')"
  shows "used_set (snd (release p 1 s')) = used_set s"
proof -
  have "used_set s' = insert (frame p) (used_set s)" "frame p \<notin> used_set s" "ok s'"
    using request_used [OF assms(1) _ assms(2)] request_first [OF assms(1) _ assms(2)]
      request_ok [OF assms(1) _ assms(2)] by auto
  then show ?thesis using release_used [of s' p 1] by simp
qed

end

section \<open>Blocks of the heap\<close>

text \<open>
  What a client of the kernel heap relies on for blocks that fit, with their 8-byte header,
  in one page: \<open>own s v n\<close> says that \<open>v\<close> points to such a block of \<open>n\<close> bytes, \<open>page\<close> is the
  frame it lies in, \<open>bytes\<close> reads it, \<open>resize\<close> is \<open>realloc\<close> and \<open>poke\<close> a store into it.
\<close>

locale page_blocks =
  fixes ok :: "'s \<Rightarrow> bool"
    and own :: "'s \<Rightarrow> ptr \<Rightarrow> nat \<Rightarrow> bool"
    and page :: "'s \<Rightarrow> ptr \<Rightarrow> nat"
    and bytes :: "'s \<Rightarrow> ptr \<Rightarrow> nat \<Rightarrow> u8 list"
    and resize :: "ptr \<Rightarrow> usize \<Rightarrow> 's \<Rightarrow> (ptr, 's) result"
    and poke :: "ptr \<Rightarrow> u8 list \<Rightarrow> 's \<Rightarrow> 's"
  assumes resize_own: "ok s \<Longrightarrow> v = NULL \<or> own s v n \<Longrightarrow> m \<le> 4088 \<Longrightarrow>
        resize v (of_nat m) s = Inr (w, t) \<Longrightarrow> ok t \<and> own t w m"
    and resize_bytes: "ok s \<Longrightarrow> own s v n \<Longrightarrow> m \<le> 4088 \<Longrightarrow> resize v (of_nat m) s = Inr (w, t) \<Longrightarrow>
        j \<le> n \<Longrightarrow> j \<le> m \<Longrightarrow> bytes t w j = bytes s v j"
    and resize_other: "ok s \<Longrightarrow> v = NULL \<or> own s v n \<and> page s u \<noteq> page s v \<Longrightarrow> m \<le> 4088 \<Longrightarrow>
        resize v (of_nat m) s = Inr (w, t) \<Longrightarrow> own s u k \<Longrightarrow>
        own t u k \<and> page t u = page s u \<and> page t w \<noteq> page s u \<and> bytes t u k = bytes s u k"
    and poke_own: "ok s \<Longrightarrow> own s v n \<Longrightarrow> i + length bs \<le> n \<Longrightarrow>
        ok (poke (v + of_nat i) bs s) \<and> own (poke (v + of_nat i) bs s) v n"
    and poke_bytes: "ok s \<Longrightarrow> own s v n \<Longrightarrow> i + length bs \<le> n \<Longrightarrow>
        bytes (poke (v + of_nat i) bs s) v n = take i (bytes s v n) @ bs @ drop (i + length bs) (bytes s v n)"
    and poke_other: "ok s \<Longrightarrow> own s v n \<Longrightarrow> i + length bs \<le> n \<Longrightarrow> own s u k \<Longrightarrow>
        page s u \<noteq> page s v \<Longrightarrow>
        own (poke (v + of_nat i) bs s) u k \<and> bytes (poke (v + of_nat i) bs s) u k = bytes s u k"
    and poke_page: "page (poke a bs s) u = page s u"
    and length_bytes: "length (bytes s v n) = n"
    and take_bytes: "j \<le> n \<Longrightarrow> take j (bytes s v n) = bytes s v j"
begin

text \<open>
  \<open>separate s X\<close>: the set \<open>X\<close> of pointers with sizes consists of owned blocks in different pages.
\<close>

definition separate :: "'s \<Rightarrow> 'i set \<Rightarrow> ('i \<Rightarrow> ptr) \<Rightarrow> ('i \<Rightarrow> nat) \<Rightarrow> bool" where
  "separate s I v n \<longleftrightarrow> (\<forall>i\<in>I. own s (v i) (n i)) \<and> (\<forall>i\<in>I. \<forall>j\<in>I. i \<noteq> j \<longrightarrow> page s (v i) \<noteq> page s (v j))"

lemma separate_poke:
  assumes "ok s" "separate s I v n" "i \<in> I" "k + length bs \<le> n i"
  shows "separate (poke (v i + of_nat k) bs s) I v n"
    and "j \<in> I \<Longrightarrow> j \<noteq> i \<Longrightarrow> bytes (poke (v i + of_nat k) bs s) (v j) (n j) = bytes s (v j) (n j)"
proof -
  have o: "own s (v i) (n i)" using assms(2,3) by (simp add: separate_def)
  have "own (poke (v i + of_nat k) bs s) (v j) (n j)" if "j \<in> I" for j
    using that assms o poke_own [OF assms(1) o assms(4)] poke_other [OF assms(1) o assms(4), of "v j" "n j"]
    by (cases "j = i") (auto simp: separate_def)
  then show "separate (poke (v i + of_nat k) bs s) I v n"
    using assms(2) by (auto simp: separate_def poke_page)
  show "bytes (poke (v i + of_nat k) bs s) (v j) (n j) = bytes s (v j) (n j)" if "j \<in> I" "j \<noteq> i"
    using that assms o poke_other [OF assms(1) o assms(4), of "v j" "n j"] by (simp add: separate_def)
qed

text \<open>Resizing one block, or adding a fresh one at index \<open>i\<close>, keeps the others.\<close>

lemma separate_resize:
  assumes "ok s" "separate s (I - {i}) v n" "p = NULL \<or> own s p k \<and> (\<forall>j \<in> I - {i}. page s (v j) \<noteq> page s p)"
    and "m \<le> 4088" "resize p (of_nat m) s = Inr (w, t)"
  shows "separate t (insert i I) (v(i := w)) (n(i := m))"
    and "j \<in> I - {i} \<Longrightarrow> bytes t (v j) (n j) = bytes s (v j) (n j)"
proof -
  have r: "ok t \<and> own t w m" using resize_own [OF assms(1) _ assms(4,5)] assms(3) by blast
  have other: "own t (v j) (n j) \<and> page t (v j) = page s (v j) \<and> page t w \<noteq> page s (v j) \<and>
      bytes t (v j) (n j) = bytes s (v j) (n j)" if "j \<in> I - {i}" for j
    using resize_other [OF assms(1) _ assms(4,5), of k "v j" "n j"] assms(2,3) that
    by (auto simp: separate_def)
  then show "bytes t (v j) (n j) = bytes s (v j) (n j)" if "j \<in> I - {i}" using that by blast
  show "separate t (insert i I) (v(i := w)) (n(i := m))"
    unfolding separate_def
  proof (intro conjI ballI impI)
    fix j assume "j \<in> insert i I"
    then show "own t ((v(i := w)) j) ((n(i := m)) j)" using r other [of j] by auto
    fix j' assume "j' \<in> insert i I" "j \<noteq> j'"
    with \<open>j \<in> insert i I\<close> show "page t ((v(i := w)) j) \<noteq> page t ((v(i := w)) j')"
      using other [of j] other [of j'] assms(2) unfolding separate_def by auto
  qed
qed

end


section \<open>Readable files\<close>

text \<open>
  What a reader of a file relies on: \<open>has s bs\<close> says that the file has the bytes \<open>bs\<close>, \<open>room s b n\<close>
  that the \<open>n\<close> bytes at \<open>b\<close> may be written, \<open>bytes\<close> reads memory, and \<open>fetch off b n\<close> reads \<open>n\<close>
  bytes of the file from offset \<open>off\<close> into the buffer \<open>b\<close>.
\<close>

primrec chunks ::
    "(u32 \<Rightarrow> ptr \<Rightarrow> u32 \<Rightarrow> 's \<Rightarrow> 's option) \<Rightarrow> nat \<Rightarrow> ptr \<Rightarrow> nat list \<Rightarrow> 's \<Rightarrow> 's option" where
  "chunks fetch off b [] s = Some s"
| "chunks fetch off b (n # ns) s =
     Option.bind (fetch (of_nat off) b (of_nat n) s) (chunks fetch (off + n) (b + of_nat n) ns)"

locale file_source =
  fixes has :: "'s \<Rightarrow> u8 list \<Rightarrow> bool"
    and room :: "'s \<Rightarrow> ptr \<Rightarrow> nat \<Rightarrow> bool"
    and bytes :: "'s \<Rightarrow> ptr \<Rightarrow> nat \<Rightarrow> u8 list"
    and fetch :: "u32 \<Rightarrow> ptr \<Rightarrow> u32 \<Rightarrow> 's \<Rightarrow> 's option"
  assumes fetch_bytes: "has s bs \<Longrightarrow> room s b n \<Longrightarrow> off + n \<le> length bs \<Longrightarrow>
        \<exists>t. fetch (of_nat off) b (of_nat n) s = Some t \<and> bytes t b n = take n (drop off bs)"
    and fetch_keeps: "has s bs \<Longrightarrow> room s b n \<Longrightarrow> off + n \<le> length bs \<Longrightarrow>
        fetch (of_nat off) b (of_nat n) s = Some t \<Longrightarrow> has t bs \<and> (\<forall>c m. room s c m \<longrightarrow> room t c m)"
    and fetch_before: "has s bs \<Longrightarrow> room s b (k + n) \<Longrightarrow> off + n \<le> length bs \<Longrightarrow>
        fetch (of_nat off) (b + of_nat k) (of_nat n) s = Some t \<Longrightarrow> bytes t b k = bytes s b k"
    and room_part: "room s b (k + n) \<Longrightarrow> room s b k \<and> room s (b + of_nat k) n"
    and bytes_append: "bytes s b (k + n) = bytes s b k @ bytes s (b + of_nat k) n"
begin

text \<open>A file read in chunks, one after the other into consecutive memory, is the file.\<close>

lemma chunks_before:
  assumes "has s bs" "room s b (k + sum_list ns)" "off + sum_list ns \<le> length bs"
  shows "\<exists>t. chunks fetch off (b + of_nat k) ns s = Some t \<and> has t bs \<and>
    bytes t b (k + sum_list ns) = bytes s b k @ take (sum_list ns) (drop off bs)"
  using assms
proof (induction ns arbitrary: s k off)
  case (Cons n ns)
  have rk: "room s b (k + n)"
    using Cons.prems(2) room_part [of s b "k + n" "sum_list ns"] by (simp add: add.assoc)
  then have rn: "room s (b + of_nat k) n" using room_part by blast
  have on: "off + n \<le> length bs" using Cons.prems(3) by simp
  obtain s1 where f: "fetch (of_nat off) (b + of_nat k) (of_nat n) s = Some s1"
    "bytes s1 (b + of_nat k) n = take n (drop off bs)"
    using fetch_bytes [OF Cons.prems(1) rn on] by blast
  note keep = fetch_keeps [OF Cons.prems(1) rn on f(1)]
  have "bytes s1 b (k + n) = bytes s b k @ take n (drop off bs)"
    using fetch_before [OF Cons.prems(1) rk on f(1)] f(2) by (simp add: bytes_append)
  moreover have "\<exists>t. chunks fetch (off + n) (b + of_nat (k + n)) ns s1 = Some t \<and> has t bs \<and>
      bytes t b (k + n + sum_list ns) = bytes s1 b (k + n) @ take (sum_list ns) (drop (off + n) bs)"
    using Cons.prems keep by (intro Cons.IH) (simp_all add: add.assoc)
  ultimately show ?case
    using f(1) by (auto simp: ac_simps take_add)
qed simp

lemma chunks_read:
  assumes "has s bs" "room s b (sum_list ns)" "off + sum_list ns \<le> length bs"
  shows "\<exists>t. chunks fetch off b ns s = Some t \<and> has t bs \<and>
    bytes t b (sum_list ns) = take (sum_list ns) (drop off bs)"
  using chunks_before [of s bs b 0 ns off] assms bytes_append [of s b 0 0] by simp

end

text \<open>A file that can be written as well: \<open>put\<close> replaces bytes in its middle and touches nothing in \<open>room\<close>.\<close>

definition splice :: "nat \<Rightarrow> 'a list \<Rightarrow> 'a list \<Rightarrow> 'a list" where
  "splice off ds bs = take off bs @ ds @ drop (off + length ds) bs"

lemma length_splice [simp]: "off + length ds \<le> length bs \<Longrightarrow> length (splice off ds bs) = length bs"
  by (simp add: splice_def)

lemma splice_Nil [simp]: "splice off [] bs = bs"
  by (simp add: splice_def)

lemma splice_append:
  "off + length ds + length es \<le> length bs \<Longrightarrow> splice (off + length ds) es (splice off ds bs) = splice off (ds @ es) bs"
  by (simp add: splice_def ac_simps)

lemma take_drop_splice: "off + length ds \<le> length bs \<Longrightarrow> take (length ds) (drop off (splice off ds bs)) = ds"
  by (simp add: splice_def)

locale file_store = file_source has room bytes fetch
  for has :: "'s \<Rightarrow> u8 list \<Rightarrow> bool"
    and room :: "'s \<Rightarrow> ptr \<Rightarrow> nat \<Rightarrow> bool"
    and bytes :: "'s \<Rightarrow> ptr \<Rightarrow> nat \<Rightarrow> u8 list"
    and fetch :: "u32 \<Rightarrow> ptr \<Rightarrow> u32 \<Rightarrow> 's \<Rightarrow> 's option" +
  fixes put :: "u32 \<Rightarrow> ptr \<Rightarrow> u32 \<Rightarrow> 's \<Rightarrow> 's option"
  assumes put_bytes: "has s bs \<Longrightarrow> room s b n \<Longrightarrow> off + n \<le> length bs \<Longrightarrow>
        \<exists>t. put (of_nat off) b (of_nat n) s = Some t \<and> has t (splice off (bytes s b n) bs)"
    and put_keeps: "has s bs \<Longrightarrow> room s b n \<Longrightarrow> off + n \<le> length bs \<Longrightarrow>
        put (of_nat off) b (of_nat n) s = Some t \<Longrightarrow> room s c m \<Longrightarrow> room t c m \<and> bytes t c m = bytes s c m"
    and length_bytes: "length (bytes s b n) = n"
begin

text \<open>Written in chunks, the file is the same as written at once.\<close>

lemma chunks_put:
  assumes "has s bs" "room s b (sum_list ns)" "off + sum_list ns \<le> length bs"
  shows "\<exists>t. chunks put off b ns s = Some t \<and> has t (splice off (bytes s b (sum_list ns)) bs) \<and>
    (\<forall>c m. room s c m \<longrightarrow> room t c m \<and> bytes t c m = bytes s c m)"
  using assms
proof (induction ns arbitrary: s bs b off)
  case Nil
  have "bytes s b 0 = []" using length_bytes [of s b 0] by simp
  then show ?case using Nil by simp
next
  case (Cons n ns)
  have r: "room s b n" "room s (b + of_nat n) (sum_list ns)" using Cons.prems(2) room_part by auto
  have on: "off + n \<le> length bs" using Cons.prems(3) by simp
  obtain s1 where p: "put (of_nat off) b (of_nat n) s = Some s1" "has s1 (splice off (bytes s b n) bs)"
    using put_bytes [OF Cons.prems(1) r(1) on] by blast
  have k: "room s1 c m \<and> bytes s1 c m = bytes s c m" if "room s c m" for c m
    by (rule put_keeps [OF Cons.prems(1) r(1) on p(1) that])
  have len: "length (splice off (bytes s b n) bs) = length bs" using on by (simp add: length_bytes)
  obtain t where t: "chunks put (off + n) (b + of_nat n) ns s1 = Some t"
    "has t (splice (off + n) (bytes s1 (b + of_nat n) (sum_list ns)) (splice off (bytes s b n) bs))"
    "\<And>c m. room s1 c m \<Longrightarrow> room t c m \<and> bytes t c m = bytes s1 c m"
    using Cons.IH [OF p(2), of "b + of_nat n" "off + n"] k [OF r(2)] Cons.prems(3) len by auto
  have "splice (off + n) (bytes s (b + of_nat n) (sum_list ns)) (splice off (bytes s b n) bs) =
      splice off (bytes s b (n + sum_list ns)) bs"
    using splice_append [of off "bytes s b n" "bytes s (b + of_nat n) (sum_list ns)" bs] Cons.prems(3)
    by (simp add: bytes_append length_bytes)
  then show ?case using p(1) t k r(2) by (auto simp: Option.bind_eq_Some_conv)
qed

lemma put_then_read:
  assumes "has s bs" "room s b (sum_list ns)" "off + sum_list ns \<le> length bs"
    and "room s c (sum_list ms)" "pos + sum_list ms \<le> length bs"
  shows "\<exists>t u. chunks put off b ns s = Some t \<and> has t (splice off (bytes s b (sum_list ns)) bs) \<and>
    chunks fetch pos c ms t = Some u \<and>
    bytes u c (sum_list ms) = take (sum_list ms) (drop pos (splice off (bytes s b (sum_list ns)) bs))"
proof -
  obtain t where t: "chunks put off b ns s = Some t" "has t (splice off (bytes s b (sum_list ns)) bs)"
    "room t c (sum_list ms)"
    using chunks_put [OF assms(1-3)] assms(4) by blast
  have "pos + sum_list ms \<le> length (splice off (bytes s b (sum_list ns)) bs)"
    using assms(3,5) by (simp add: length_bytes)
  from chunks_read [OF t(2,3) this] show ?thesis using t by blast
qed

end

end
