(* ===== verification/PMM.thy ===== *)
theory PMM
  imports Bitmap Interfaces
begin

text \<open>
  The physical memory manager, \<open>core/mm/pmm.c\<close>: one bit per page frame in a bitmap kept in
  physical memory, byte counts of free and used memory, the scan for a free range, and
  \<open>pmm_init\<close>, which builds the bitmap from the boot loader's memory map. The abstraction is
  the set of used frame numbers.
\<close>

section \<open>The code\<close>

record pmm = machine +
  total_mem :: usize
  free_mem :: usize
  used_mem :: usize
  highest_block :: usize
  page_bmp :: Bitmap

definition lock_page :: "ptr \<Rightarrow> 'z pmm_scheme \<Rightarrow> bool \<times> 'z pmm_scheme" where
  "lock_page addr s =
     (let index = addr div PAGE_SIZE in
      if bitmap_get (page_bmp s) index s \<noteq> 0 then (True, s)
      else
        let (ok, s') = bitmap_set (page_bmp s) index 1 s in
        if ok then (True, s'\<lparr>free_mem := free_mem s' - PAGE_SIZE, used_mem := used_mem s' + PAGE_SIZE\<rparr>)
        else (False, s'))"

definition free_page :: "ptr \<Rightarrow> 'z pmm_scheme \<Rightarrow> bool \<times> 'z pmm_scheme" where
  "free_page addr s =
     (let index = addr div PAGE_SIZE in
      if bitmap_get (page_bmp s) index s = 0 then (True, s)
      else
        let (ok, s') = bitmap_set (page_bmp s) index 0 s in
        if ok then (True, s'\<lparr>free_mem := free_mem s' + PAGE_SIZE, used_mem := used_mem s' - PAGE_SIZE\<rparr>)
        else (False, s'))"

definition reserve_page :: "ptr \<Rightarrow> 'z pmm_scheme \<Rightarrow> bool \<times> 'z pmm_scheme" where
  "reserve_page addr s =
     (let index = addr div PAGE_SIZE in
      if bitmap_get (page_bmp s) index s \<noteq> 0 then (True, s)
      else
        let (ok, s') = bitmap_set (page_bmp s) index 1 s in
        if ok then (True, s') else (False, s'))"

definition unreserve_page :: "ptr \<Rightarrow> 'z pmm_scheme \<Rightarrow> bool \<times> 'z pmm_scheme" where
  "unreserve_page addr s =
     (let index = addr div PAGE_SIZE in
      if bitmap_get (page_bmp s) index s = 0 then (True, s)
      else
        let (ok, s') = bitmap_set (page_bmp s) index 0 s in
        if ok then (True, s') else (False, s'))"

text \<open>The loop that the four range operations share: stop at the first page that fails.\<close>

primrec pages_loop ::
    "(ptr \<Rightarrow> 's \<Rightarrow> bool \<times> 's) \<Rightarrow> ptr \<Rightarrow> nat \<Rightarrow> usize \<Rightarrow> 's \<Rightarrow> bool \<times> 's" where
  "pages_loop op addr 0 i s = (True, s)"
| "pages_loop op addr (Suc n) i s =
     (let (ok, s') = op (addr + i * PAGE_SIZE) s in
      if \<not> ok then (False, s') else pages_loop op addr n (i + 1) s')"

definition lock_pages :: "ptr \<Rightarrow> usize \<Rightarrow> 'z pmm_scheme \<Rightarrow> bool \<times> 'z pmm_scheme" where
  "lock_pages addr num = pages_loop lock_page addr (unat num) 0"

definition free_pages :: "ptr \<Rightarrow> usize \<Rightarrow> 'z pmm_scheme \<Rightarrow> bool \<times> 'z pmm_scheme" where
  "free_pages addr num = pages_loop free_page addr (unat num) 0"

definition reserve_pages :: "ptr \<Rightarrow> usize \<Rightarrow> 'z pmm_scheme \<Rightarrow> bool \<times> 'z pmm_scheme" where
  "reserve_pages addr num = pages_loop reserve_page addr (unat num) 0"

definition unreserve_pages :: "ptr \<Rightarrow> usize \<Rightarrow> 'z pmm_scheme \<Rightarrow> bool \<times> 'z pmm_scheme" where
  "unreserve_pages addr num = pages_loop unreserve_page addr (unat num) 0"

definition get_free_RAM :: "'z pmm_scheme \<Rightarrow> usize" where "get_free_RAM s = free_mem s"
definition get_used_RAM :: "'z pmm_scheme \<Rightarrow> usize" where "get_used_RAM s = used_mem s"
definition get_total_RAM :: "'z pmm_scheme \<Rightarrow> usize" where "get_total_RAM s = total_mem s"

text \<open>\<open>core/mm/pmm.h\<close>\<close>

definition BIT_TO_PAGE :: "usize \<Rightarrow> u64" where "BIT_TO_PAGE b = b * PAGE_SIZE"
definition PAGE_TO_BIT :: "usize \<Rightarrow> u64" where "PAGE_TO_BIT page = page div PAGE_SIZE"
definition DIV_ROUND_UP :: "u64 \<Rightarrow> u64 \<Rightarrow> u64" where "DIV_ROUND_UP x y = (x + (y - 1)) div y"
definition ALIGN_UP :: "u64 \<Rightarrow> u64 \<Rightarrow> u64" where "ALIGN_UP x y = DIV_ROUND_UP x y * y"

text \<open>
  \<open>find_free_range\<close>: the inner loop runs over \<open>page\<close> from 0 to \<open>npages\<close>, the outer one over
  \<open>addr\<close> from 0 to \<open>page_bmp.size\<close>, both bounds included; the \<open>nat\<close> argument is the number of
  rounds left.
\<close>

primrec range_scan :: "'z pmm_scheme \<Rightarrow> usize \<Rightarrow> usize \<Rightarrow> nat \<Rightarrow> usize \<Rightarrow> bool" where
  "range_scan s addr npages 0 page = False"
| "range_scan s addr npages (Suc k) page =
     (if bitmap_get (page_bmp s) (addr + PAGE_TO_BIT page) s \<noteq> 0 then False
      else if page = npages then True
      else range_scan s addr npages k (page + 1))"

primrec find_scan :: "'z pmm_scheme \<Rightarrow> usize \<Rightarrow> nat \<Rightarrow> usize \<Rightarrow> ptr option" where
  "find_scan s npages 0 addr = None"
| "find_scan s npages (Suc k) addr =
     (if range_scan s addr npages (Suc (unat npages)) 0 then Some (BIT_TO_PAGE addr)
      else find_scan s npages k (addr + 1))"

definition find_free_range :: "usize \<Rightarrow> 'z pmm_scheme \<Rightarrow> (ptr, 'z pmm_scheme) result" where
  "find_free_range npages s =
     (case find_scan s npages (Suc (unat (bm_size (page_bmp s)))) 0 of
        Some a \<Rightarrow> Inr (a, s)
      | None \<Rightarrow> Inl (Psod HN_ERR_OUT_OF_MEM))"

definition request_pages :: "usize \<Rightarrow> 'z pmm_scheme \<Rightarrow> (ptr, 'z pmm_scheme) result" where
  "request_pages num s =
     then_do (find_free_range num s) (\<lambda>PP s1.
       let (ok, s2) = lock_pages PP num s1 in
       if \<not> ok then Inr (NULL, s2) else Inr (PP, s2))"

subsection \<open>The boot memory map\<close>

text \<open>
  \<open>core/mm/mem.c\<close>: the boot loader's response, a list of entries. The type numbers are those
  of the table \<open>memmap_type_names\<close>.
\<close>

record memmap_entry =
  e_base :: u64
  e_length :: u64
  e_type :: u64

abbreviation (input) LIMINE_MEMMAP_USABLE :: u64 where "LIMINE_MEMMAP_USABLE \<equiv> 0"
abbreviation (input) LIMINE_MEMMAP_ACPI_RECLAIMABLE :: u64 where "LIMINE_MEMMAP_ACPI_RECLAIMABLE \<equiv> 2"
abbreviation (input) LIMINE_MEMMAP_BOOTLOADER_RECLAIMABLE :: u64 where
  "LIMINE_MEMMAP_BOOTLOADER_RECLAIMABLE \<equiv> 5"

definition get_memmap_entry_of_type :: "memmap_entry list \<Rightarrow> u32 \<Rightarrow> memmap_entry option" where
  "get_memmap_entry_of_type entries ty = find (\<lambda>e. e_type e = ucast ty) entries"

definition is_free_type :: "memmap_entry \<Rightarrow> bool" where
  "is_free_type e \<longleftrightarrow> e_type e = LIMINE_MEMMAP_USABLE \<or>
     e_type e = LIMINE_MEMMAP_BOOTLOADER_RECLAIMABLE \<or> e_type e = LIMINE_MEMMAP_ACPI_RECLAIMABLE"

text \<open>First pass of \<open>pmm_init\<close>: bitmap size, free memory, largest free segment.\<close>

record init_scan =
  page_bmp_size :: usize
  largest_free_memseg :: ptr
  largest_free_memseg_size :: usize
  scan_free_mem :: usize

definition init_scan_step :: "init_scan \<Rightarrow> memmap_entry \<Rightarrow> init_scan" where
  "init_scan_step a e =
     (let a = a\<lparr>page_bmp_size := page_bmp_size a + (e_length e div (PAGE_SIZE * 8) + 1)\<rparr> in
      if is_free_type e then
        let a = a\<lparr>scan_free_mem := scan_free_mem a + e_length e\<rparr> in
        if e_length e > largest_free_memseg_size a
        then a\<lparr>largest_free_memseg := e_base e, largest_free_memseg_size := e_length e\<rparr>
        else a
      else a)"

definition init_unreserve_step :: "'z pmm_scheme \<Rightarrow> memmap_entry \<Rightarrow> 'z pmm_scheme" where
  "init_unreserve_step s e =
     (if is_free_type e then snd (unreserve_pages (e_base e) (e_length e div PAGE_SIZE) s) else s)"

definition pmm_init :: "memmap_entry list \<Rightarrow> 'z pmm_scheme \<Rightarrow> (unit, 'z pmm_scheme) result" where
  "pmm_init entries s =
     (let a = foldl init_scan_step
                \<lparr>page_bmp_size = 0, largest_free_memseg = NULL, largest_free_memseg_size = 0,
                 scan_free_mem = free_mem s\<rparr> entries;
          s = s\<lparr>free_mem := scan_free_mem a, total_mem := scan_free_mem a\<rparr>
      in
      if page_bmp_size a > largest_free_memseg_size a then Inl (Psod HN_ERR_OUT_OF_MEM)
      else
        let bm = \<lparr>bm_size = ALIGN_UP (page_bmp_size a) PAGE_SIZE, bm_buffer = largest_free_memseg a\<rparr>;
            s = s\<lparr>page_bmp := bm\<rparr>;
            s = memset (bm_buffer bm) 0xff (bm_size bm) s;
            s = foldl init_unreserve_step s entries;
            s = snd (lock_pages (bm_buffer bm) (bm_size bm div PAGE_SIZE) s)
        in Inr ((), s))"

section \<open>Abstraction: the set of used frames\<close>

definition nframes :: "'z pmm_scheme \<Rightarrow> nat" where
  "nframes s = 8 * unat (bm_size (page_bmp s))"

definition used :: "'z pmm_scheme \<Rightarrow> nat \<Rightarrow> bool" where
  "used s n \<longleftrightarrow> bmp_bit (page_bmp s) s (of_nat n)"

definition used_frames :: "'z pmm_scheme \<Rightarrow> nat set" where
  "used_frames s = {n. n < nframes s \<and> used s n}"

text \<open>
  \<open>pmm_ok\<close>: the bitmap is a range of physical memory and numbers no more frames than the
  address space has.
\<close>

definition pmm_ok :: "'z pmm_scheme \<Rightarrow> bool" where
  "pmm_ok s \<longleftrightarrow> bmp_ok (page_bmp s) s \<and> nframes s \<le> 2 ^ 52"

text \<open>
  What an allocator operation may change: the bitmap's bytes and the two counters. With a frame
  just past the bitmap it also changes the byte after it, and \<open>pmm_same\<close> is all that holds.
\<close>

definition pmm_same :: "'z pmm_scheme \<Rightarrow> 'z pmm_scheme \<Rightarrow> bool" where
  "pmm_same s s' \<longleftrightarrow> page_bmp s' = page_bmp s \<and> hhdm_off s' = hhdm_off s \<and>
     total_mem s' = total_mem s \<and> highest_block s' = highest_block s \<and> pmm.more s' = pmm.more s"

definition pmm_frame :: "'z pmm_scheme \<Rightarrow> 'z pmm_scheme \<Rightarrow> bool" where
  "pmm_frame s s' \<longleftrightarrow> page_bmp s' = page_bmp s \<and> hhdm_off s' = hhdm_off s \<and>
     total_mem s' = total_mem s \<and> highest_block s' = highest_block s \<and> pmm.more s' = pmm.more s \<and>
     (\<forall>q. q \<notin> bmp_region (page_bmp s) s \<longrightarrow> pmem s' q = pmem s q)"

lemma pmm_same_trans: "pmm_same s t \<Longrightarrow> pmm_same t u \<Longrightarrow> pmm_same s u"
  by (simp add: pmm_same_def)

lemma pmm_same_ok: "pmm_same s s' \<Longrightarrow> pmm_ok s' = pmm_ok s"
  by (simp add: pmm_same_def pmm_ok_def bmp_ok_def nframes_def)

lemma same_counters: "pmm_same s (t\<lparr>free_mem := x, used_mem := y\<rparr>) = pmm_same s t"
  by (simp add: pmm_same_def)

lemma pmm_frame_refl [simp]: "pmm_frame s s"
  by (simp add: pmm_frame_def)

lemma bmp_region_cong: "hhdm_off s = hhdm_off t \<Longrightarrow> bmp_region bm s = bmp_region bm t"
  by (simp add: bmp_region_def)

lemma pmm_frame_trans: "pmm_frame s t \<Longrightarrow> pmm_frame t u \<Longrightarrow> pmm_frame s u"
  using bmp_region_cong [of t s] unfolding pmm_frame_def by auto

lemma pmm_frame_ok: "pmm_frame s s' \<Longrightarrow> pmm_ok s' = pmm_ok s"
  by (simp add: pmm_frame_def pmm_ok_def bmp_ok_def nframes_def)

lemma pmm_frame_nframes: "pmm_frame s s' \<Longrightarrow> nframes s' = nframes s"
  by (simp add: pmm_frame_def nframes_def)

lemma finite_used_frames [simp]: "finite (used_frames s)"
  by (simp add: used_frames_def)

lemma used_frame: "used s (frame a) = (bitmap_get (page_bmp s) (a div 4096) s \<noteq> 0)"
  by (simp add: used_def bitmap_get_bit)

lemma free_frame: "(bitmap_get (page_bmp s) (a div 4096) s = 0) = (\<not> used s (frame a))"
  by (simp add: used_frame)

section \<open>One page\<close>

text \<open>
  The bit update all four page operations make: outside the bitmap nothing moves, and frame
  \<open>frame a\<close> gets the value.
\<close>

lemma pmm_set_frame:
  fixes s :: "'z pmm_scheme"
  assumes "pmm_ok s"
  shows "pmm_same s (snd (bitmap_set (page_bmp s) i v s))"
    and "unat i < nframes s \<Longrightarrow> pmm_frame s (snd (bitmap_set (page_bmp s) i v s))"
proof -
  show "pmm_same s (snd (bitmap_set (page_bmp s) i v s))"
    unfolding pmm_same_def by (subst bitmap_set_pmem_only, simp)+
  assume i: "unat i < nframes s"
  have "unat (bm_size (page_bmp s)) < 2 ^ 60"
    using assms by (simp add: pmm_ok_def bmp_ok_def)
  moreover have "pmem (snd (bitmap_set (page_bmp s) i v s)) q = pmem s q"
    if "q \<notin> bmp_region (page_bmp s) s" for q
    using calculation that by (rule bitmap_set_frame) (use i in \<open>simp add: nframes_def\<close>)
  ultimately show "pmm_frame s (snd (bitmap_set (page_bmp s) i v s))"
    unfolding pmm_frame_def by (subst bitmap_set_pmem_only, simp)+
qed

lemma used_after_set:
  fixes s :: "'z pmm_scheme"
  assumes ok: "pmm_ok s" and a: "frame a < nframes s" and n: "n < nframes s"
  shows "used (snd (bitmap_set (page_bmp s) (a div 4096) (of_bool v) s)) n =
    (if n = frame a then v else used s n)"
proof -
  have fr: "page_bmp (snd (bitmap_set (page_bmp s) (a div 4096) (of_bool v) s)) = page_bmp s"
    using pmm_set_frame(1) [OF ok] by (simp add: pmm_same_def)
  have b: "nframes s \<le> 4503599627370496" using ok by (simp add: pmm_ok_def)
  have un: "unat (of_nat n :: u64) = n" using n b by (intro unat_of_nat_u64) simp
  have ua: "unat (a div 4096) = frame a" by (simp add: frame_def unat_div_u64)
  have eq: "(of_nat n = (a div 4096 :: u64)) = (n = frame a)"
    using un ua by (metis of_nat_frame)
  have "bmp_ok (page_bmp s) s" using ok by (simp add: pmm_ok_def)
  then show ?thesis
    unfolding used_def fr
    using bitmap_set_bit [of "page_bmp s" s "a div 4096" "of_nat n" v] a n un ua eq
    by (simp add: nframes_def)
qed

lemma used_counters [simp]:
  "used (s\<lparr>free_mem := x, used_mem := y\<rparr>) = used s"
  by (simp add: used_def bmp_bit_def load8_def fun_eq_iff)

lemma frame_counters: "pmm_frame s (t\<lparr>free_mem := x, used_mem := y\<rparr>) = pmm_frame s t"
  by (simp add: pmm_frame_def)

lemma bitmap_set_ok:
  fixes s :: "'z pmm_scheme"
  assumes "pmm_ok s" "frame a < nframes s"
  shows "fst (bitmap_set (page_bmp s) (a div 4096) v s)"
  using assms bitmap_set_fst [of "page_bmp s" "a div 4096" v s]
  by (simp add: pmm_ok_def bmp_ok_def nframes_def frame_def unat_div_u64)

text \<open>
  \<open>page_op b op\<close>: what \<open>lock_page\<close> and \<open>reserve_page\<close> (\<open>b = True\<close>) and their inverses do to
  the used frames.
\<close>

definition page_op :: "bool \<Rightarrow> (ptr \<Rightarrow> 'z pmm_scheme \<Rightarrow> bool \<times> 'z pmm_scheme) \<Rightarrow> bool" where
  "page_op b op \<longleftrightarrow> (\<forall>s a. pmm_ok s \<longrightarrow> pmm_same s (snd (op a s)) \<and>
     (frame a < nframes s \<longrightarrow> pmm_frame s (snd (op a s)) \<and> fst (op a s) \<and>
        (\<forall>n < nframes s. used (snd (op a s)) n = (if n = frame a then b else used s n))))"

lemma page_opD:
  assumes "page_op b op" "pmm_ok s"
  shows "frame a < nframes s \<Longrightarrow> pmm_frame s (snd (op a s))"
    and "frame a < nframes s \<Longrightarrow> fst (op a s)"
    and "frame a < nframes s \<Longrightarrow> n < nframes s \<Longrightarrow>
      used (snd (op a s)) n = (if n = frame a then b else used s n)"
    and "pmm_same s (snd (op a s))"
  using assms by (simp_all add: page_op_def)

lemma pmm_set_frame_addr:
  "pmm_ok s \<Longrightarrow> frame a < nframes s \<Longrightarrow> pmm_frame s (snd (bitmap_set (page_bmp s) (a div 4096) v s))"
  by (rule pmm_set_frame(2)) (simp_all add: frame_def unat_div_u64)

lemma pmm_same_refl [simp]: "pmm_same s s"
  by (simp add: pmm_same_def)

lemmas set_bit_facts = pmm_set_frame(1) same_counters pmm_set_frame_addr used_after_set [where v = True, simplified]
  used_after_set [where v = False, simplified] bitmap_set_ok

lemma lock_page_op: "page_op True lock_page"
  unfolding page_op_def lock_page_def
  by (auto simp: Let_def frame_counters set_bit_facts case_prod_beta free_frame simp flip: used_frame)

lemma free_page_op: "page_op False free_page"
  unfolding page_op_def free_page_def
  by (auto simp: Let_def frame_counters set_bit_facts case_prod_beta free_frame simp flip: used_frame)

lemma reserve_page_op: "page_op True reserve_page"
  unfolding page_op_def reserve_page_def
  by (auto simp: Let_def set_bit_facts case_prod_beta free_frame simp flip: used_frame)

lemma unreserve_page_op: "page_op False unreserve_page"
  unfolding page_op_def unreserve_page_def
  by (auto simp: Let_def set_bit_facts case_prod_beta free_frame simp flip: used_frame)

section \<open>The counters\<close>

text \<open>
  \<open>lock_page\<close> and \<open>free_page\<close> move one page between the counters exactly when the frame's bit
  changes, so \<open>used_mem\<close> follows the number of used frames and the sum of the two counters
  never changes.
\<close>

lemma used_frames_insert:
  "page_op True op \<Longrightarrow> pmm_ok s \<Longrightarrow> frame a < nframes s \<Longrightarrow>
   used_frames (snd (op a s)) = insert (frame a) (used_frames s)"
  using page_opD [of True op s a] pmm_frame_nframes [of s "snd (op a s)"]
  unfolding used_frames_def by auto

lemma used_frames_remove:
  "page_op False op \<Longrightarrow> pmm_ok s \<Longrightarrow> frame a < nframes s \<Longrightarrow>
   used_frames (snd (op a s)) = used_frames s - {frame a}"
  using page_opD [of False op s a] pmm_frame_nframes [of s "snd (op a s)"]
  unfolding used_frames_def by (auto split: if_splits)

lemma lock_page_counters:
  assumes "pmm_ok s" "frame a < nframes s"
  shows "used_mem (snd (lock_page a s)) = used_mem s + (if used s (frame a) then 0 else 4096)"
    and "free_mem (snd (lock_page a s)) = free_mem s - (if used s (frame a) then 0 else 4096)"
  using assms bitmap_set_ok [of s a 1]
  by (auto simp: lock_page_def Let_def case_prod_beta free_frame simp flip: used_frame)
     (subst bitmap_set_pmem_only, simp)+

lemma free_page_counters:
  assumes "pmm_ok s" "frame a < nframes s"
  shows "used_mem (snd (free_page a s)) = used_mem s - (if used s (frame a) then 4096 else 0)"
    and "free_mem (snd (free_page a s)) = free_mem s + (if used s (frame a) then 4096 else 0)"
  using assms bitmap_set_ok [of s a 0]
  by (auto simp: free_page_def Let_def case_prod_beta free_frame simp flip: used_frame)
     (subst bitmap_set_pmem_only, simp)+

definition used_bytes :: "'z pmm_scheme \<Rightarrow> u64" where
  "used_bytes s = of_nat (4096 * card (used_frames s))"

text \<open>
  The balance: used memory beyond the used frames (the frames reserved when the map was built),
  and the sum of both counters.
\<close>

definition balance :: "'z pmm_scheme \<Rightarrow> u64 \<times> u64" where
  "balance s = (used_mem s - used_bytes s, free_mem s + used_mem s)"

lemma lock_page_balance:
  assumes "pmm_ok s" "frame a < nframes s"
  shows "balance (snd (lock_page a s)) = balance s"
  using lock_page_counters [OF assms] used_frames_insert [OF lock_page_op assms]
    assms(2)
  by (auto simp: balance_def used_bytes_def used_frames_def card_insert_if algebra_simps)

lemma free_page_balance:
  assumes "pmm_ok s" "frame a < nframes s"
  shows "balance (snd (free_page a s)) = balance s"
proof (cases "used s (frame a)")
  case True
  then have "frame a \<in> used_frames s" using assms by (simp add: used_frames_def)
  then have "card (used_frames s) = Suc (card (used_frames s - {frame a}))"
    by (metis card.remove finite_used_frames)
  then show ?thesis
    using free_page_counters [OF assms] used_frames_remove [OF free_page_op assms] True
    by (simp add: balance_def used_bytes_def algebra_simps)
next
  case False
  then have "used_frames s - {frame a} = used_frames s" by (auto simp: used_frames_def)
  then show ?thesis
    using free_page_counters [OF assms] used_frames_remove [OF free_page_op assms] False
    by (simp add: balance_def used_bytes_def)
qed

section \<open>Ranges of pages\<close>

lemma pages_loop_op:
  assumes op: "page_op b op" and "pmm_ok s" "frame a + i + n \<le> nframes s"
  shows "fst (pages_loop op a n (of_nat i) s) \<and>
    pmm_frame s (snd (pages_loop op a n (of_nat i) s)) \<and>
    (\<forall>m < nframes s. used (snd (pages_loop op a n (of_nat i) s)) m =
        (if frame a + i \<le> m \<and> m < frame a + i + n then b else used s m))"
  using assms(2,3)
proof (induction n arbitrary: i s)
  case 0
  then show ?case by auto
next
  case (Suc n)
  let ?p = "a + of_nat i * 4096"
  let ?t = "snd (op ?p s)"
  have fr: "frame ?p = frame a + i"
    using Suc.prems by (intro frame_offset) (simp add: pmm_ok_def)
  note facts = page_opD [OF op Suc.prems(1), of ?p, unfolded fr]
  have t: "fst (op ?p s)" "pmm_frame s ?t" using facts Suc.prems(2) by auto
  have eq: "pages_loop op a (Suc n) (of_nat i) s = pages_loop op a n (of_nat (Suc i)) ?t"
    using t(1) by (simp add: Let_def case_prod_beta algebra_simps)
  have nf: "pmm_ok ?t" "nframes ?t = nframes s"
    using t(2) Suc.prems(1) pmm_frame_ok pmm_frame_nframes by auto
  then have ih: "fst (pages_loop op a n (of_nat (Suc i)) ?t)"
    "pmm_frame ?t (snd (pages_loop op a n (of_nat (Suc i)) ?t))"
    "\<And>m. m < nframes s \<Longrightarrow> used (snd (pages_loop op a n (of_nat (Suc i)) ?t)) m =
       (if frame a + Suc i \<le> m \<and> m < frame a + Suc i + n then b else used ?t m)"
    using Suc.IH [of ?t "Suc i"] Suc.prems(2) by auto
  have "used (snd (pages_loop op a n (of_nat (Suc i)) ?t)) m =
      (if frame a + i \<le> m \<and> m < frame a + i + Suc n then b else used s m)" if "m < nframes s" for m
    using ih(3) [OF that] facts(3) [of m] that Suc.prems(2) by auto
  then show ?case
    unfolding eq using ih(1) pmm_frame_trans [OF t(2) ih(2)] by simp
qed

lemma pages_loop_balance:
  assumes op: "page_op b op"
    and bal: "\<And>s a. pmm_ok s \<Longrightarrow> frame a < nframes s \<Longrightarrow> balance (snd (op a s)) = balance s"
    and "pmm_ok s" "frame a + i + n \<le> nframes s"
  shows "balance (snd (pages_loop op a n (of_nat i) s)) = balance s"
  using assms(3,4)
proof (induction n arbitrary: i s)
  case (Suc n)
  let ?p = "a + of_nat i * 4096"
  have fr: "frame ?p = frame a + i"
    using Suc.prems by (intro frame_offset) (simp add: pmm_ok_def)
  have s': "pmm_frame s (snd (op ?p s))" "fst (op ?p s)"
    using page_opD(1,2) [OF op Suc.prems(1), of ?p] fr Suc.prems by auto
  have "balance (snd (pages_loop op a n (of_nat (Suc i)) (snd (op ?p s)))) = balance (snd (op ?p s))"
    using Suc.prems pmm_frame_ok [OF s'(1)] pmm_frame_nframes [OF s'(1)] by (intro Suc.IH) auto
  moreover have "balance (snd (op ?p s)) = balance s"
    using bal [OF Suc.prems(1), of ?p] fr Suc.prems by simp
  ultimately show ?case using s'(2) by (simp add: Let_def case_prod_beta algebra_simps)
qed simp

definition in_bitmap :: "ptr \<Rightarrow> usize \<Rightarrow> 'z pmm_scheme \<Rightarrow> bool" where
  "in_bitmap a num s \<longleftrightarrow> frame a + unat num \<le> nframes s"

lemma range_op:
  assumes "page_op b op" "pmm_ok s" "in_bitmap a num s"
  shows "fst (pages_loop op a (unat num) 0 s)"
    and "pmm_frame s (snd (pages_loop op a (unat num) 0 s))"
    and "used_frames (snd (pages_loop op a (unat num) 0 s)) =
      (if b then used_frames s \<union> frames a num else used_frames s - frames a num)"
proof -
  have le: "frame a + 0 + unat num \<le> nframes s" using assms(3) by (simp add: in_bitmap_def)
  have l: "fst (pages_loop op a (unat num) 0 s)" "pmm_frame s (snd (pages_loop op a (unat num) 0 s))"
    "\<And>n. n < nframes s \<Longrightarrow> used (snd (pages_loop op a (unat num) 0 s)) n =
      (if frame a \<le> n \<and> n < frame a + unat num then b else used s n)"
    using pages_loop_op [OF assms(1,2) le] by auto
  show 1: "fst (pages_loop op a (unat num) 0 s)" "pmm_frame s (snd (pages_loop op a (unat num) 0 s))"
    by (rule l)+
  have "n \<in> used_frames (snd (pages_loop op a (unat num) 0 s)) \<longleftrightarrow>
      n \<in> (if b then used_frames s \<union> frames a num else used_frames s - frames a num)" for n
    using l(3) [of n] pmm_frame_nframes [OF 1(2)] assms(3)
    by (cases "n < nframes s") (auto simp: used_frames_def frames_def in_bitmap_def)
  then show "used_frames (snd (pages_loop op a (unat num) 0 s)) =
      (if b then used_frames s \<union> frames a num else used_frames s - frames a num)" by blast
qed

lemmas lock_pages_facts = range_op [OF lock_page_op, folded lock_pages_def, simplified]
lemmas free_pages_facts = range_op [OF free_page_op, folded free_pages_def, simplified]
lemmas unreserve_pages_facts = range_op [OF unreserve_page_op, folded unreserve_pages_def, simplified]
lemmas reserve_pages_facts = range_op [OF reserve_page_op, folded reserve_pages_def, simplified]

lemma lock_pages_balance:
  "pmm_ok s \<Longrightarrow> in_bitmap a num s \<Longrightarrow> balance (snd (lock_pages a num s)) = balance s"
  using pages_loop_balance [OF lock_page_op lock_page_balance, of s a 0 "unat num"]
  by (simp add: lock_pages_def in_bitmap_def)

lemma free_pages_balance:
  "pmm_ok s \<Longrightarrow> in_bitmap a num s \<Longrightarrow> balance (snd (free_pages a num s)) = balance s"
  using pages_loop_balance [OF free_page_op free_page_balance, of s a 0 "unat num"]
  by (simp add: free_pages_def in_bitmap_def)

text \<open>Whatever the addresses, the range operations keep the bitmap where it is.\<close>

lemma pages_loop_same:
  "page_op b op \<Longrightarrow> pmm_ok s \<Longrightarrow> pmm_same s (snd (pages_loop op a n i s))"
proof (induction n arbitrary: i s)
  case (Suc n)
  have f: "pmm_same s (snd (op (a + i * 4096) s))"
    using page_opD(4) [OF Suc.prems] by blast
  then have "pmm_ok (snd (op (a + i * 4096) s))" using Suc.prems pmm_same_ok by blast
  then show ?case
    using Suc.IH [OF Suc.prems(1)] f pmm_same_trans [OF f] by (simp add: Let_def case_prod_beta)
qed simp

section \<open>The search for a free range\<close>

lemma range_scan_iff:
  assumes "unat npages < 4096" "unat page + k = Suc (unat npages)"
  shows "range_scan s addr npages k page =
    (0 < k \<and> bitmap_get (page_bmp s) addr s = 0)"
  using assms
proof (induction k arbitrary: page)
  case (Suc k)
  have pd: "PAGE_TO_BIT page = 0"
    using Suc.prems by (simp add: PAGE_TO_BIT_def word_unat_eq_iff unat_div_u64)
  have "unat (page + 1) + k = Suc (unat npages)"
    using Suc.prems by (subst unat_add_no_wrap) simp_all
  moreover have "(page = npages) = (k = 0)"
    using Suc.prems by (auto simp: word_unat_eq_iff)
  ultimately show ?case using Suc.IH [of "page + 1"] Suc.prems pd by auto
qed simp

declare range_scan.simps [simp del]

lemma range_scan_first:
  "unat npages < 4096 \<Longrightarrow>
   range_scan s addr npages (Suc (unat npages)) 0 = (bitmap_get (page_bmp s) addr s = 0)"
  using range_scan_iff [of npages 0 "Suc (unat npages)"] by simp

lemma find_scan_find:
  assumes "unat npages < 4096"
  shows "find_scan s npages k (of_nat i) =
    map_option (\<lambda>n. of_nat n * 4096) (find (\<lambda>n. \<not> used s n) [i..<i + k])"
proof (induction k arbitrary: i)
  case (Suc k)
  have "[i..<i + Suc k] = i # [Suc i..<Suc i + k]" by (simp add: upt_conv_Cons)
  then show ?case
    using Suc.IH [of "Suc i"]
    by (simp add: range_scan_first [OF assms] used_def bitmap_get_bit [symmetric] BIT_TO_PAGE_def
        add.commute)
qed simp

section \<open>request_pages\<close>

definition first_free :: "'z pmm_scheme \<Rightarrow> nat option" where
  "first_free s = find (\<lambda>n. \<not> used s n) [0..<Suc (unat (bm_size (page_bmp s)))]"

lemma first_free_Some_iff:
  "first_free s = Some n \<longleftrightarrow>
   n \<le> unat (bm_size (page_bmp s)) \<and> \<not> used s n \<and> (\<forall>m<n. used s m)"
proof -
  have "first_free s = Some n \<longleftrightarrow> (\<exists>i<Suc (unat (bm_size (page_bmp s))). \<not> used s i \<and> n = i \<and> (\<forall>j<i. used s j))"
    by (auto simp: first_free_def find_Some_iff nth_append less_Suc_eq simp del: upt_Suc)
  then show ?thesis by (auto simp: less_Suc_eq_le)
qed

lemma first_free_None_iff:
  "first_free s = None \<longleftrightarrow> (\<forall>n \<le> unat (bm_size (page_bmp s)). used s n)"
  by (auto simp: first_free_def find_None_iff simp del: upt_Suc)

lemma find_free_range_eq:
  "unat num < 4096 \<Longrightarrow> find_free_range num s =
    (case first_free s of None \<Rightarrow> Inl (Psod HN_ERR_OUT_OF_MEM) | Some n \<Rightarrow> Inr (of_nat n * 4096, s))"
  using find_scan_find [of num s "Suc (unat (bm_size (page_bmp s)))" 0]
  by (simp add: find_free_range_def first_free_def split: option.splits del: find_scan.simps upt_Suc)

lemma unat_frame_addr: "n < 2 ^ 52 \<Longrightarrow> unat (of_nat n * 4096 :: u64) = n * 4096"
  by (simp add: unat_word_ariths unat_of_nat_u64)

lemma frame_of_nat: "n < 2 ^ 52 \<Longrightarrow> frame (of_nat n * 4096) = n"
  by (simp add: frame_def unat_frame_addr)

lemma request_pages_eq:
  assumes "pmm_ok s" "unat num < 4096" "4096 \<le> unat (bm_size (page_bmp s))"
  shows "request_pages num s =
    (case first_free s of None \<Rightarrow> Inl (Psod HN_ERR_OUT_OF_MEM)
     | Some n \<Rightarrow> Inr (of_nat n * 4096, snd (lock_pages (of_nat n * 4096) num s)))"
proof (cases "first_free s")
  case (Some n)
  then have n: "n \<le> unat (bm_size (page_bmp s))" by (simp add: first_free_Some_iff)
  have "n < 2 ^ 52" using n assms(1) by (simp add: pmm_ok_def nframes_def)
  then have "in_bitmap (of_nat n * 4096) num s"
    using n assms by (simp add: in_bitmap_def frame_of_nat nframes_def)
  then show ?thesis
    using Some lock_pages_facts(1) [OF assms(1)] assms(2)
    by (simp add: request_pages_def find_free_range_eq Let_def case_prod_beta)
qed (simp add: request_pages_def find_free_range_eq assms)

lemma request_pages_facts:
  assumes "pmm_ok s" "unat num < 4096" "4096 \<le> unat (bm_size (page_bmp s))"
    and "request_pages num s = Inr (p, s')"
  shows "first_free s = Some (frame p)" "p = of_nat (frame p) * 4096" "in_bitmap p num s"
    "used_frames s' = used_frames s \<union> frames p num" "pmm_frame s s'" "balance s' = balance s"
proof -
  from assms obtain n where n: "first_free s = Some n" "p = of_nat n * 4096"
    "s' = snd (lock_pages p num s)"
    by (auto simp: request_pages_eq split: option.splits)
  then have le: "n \<le> unat (bm_size (page_bmp s))" by (simp add: first_free_Some_iff)
  then have fr: "frame p = n" using n(2) assms(1) by (simp add: frame_of_nat pmm_ok_def nframes_def)
  then show "first_free s = Some (frame p)" "p = of_nat (frame p) * 4096" using n by auto
  show inb: "in_bitmap p num s"
    using le fr assms by (simp add: in_bitmap_def nframes_def)
  show "used_frames s' = used_frames s \<union> frames p num" "pmm_frame s s'" "balance s' = balance s"
    using lock_pages_facts [OF assms(1) inb] lock_pages_balance [OF assms(1) inb] n(3) by auto
qed

text \<open>The bitmap \<open>pmm_init\<close> builds is a whole number of pages long.\<close>

definition pmm_inv :: "'z pmm_scheme \<Rightarrow> bool" where
  "pmm_inv s \<longleftrightarrow> pmm_ok s \<and> 4096 \<le> unat (bm_size (page_bmp s))"

lemma pmm_inv_frame: "pmm_frame s s' \<Longrightarrow> pmm_inv s' = pmm_inv s"
  using pmm_frame_ok [of s s'] by (auto simp: pmm_inv_def pmm_frame_def)

lemma scanned_frame: "pmm_inv s \<Longrightarrow> n \<le> unat (bm_size (page_bmp s)) \<Longrightarrow> n < nframes s"
  by (simp add: pmm_inv_def nframes_def)

lemma request_pages_pmm:
  assumes "pmm_inv s" "unat num < 4096" "request_pages num s = Inr (p, s')"
  shows "first_free s = Some (frame p)" "p = of_nat (frame p) * 4096" "in_bitmap p num s"
    "used_frames s' = used_frames s \<union> frames p num" "pmm_frame s s'" "balance s' = balance s"
    "pmm_inv s'" "frame p \<notin> used_frames s" "frame p \<le> unat (bm_size (page_bmp s))"
  using request_pages_facts [of s num p s'] assms pmm_inv_frame [of s s']
  by (auto simp: pmm_inv_def first_free_Some_iff used_frames_def)

lemma request_pages_avail:
  "pmm_inv s \<Longrightarrow> unat num < 4096 \<Longrightarrow>
   (\<exists>p s'. request_pages num s = Inr (p, s')) = (first_free s \<noteq> None)"
  by (auto simp: pmm_inv_def request_pages_eq split: option.splits)

lemma frames_in_bitmap:
  assumes "frames p n \<subseteq> used_frames s" "n \<noteq> 0"
  shows "in_bitmap p n s"
proof -
  have "unat n \<noteq> 0" using assms(2) by (simp add: unat_eq_zero)
  then have "frame p + unat n - 1 \<in> frames p n" by (simp add: frames_def)
  then have "frame p + unat n - 1 < nframes s" using assms(1) by (auto simp: used_frames_def)
  then show ?thesis by (simp add: in_bitmap_def)
qed

lemma free_pages_used:
  assumes "pmm_inv s" "frames p n \<subseteq> used_frames s" "n \<noteq> 0"
  shows "used_frames (snd (free_pages p n s)) = used_frames s - frames p n"
    and "pmm_frame s (snd (free_pages p n s))"
    and "balance (snd (free_pages p n s)) = balance s"
  using assms frames_in_bitmap [OF assms(2,3)] free_pages_facts [of s p n] free_pages_balance [of s p n]
  by (auto simp: pmm_inv_def)

lemma request_pages_same: "pmm_ok s \<Longrightarrow> request_pages n s = Inr (p, t) \<Longrightarrow> pmm_same s t"
  using pages_loop_same [OF lock_page_op, of s]
  by (auto simp: request_pages_def find_free_range_def lock_pages_def then_do_Inr_iff Let_def case_prod_beta
      split: option.splits if_splits)

lemma free_pages_same: "pmm_ok s \<Longrightarrow> pmm_same s (snd (free_pages p n s))"
  unfolding free_pages_def by (rule pages_loop_same [OF free_page_op])

interpretation pg: page_allocator pmm_inv used_frames "\<lambda>s. first_free s \<noteq> None" request_pages free_pages
proof unfold_locales
  fix s :: "'a pmm_scheme" and n p s'
  assume s: "pmm_inv s"
  show "pmm_inv (snd (free_pages p n s))"
    using s free_pages_same [of s p n] pmm_same_ok by (auto simp: pmm_inv_def pmm_same_def)
  show "frames p n \<subseteq> used_frames s \<Longrightarrow> n \<noteq> 0 \<Longrightarrow>
      used_frames (snd (free_pages p n s)) = used_frames s - frames p n"
    using s free_pages_used(1) by blast
  assume n: "unat n < 4096"
  show "(\<exists>p s'. request_pages n s = Inr (p, s')) = (first_free s \<noteq> None)"
    using s n by (rule request_pages_avail)
  assume "request_pages n s = Inr (p, s')"
  note f = request_pages_pmm [OF s n this]
  show "pmm_inv s'" "p = of_nat (frame p) * 4096" "frame p \<notin> used_frames s"
    "used_frames s' = used_frames s \<union> frames p n"
    by (rule f)+
qed

section \<open>pmm_init\<close>

text \<open>
  The result of the first pass and the bitmap it lays out. \<open>boot_ok\<close>: the bitmap is below the
  direct map and the free segments, and the bitmap itself, lie in the frames it numbers. (Its
  size is computed from the lengths of the segments alone, so a memory map with holes below a
  free segment breaks the last condition.)
\<close>

definition init_result :: "memmap_entry list \<Rightarrow> usize \<Rightarrow> init_scan" where
  "init_result entries f = foldl init_scan_step
     \<lparr>page_bmp_size = 0, largest_free_memseg = NULL, largest_free_memseg_size = 0, scan_free_mem = f\<rparr> entries"

definition init_bitmap :: "memmap_entry list \<Rightarrow> usize \<Rightarrow> Bitmap" where
  "init_bitmap entries f = \<lparr>bm_size = ALIGN_UP (page_bmp_size (init_result entries f)) PAGE_SIZE,
     bm_buffer = largest_free_memseg (init_result entries f)\<rparr>"

definition boot_ok :: "memmap_entry list \<Rightarrow> 'z pmm_scheme \<Rightarrow> bool" where
  "boot_ok entries s \<longleftrightarrow> (let bm = init_bitmap entries (free_mem s); n = 8 * unat (bm_size bm) in
     page_bmp_size (init_result entries (free_mem s)) \<le> largest_free_memseg_size (init_result entries (free_mem s)) \<and>
     unat (bm_buffer bm) + Suc (unat (bm_size bm)) \<le> unat (hhdm_off s) \<and> n \<le> 2 ^ 52 \<and>
     frame (bm_buffer bm) + unat (bm_size bm div PAGE_SIZE) \<le> n \<and>
     (\<forall>e \<in> set entries. is_free_type e \<longrightarrow> frame (e_base e) + unat (e_length e div PAGE_SIZE) \<le> n))"

text \<open>The frames of the free segments.\<close>

definition free_segments :: "memmap_entry list \<Rightarrow> nat set" where
  "free_segments entries = (\<Union>e \<in> {e \<in> set entries. is_free_type e}. frames (e_base e) (e_length e div PAGE_SIZE))"

lemma free_segments_Nil [simp]: "free_segments [] = {}"
  by (simp add: free_segments_def)

lemma free_segments_Cons [simp]:
  "free_segments (e # es) = (if is_free_type e then frames (e_base e) (e_length e div 4096) else {}) \<union> free_segments es"
  by (auto simp: free_segments_def)

text \<open>A bitmap filled with ones: every frame is in use.\<close>

lemma memset_bitmap_full:
  assumes "span (hhdm_off s) (bm_buffer (page_bmp s)) (unat (bm_size (page_bmp s))) (bm_buffer (page_bmp s))"
    and "8 * unat (bm_size (page_bmp s)) \<le> 2 ^ 52" "n < 8 * unat (bm_size (page_bmp s))"
  shows "used (memset (bm_buffer (page_bmp s)) 0xff (bm_size (page_bmp s)) s) n"
proof -
  let ?b = "bm_buffer (page_bmp s)" and ?t = "memset (bm_buffer (page_bmp s)) 0xff (bm_size (page_bmp s)) s"
  have f: "page_bmp ?t = page_bmp s" "hhdm_off ?t = hhdm_off s" by (subst memset_pmem_only, simp)+
  have u: "unat (of_nat n :: u64) = n" using assms(2,3) by (intro unat_of_nat_u64) simp
  then have "unat ((of_nat n :: u64) div 8) = n div 8" by (simp add: unat_div_u64)
  then have d: "(of_nat n :: u64) div 8 = of_nat (n div 8)" by (metis of_nat_unat ucast_id)
  have k: "n div 8 < unat (bm_size (page_bmp s))" using assms(3) by (simp add: less_mult_imp_div_less mult.commute)
  have "load8 ?t (?b + of_nat (n div 8)) = 0xff"
    using hhdm_load8_range [of ?t ?b "unat (bm_size (page_bmp s))" ?b "n div 8"]
      pmem_memset [OF assms(1)] prange_offset [OF k span_bound [OF assms(1)]] assms(1) k f by simp
  moreover have "bit (0xff :: u8) (n mod 8)"
  proof -
    have m: "(0xff :: u8) = mask 8" by (simp add: mask_eq_exp_minus_1)
    show ?thesis unfolding m by (simp only: bit_mask_iff) simp
  qed
  ultimately show ?thesis by (simp add: used_def bmp_bit_def f d u)
qed

lemma unreserve_segments:
  assumes "pmm_ok s" "\<forall>e \<in> set entries. is_free_type e \<longrightarrow> in_bitmap (e_base e) (e_length e div 4096) s"
  shows "pmm_frame s (foldl init_unreserve_step s entries) \<and>
    used_frames (foldl init_unreserve_step s entries) = used_frames s - free_segments entries"
  using assms
proof (induction entries arbitrary: s)
  case (Cons e es)
  let ?s = "init_unreserve_step s e"
  have s: "pmm_frame s ?s \<and> used_frames ?s =
      used_frames s - (if is_free_type e then frames (e_base e) (e_length e div 4096) else {})"
    using unreserve_pages_facts [of s "e_base e" "e_length e div 4096"] Cons.prems
    by (auto simp: init_unreserve_step_def)
  then have "pmm_ok ?s" "nframes ?s = nframes s"
    using Cons.prems(1) pmm_frame_ok pmm_frame_nframes by auto
  then have "pmm_frame ?s (foldl init_unreserve_step ?s es) \<and>
      used_frames (foldl init_unreserve_step ?s es) = used_frames ?s - free_segments es"
    using Cons.prems(2) by (intro Cons.IH) (auto simp: in_bitmap_def)
  then show ?case using s pmm_frame_trans [of s ?s] by auto
qed simp

lemma pmm_init_facts:
  fixes s :: "'z pmm_scheme"
  assumes "boot_ok entries s"
  defines "bm \<equiv> init_bitmap entries (free_mem s)"
  obtains t where "pmm_init entries s = Inr ((), t)" "pmm_ok t" "page_bmp t = bm" "pmm.more t = pmm.more s"
    "hhdm_off t = hhdm_off s" "\<And>q. q \<notin> bmp_region bm s \<Longrightarrow> pmem t q = pmem s q"
    "\<And>n. n < 8 * unat (bm_size bm) \<Longrightarrow> used t n \<longleftrightarrow>
       n \<in> frames (bm_buffer bm) (bm_size bm div 4096) \<or> n \<notin> free_segments entries"
proof -
  let ?a = "init_result entries (free_mem s)"
  have h: "page_bmp_size ?a \<le> largest_free_memseg_size ?a"
    "unat (bm_buffer bm) + Suc (unat (bm_size bm)) \<le> unat (hhdm_off s)" "8 * unat (bm_size bm) \<le> 2 ^ 52"
    "frame (bm_buffer bm) + unat (bm_size bm div 4096) \<le> 8 * unat (bm_size bm)"
    "\<forall>e \<in> set entries. is_free_type e \<longrightarrow> frame (e_base e) + unat (e_length e div 4096) \<le> 8 * unat (bm_size bm)"
    using assms(1) unfolding boot_ok_def bm_def Let_def by blast+
  define s0 where "s0 = s\<lparr>free_mem := scan_free_mem ?a, total_mem := scan_free_mem ?a, page_bmp := bm\<rparr>"
  define s1 where "s1 = memset (bm_buffer bm) 0xff (bm_size bm) s0"
  define s2 where "s2 = foldl init_unreserve_step s1 entries"
  define t where "t = snd (lock_pages (bm_buffer bm) (bm_size bm div 4096) s2)"
  have init: "pmm_init entries s = Inr ((), t)"
    using h(1) unfolding t_def s2_def s1_def s0_def
    by (simp add: pmm_init_def Let_def init_result_def bm_def init_bitmap_def not_le)
  have sp: "span (hhdm_off s) (bm_buffer bm) (Suc (unat (bm_size bm))) (bm_buffer bm)"
    by (rule span_low [OF h(2)])
  have f1: "page_bmp s1 = bm" "hhdm_off s1 = hhdm_off s" "pmm.more s1 = pmm.more s"
    unfolding s1_def by (subst memset_pmem_only, simp add: s0_def)+
  have "unat (bm_size bm) < 2 ^ 60" using h(3) by simp
  then have ok1: "pmm_ok s1" using sp h(3) f1 by (auto simp: pmm_ok_def bmp_ok_def nframes_def)
  have sp': "span (hhdm_off s0) (bm_buffer bm) (unat (bm_size bm)) (bm_buffer bm)"
    using span_mono [OF sp] by (simp add: s0_def)
  have set1: "used s1 n" if "n < 8 * unat (bm_size bm)" for n
    using memset_bitmap_full [of s0 n] sp' h(3) that by (simp add: s1_def s0_def)
  have "\<forall>e \<in> set entries. is_free_type e \<longrightarrow> in_bitmap (e_base e) (e_length e div 4096) s1"
    using h(5) f1 by (simp add: in_bitmap_def nframes_def)
  from unreserve_segments [OF ok1 this] have s2: "pmm_frame s1 s2"
    "used_frames s2 = used_frames s1 - free_segments entries" by (simp_all add: s2_def)
  have ok2: "pmm_ok s2" "nframes s2 = nframes s1" using s2(1) ok1 pmm_frame_ok pmm_frame_nframes by auto
  have inb: "in_bitmap (bm_buffer bm) (bm_size bm div 4096) s2"
    using h(4) ok2(2) f1 by (simp add: in_bitmap_def nframes_def)
  note lp = lock_pages_facts [OF ok2(1) inb, folded t_def]
  have nt: "nframes t = 8 * unat (bm_size bm)"
    using pmm_frame_nframes [OF lp(2)] ok2(2) f1 by (simp add: nframes_def)
  show thesis
  proof (rule that [OF init])
    show "pmm_ok t" using ok2(1) pmm_frame_ok [OF lp(2)] by simp
    show "page_bmp t = bm" "pmm.more t = pmm.more s" "hhdm_off t = hhdm_off s"
      using lp(2) s2(1) f1 by (simp_all add: pmm_frame_def)
    show "pmem t q = pmem s q" if "q \<notin> bmp_region bm s" for q
    proof -
      have r: "bmp_region bm s = prange (bm_buffer bm) (unat (bm_size bm))"
        by (rule bmp_region_span) (use span_mono [OF sp] in simp)
      have "pmem s1 q = pmem s q" unfolding s1_def using that by (subst pmem_memset [OF sp']) (simp add: r s0_def)
      then show ?thesis
        using that lp(2) s2(1) f1 bmp_region_cong [of s1 s bm] bmp_region_cong [of s2 s bm] by (simp add: pmm_frame_def)
    qed
    fix n assume n: "n < 8 * unat (bm_size bm)"
    have "used t n \<longleftrightarrow> n \<in> used_frames t" using n nt by (simp add: used_frames_def)
    also have "\<dots> \<longleftrightarrow> n \<in> frames (bm_buffer bm) (bm_size bm div 4096) \<or> n \<in> used_frames s1 \<and> n \<notin> free_segments entries"
      using lp(3) s2(2) by auto
    finally have *: "used t n \<longleftrightarrow> n \<in> frames (bm_buffer bm) (bm_size bm div 4096) \<or> n \<in> used_frames s1 \<and> n \<notin> free_segments entries" .
    have "n \<in> used_frames s1" using set1 [OF n] n f1 by (simp add: used_frames_def nframes_def)
    with * show "used t n \<longleftrightarrow> n \<in> frames (bm_buffer bm) (bm_size bm div 4096) \<or> n \<notin> free_segments entries"
      by blast
  qed
qed

section \<open>A sample machine\<close>

text \<open>
  A machine with 128 MiB of memory, the direct map at its usual place, the bitmap in frame 1 and
  the byte after it in frame 2, and the frames 0 to 3 marked used. The other components extend
  it with their own fields.
\<close>

definition sample_mem :: "u8 \<Rightarrow> u64 \<Rightarrow> u8" where
  "sample_mem b q = (if q = 0x1000 then b else 0)"

definition sample_with :: "u8 \<Rightarrow> 'z \<Rightarrow> 'z pmm_scheme" where
  "sample_with b x = \<lparr>pmem = sample_mem b, hhdm_off = 0xFFFF800000000000, total_mem = 0x8000000,
     free_mem = 0x7FFC000, used_mem = 0x4000, highest_block = 0,
     page_bmp = \<lparr>bm_size = 4096, bm_buffer = 0x1000\<rparr>, \<dots> = x\<rparr>"

definition sample :: "'z \<Rightarrow> 'z pmm_scheme" where
  "sample = sample_with 0x0F"

lemma sample_with_fields [simp]:
  "pmem (sample_with b x) = sample_mem b" "hhdm_off (sample_with b x) = 0xFFFF800000000000"
  "page_bmp (sample_with b x) = \<lparr>bm_size = 4096, bm_buffer = 0x1000\<rparr>" "nframes (sample_with b x) = 32768"
  "pmm.more (sample_with b x) = x" "used_mem (sample_with b x) = 0x4000" "free_mem (sample_with b x) = 0x7FFC000"
  by (simp_all add: sample_with_def nframes_def)

lemma sample_span: "span (hhdm_off (sample_with b x)) 0x1000 4097 0x1000"
  by (rule span_low) simp

lemma sample_with_pmm_inv: "pmm_inv (sample_with b x)"
proof -
  have "span (hhdm_off (sample_with b x)) 0x1000 (Suc (unat (4096 :: u64))) 0x1000" using sample_span by simp
  then show ?thesis unfolding pmm_inv_def pmm_ok_def bmp_ok_def by auto
qed

lemma sample_with_used:
  assumes "n < 32768"
  shows "used (sample_with b x) n \<longleftrightarrow> n < 8 \<and> bit b n"
proof -
  have n: "unat (of_nat n :: u64) = n" using assms by (intro unat_of_nat_u64) simp
  then have d: "unat ((of_nat n :: u64) div 8) = n div 8" by (simp add: unat_div_u64)
  have "n div 8 < 4097" using assms by simp
  moreover have "of_nat (n div 8) = (of_nat n :: u64) div 8"
    using d by (metis of_nat_unat ucast_id)
  ultimately have v: "v2p (hhdm_off (sample_with b x)) (0x1000 + (of_nat n :: u64) div 8) = 0x1000 + of_nat (n div 8)"
    using sample_span [of b x] unfolding span_def by metis
  have "unat (0x1000 + of_nat (n div 8) :: u64) = 4096 + n div 8"
    using assms by (subst unat_add_of_nat) simp_all
  then have "(0x1000 + of_nat (n div 8) = (0x1000 :: u64)) = (n < 8)"
    by (auto simp: word_unat_eq_iff)
  then show ?thesis
    using v n by (auto simp: used_def bmp_bit_def load8_def sample_mem_def)
qed

lemma mask4_u8: "k < 8 \<Longrightarrow> bit (0x0F :: u8) k \<longleftrightarrow> k < 4"
proof -
  assume "k < 8"
  have m: "(0x0F :: u8) = mask 4" by (simp add: mask_eq_exp_minus_1)
  show ?thesis unfolding m using \<open>k < 8\<close> by (simp only: bit_mask_iff) simp
qed

lemma sample_used: "n < 32768 \<Longrightarrow> used (sample x) n \<longleftrightarrow> n < 4"
  unfolding sample_def by (subst sample_with_used) (use mask4_u8 in \<open>auto dest: less_le_trans\<close>)

lemma sample_pmm_inv: "pmm_inv (sample x)"
  unfolding sample_def by (rule sample_with_pmm_inv)

lemma sample_used_frames: "used_frames (sample x) = {0, 1, 2, 3}"
proof -
  have "used_frames (sample x) = {n. n < 4}"
    using sample_used [of _ x] by (auto simp: used_frames_def sample_def)
  then show ?thesis by (auto simp: numeral_eq_Suc less_Suc_eq)
qed

lemma sample_first_free: "first_free (sample x) = Some 4"
  using sample_used [of _ x] by (simp add: first_free_Some_iff sample_def)

section \<open>Properties\<close>

text \<open>
  C1. \<open>request_pages\<close>, for fewer than 4096 pages: the range starts at the lowest free frame the
  scan covers; exactly the frames of the range become used, the byte counters follow the
  bitmap, and the allocator's invariant is kept. It panics with the out-of-memory code exactly
  when the scan covers no free frame.
\<close>

theorem request_pages_spec:
  assumes "pmm_inv s" "unat num < 4096"
  shows "case request_pages num s of
      Inl e \<Rightarrow> e = Psod HN_ERR_OUT_OF_MEM \<and> first_free s = None
    | Inr (p, t) \<Rightarrow> first_free s = Some (frame p) \<and> p = of_nat (frame p) * 4096 \<and>
        used_frames t = used_frames s \<union> frames p num \<and> balance t = balance s \<and> pmm_inv t"
proof (cases "request_pages num s")
  case (Inl e)
  then show ?thesis
    using assms request_pages_eq [of s num] by (auto simp: pmm_inv_def split: option.splits)
next
  case (Inr r)
  then show ?thesis using request_pages_pmm [OF assms, of "fst r" "snd r"] by (cases r) simp
qed

theorem request_pages_spec_witness:
  "case request_pages 3 (sample ()) of
      Inl e \<Rightarrow> e = Psod HN_ERR_OUT_OF_MEM \<and> first_free (sample ()) = None
    | Inr (p, t) \<Rightarrow> first_free (sample ()) = Some (frame p) \<and> p = of_nat (frame p) * 4096 \<and>
        used_frames t = used_frames (sample ()) \<union> frames p 3 \<and> balance t = balance (sample ()) \<and> pmm_inv t"
  by (rule request_pages_spec [OF sample_pmm_inv]) simp

text \<open>
  C23. Single pages are allocated like from a set: a page handed out is not handed out again
  while it is in use, and releasing it gives the set of used frames back.
\<close>

theorem request_page_exclusive:
  assumes "pmm_inv s" "request_pages 1 s = Inr (p, s1)"
  shows "frame p \<notin> used_frames s \<and> used_frames (snd (free_pages p 1 s1)) = used_frames s \<and>
    (\<forall>q s2. request_pages 1 s1 = Inr (q, s2) \<longrightarrow> frame q \<noteq> frame p)"
proof (intro conjI allI impI)
  show "frame p \<notin> used_frames s" by (rule pg.request_first [OF assms(1) _ assms(2)]) simp
  show "used_frames (snd (free_pages p 1 s1)) = used_frames s" by (rule pg.request_release_page [OF assms])
  fix q s2 assume "request_pages 1 s1 = Inr (q, s2)"
  from pg.request_distinct(1) [OF assms(1) _ _ assms(2) this] show "frame q \<noteq> frame p" by auto
qed

theorem request_page_exclusive_witness:
  "\<exists>p s1. request_pages 1 (sample ()) = Inr (p, s1) \<and>
    frame p \<notin> used_frames (sample ()) \<and> used_frames (snd (free_pages p 1 s1)) = used_frames (sample ()) \<and>
    (\<forall>q s2. request_pages 1 s1 = Inr (q, s2) \<longrightarrow> frame q \<noteq> frame p)"
proof -
  obtain p s1 where r: "request_pages 1 (sample ()) = Inr (p, s1)"
    using request_pages_avail [OF sample_pmm_inv [of "()"], of 1] sample_first_free [of "()"] by auto
  with request_page_exclusive [OF sample_pmm_inv r] show ?thesis by metis
qed

text \<open>
  The scan for a range of several pages looks at the first frame only: \<open>PAGE_TO_BIT\<close> of a
  page count below 4096 is 0. Whenever the frame after the first free one is in use, a request
  for two or more pages hands out memory that already belongs to somebody.
\<close>

theorem request_pages_overlap:
  assumes "pmm_inv s" "first_free s = Some n" "Suc n \<in> used_frames s" "2 \<le> unat num" "unat num < 4096"
  shows "\<exists>p t. request_pages num s = Inr (p, t) \<and> frame p = n \<and> Suc n \<in> frames p num \<inter> used_frames s"
proof -
  obtain p t where r: "request_pages num s = Inr (p, t)"
    using request_pages_avail [OF assms(1,5)] assms(2) by auto
  then have "frame p = n" using request_pages_pmm(1) [OF assms(1,5) r] assms(2) by simp
  then show ?thesis using r assms(3,4) by (auto simp: frames_def)
qed

theorem request_pages_overlap_witness:
  "\<exists>p t. request_pages 2 (sample_with 0x0D ()) = Inr (p, t) \<and> frame p = 1 \<and>
    Suc 1 \<in> frames p 2 \<inter> used_frames (sample_with 0x0D ())"
proof (rule request_pages_overlap [OF sample_with_pmm_inv])
  have b: "\<not> bit (0x0D :: u8) 1" "bit (0x0D :: u8) 0" "bit (0x0D :: u8) 2" by (simp_all add: bit_iff_odd)
  show "first_free (sample_with 0x0D ()) = Some 1"
    using b sample_with_used [of _ "0x0D" "()"] by (auto simp: first_free_Some_iff)
  show "Suc 1 \<in> used_frames (sample_with 0x0D ())"
    using b sample_with_used [of 2 "0x0D" "()"] by (simp add: used_frames_def numeral_2_eq_2)
qed simp_all

text \<open>
  \<open>free_pages\<close> on a range of used frames frees exactly these frames and keeps the counters
  in step with the bitmap.
\<close>

theorem free_pages_spec:
  assumes "pmm_inv s" "frames p num \<subseteq> used_frames s" "num \<noteq> 0"
  shows "used_frames (snd (free_pages p num s)) = used_frames s - frames p num \<and>
    balance (snd (free_pages p num s)) = balance s \<and> pmm_inv (snd (free_pages p num s))"
  using free_pages_used [OF assms] pg.release_ok [OF assms(1)] by blast

theorem free_pages_spec_witness:
  "used_frames (snd (free_pages 0x2000 2 (sample ()))) = used_frames (sample ()) - frames 0x2000 2 \<and>
    balance (snd (free_pages 0x2000 2 (sample ()))) = balance (sample ()) \<and>
    pmm_inv (snd (free_pages 0x2000 2 (sample ())))"
  by (rule free_pages_spec [OF sample_pmm_inv])
    (auto simp: sample_used_frames frames_def frame_def)

text \<open>
  C10. \<open>pmm_init\<close>: after it, a frame the bitmap numbers is used if and only if it holds the
  bitmap itself or lies in no usable, boot-loader-reclaimable or ACPI-reclaimable segment.
\<close>

theorem pmm_init_spec:
  assumes "boot_ok entries s"
  defines "bm \<equiv> init_bitmap entries (free_mem s)"
  shows "\<exists>t. pmm_init entries s = Inr ((), t) \<and> pmm_ok t \<and> page_bmp t = bm \<and>
    (\<forall>n < 8 * unat (bm_size bm). used t n \<longleftrightarrow>
       n \<in> frames (bm_buffer bm) (bm_size bm div PAGE_SIZE) \<or> n \<notin> free_segments entries)"
  using pmm_init_facts [OF assms(1)] unfolding bm_def by metis

definition sample_map :: "memmap_entry list" where
  "sample_map = [\<lparr>e_base = 0x100000, e_length = 0x800000, e_type = 0\<rparr>,
     \<lparr>e_base = 0x900000, e_length = 0x100000, e_type = 1\<rparr>]"

lemma sample_boot_ok: "boot_ok sample_map ((sample ())\<lparr>free_mem := 0\<rparr>)"
  by (simp add: boot_ok_def init_bitmap_def init_result_def init_scan_step_def sample_map_def is_free_type_def
      ALIGN_UP_def DIV_ROUND_UP_def Let_def frame_def sample_def)

theorem pmm_init_spec_witness:
  "\<exists>t. pmm_init sample_map ((sample ())\<lparr>free_mem := 0\<rparr>) = Inr ((), t) \<and> pmm_ok t \<and>
    page_bmp t = init_bitmap sample_map 0 \<and>
    (\<forall>n < 8 * unat (bm_size (init_bitmap sample_map 0)). used t n \<longleftrightarrow>
       n \<in> frames (bm_buffer (init_bitmap sample_map 0)) (bm_size (init_bitmap sample_map 0) div PAGE_SIZE) \<or>
       n \<notin> free_segments sample_map)"
  using pmm_init_spec [OF sample_boot_ok] by simp

end
