(* ===== verification/Heap.thy ===== *)
theory Heap
  imports PMM
begin

text \<open>
  The kernel heap, \<open>core/mm/heap.c\<close>: every block is a run of whole pages, its size kept in
  the 8 bytes before the pointer handed out.
\<close>

section \<open>The code\<close>

definition malloc :: "usize \<Rightarrow> 'z pmm_scheme \<Rightarrow> (ptr, 'z pmm_scheme) result" where
  "malloc sz s =
     then_do (request_pages (sz div 4096 + 1) s) (\<lambda>p s.
       let PP = PHYS_TO_VIRT s p;
           s = store64 PP sz s
       in Inr (PP + 8, s))"

definition free :: "ptr \<Rightarrow> 'z pmm_scheme \<Rightarrow> 'z pmm_scheme" where
  "free tofree s =
     (if tofree = NULL then s
      else
        let PP = tofree - 8;
            sz = load64 s PP
        in snd (free_pages (VIRT_TO_PHYS s PP) (sz div 4096 + 1) s))"

definition calloc :: "usize \<Rightarrow> usize \<Rightarrow> 'z pmm_scheme \<Rightarrow> (ptr, 'z pmm_scheme) result" where
  "calloc count sz s =
     then_do (malloc (count * sz) s) (\<lambda>p s. Inr (p, memset p 0 (count * sz) s))"

definition realloc :: "ptr \<Rightarrow> usize \<Rightarrow> 'z pmm_scheme \<Rightarrow> (ptr, 'z pmm_scheme) result" where
  "realloc old sz s =
     (let smallersize = (if load64 s (old - 8) < sz then load64 s (old - 8) else sz);
          s = free old s
      in then_do (malloc sz s) (\<lambda>newmem s. Inr (newmem, memcpy newmem old smallersize s)))"

definition realloc_plus :: "ptr \<Rightarrow> usize \<Rightarrow> usize \<Rightarrow> 'z pmm_scheme \<Rightarrow> (ptr, 'z pmm_scheme) result" where
  "realloc_plus old sz oldsize s =
     (let smaller_size = (if oldsize < sz then oldsize else sz);
          s = free old s
      in then_do (malloc sz s) (\<lambda>newmem s. Inr (newmem, memcpy newmem old smaller_size s)))"

section \<open>Invariant\<close>

text \<open>
  The direct map covers every frame of the bitmap, and the frames that hold the bitmap are
  themselves marked used (\<open>pmm_init\<close> locks them), so no block lies on the bitmap's first
  page of a request.
\<close>

definition heap_ok :: "'z pmm_scheme \<Rightarrow> bool" where
  "heap_ok s \<longleftrightarrow> pmm_inv s \<and> unat (hhdm_off s) + 4096 * nframes s + 2 ^ 32 \<le> 2 ^ 64 \<and>
     frame ` bmp_region (page_bmp s) s \<subseteq> used_frames s"

definition npages :: "usize \<Rightarrow> usize" where "npages sz = sz div 4096 + 1"

lemmas heap_state_defs = heap_ok_def pmm_inv_def pmm_ok_def nframes_def used_frames_def used_def
  bmp_ok_def bmp_bit_def load8_def bmp_region_def

text \<open>Requests below 16 MiB less a page: the page count stays below 4096.\<close>

definition small :: "usize \<Rightarrow> bool" where "small sz \<longleftrightarrow> unat sz < 4095 * 4096"

lemma unat_npages: "small sz \<Longrightarrow> unat (npages sz) = Suc (unat sz div 4096)"
proof -
  assume "small sz"
  then have "unat sz div 4096 < 4095" by (simp add: small_def less_mult_imp_div_less)
  then show ?thesis
    unfolding npages_def by (subst unat_add_no_wrap) (simp_all add: unat_div_u64)
qed

lemma npages_small: "small sz \<Longrightarrow> unat (npages sz) < 4096" "small sz \<Longrightarrow> npages sz \<noteq> 0"
  using unat_npages [of sz] by (auto simp: small_def less_mult_imp_div_less)

text \<open>A store that leaves the bitmap's bytes alone leaves the allocator's state alone.\<close>

definition data_write :: "'z pmm_scheme \<Rightarrow> 'z pmm_scheme \<Rightarrow> bool" where
  "data_write s t \<longleftrightarrow> t = s\<lparr>pmem := pmem t\<rparr> \<and> (\<forall>q \<in> bmp_region (page_bmp s) s. pmem t q = pmem s q)"

lemma used_pmem_cong:
  assumes "\<forall>q \<in> bmp_region (page_bmp s) s. m q = pmem s q" "n < nframes s" "n < 2 ^ 64"
  shows "used (s\<lparr>pmem := m\<rparr>) n = used s n"
proof -
  have "unat (of_nat n :: u64) = n" using assms(3) by (intro unat_of_nat_u64) simp
  then have "unat ((of_nat n :: u64) div 8) < unat (bm_size (page_bmp s))"
    using assms(2) by (simp add: unat_div_u64 nframes_def less_mult_imp_div_less mult.commute)
  then have "v2p (hhdm_off s) (bm_buffer (page_bmp s) + of_nat (unat ((of_nat n :: u64) div 8)))
      \<in> bmp_region (page_bmp s) s"
    unfolding bmp_region_def by blast
  then show ?thesis using assms(1) by (simp add: used_def bmp_bit_def load8_def)
qed

lemma data_write_facts:
  assumes "data_write s t" "pmm_inv s"
  shows "used_frames t = used_frames s" "nframes t = nframes s" "page_bmp t = page_bmp s"
    "hhdm_off t = hhdm_off s" "balance t = balance s" "heap_ok t = heap_ok s" "pmm_ok t" "first_free t = first_free s"
proof -
  from assms(1) obtain m where t: "t = s\<lparr>pmem := m\<rparr>" and m: "\<forall>q \<in> bmp_region (page_bmp s) s. m q = pmem s q"
    by (auto simp: data_write_def)
  show same: "nframes t = nframes s" "page_bmp t = page_bmp s" "hhdm_off t = hhdm_off s"
    by (simp_all add: t nframes_def)
  have ok0: "pmm_ok s" using assms(2) by (simp add: pmm_inv_def)
  then show ok: "pmm_ok t" by (simp add: t pmm_ok_def bmp_ok_def nframes_def)
  have u: "used t n = used s n" if "n < nframes s" for n
    using used_pmem_cong [OF m that] that ok0 unfolding t by (simp add: pmm_ok_def)
  then show uf: "used_frames t = used_frames s" using same by (auto simp: used_frames_def)
  then show "balance t = balance s" by (simp add: balance_def used_bytes_def t)
  show "heap_ok t = heap_ok s"
    using uf ok ok0 by (simp add: heap_ok_def pmm_inv_def t nframes_def bmp_region_def)
  have "find (\<lambda>n. \<not> used t n) xs = find (\<lambda>n. \<not> used s n) xs" if "\<forall>n \<in> set xs. n < nframes s" for xs
    using that u by (induction xs) auto
  moreover have "\<forall>n \<in> set [0..<Suc (unat (bm_size (page_bmp s)))]. n < nframes s"
    using scanned_frame [OF assms(2)] by (auto simp del: upt_Suc)
  ultimately show "first_free t = first_free s" unfolding first_free_def same(2) by blast
qed

section \<open>Pages and the direct map\<close>

lemma unat_page: "p = of_nat (frame p) * 4096 \<Longrightarrow> unat p = 4096 * frame p"
  using unat_frame_addr [OF frame_less, of p] by simp

lemma frame_in_page:
  assumes "unat p = 4096 * frame p" "q \<in> prange p n" "n \<le> 4096"
  shows "frame q = frame p"
  using assms by (auto simp: frame_def prange_def intro!: div_nat_eqI)

lemma heap_span:
  assumes "heap_ok s" "unat p + n \<le> 4096 * nframes s + 2 ^ 32"
  shows "span (hhdm_off s) (PHYS_TO_VIRT s p) n p"
  using assms by (intro span_PHYS_TO_VIRT) (simp add: heap_ok_def)

lemma frame_bound: "frame p < nframes s \<Longrightarrow> unat p + 1 \<le> 4096 * nframes s"
proof -
  assume "frame p < nframes s"
  moreover have "unat p < 4096 * Suc (frame p)"
    unfolding frame_def using dividend_less_times_div [of 4096 "unat p"] by simp
  ultimately show ?thesis by (simp add: Suc_le_eq)
qed

text \<open>A store into a frame that is not marked used is a data write.\<close>

lemma store_free_page:
  assumes ok: "heap_ok s" and "unat p = 4096 * frame p" "frame p < nframes s"
    and "frame p \<notin> frame ` bmp_region (page_bmp s) s"
  shows "data_write s (store64 (PHYS_TO_VIRT s p) w s)"
    and "load64 (store64 (PHYS_TO_VIRT s p) w s) (PHYS_TO_VIRT s p) = w"
    and "q \<notin> prange p 8 \<Longrightarrow> pmem (store64 (PHYS_TO_VIRT s p) w s) q = pmem s q"
proof -
  have sp: "span (hhdm_off s) (PHYS_TO_VIRT s p) 8 p"
    using ok frame_bound [OF assms(3)] by (intro heap_span) simp_all
  show "load64 (store64 (PHYS_TO_VIRT s p) w s) (PHYS_TO_VIRT s p) = w"
    by (rule load64_store64 [OF sp])
  show other: "pmem (store64 (PHYS_TO_VIRT s p) w s) q = pmem s q" if "q \<notin> prange p 8" for q
    by (rule pmem_store64_other [OF sp that])
  have "q \<notin> prange p 8" if "q \<in> bmp_region (page_bmp s) s" for q
    using frame_in_page [OF assms(2), of q 8] that assms(4) by (force simp: image_iff)
  then show "data_write s (store64 (PHYS_TO_VIRT s p) w s)"
    unfolding data_write_def using other store64_pmem_only by blast
qed

section \<open>malloc\<close>

lemma heap_ok_frame:
  assumes "heap_ok s" "pmm_frame s t" "used_frames s \<subseteq> used_frames t"
  shows "heap_ok t"
  using assms pmm_inv_frame [OF assms(2)] pmm_frame_nframes [OF assms(2)] bmp_region_cong [of t s "page_bmp s"]
  by (auto simp: heap_ok_def pmm_frame_def)

text \<open>
  \<open>block s v sz\<close>: the pointer \<open>v\<close> is to a block of \<open>sz\<close> bytes, its pages are marked used and
  its first page is one the search can return.
\<close>

definition base :: "'z pmm_scheme \<Rightarrow> ptr \<Rightarrow> u64" where "base s v = VIRT_TO_PHYS s (v - 8)"

definition block :: "'z pmm_scheme \<Rightarrow> ptr \<Rightarrow> usize \<Rightarrow> bool" where
  "block s v sz \<longleftrightarrow> small sz \<and> v \<noteq> NULL \<and> load64 s (v - 8) = sz \<and>
     unat (base s v) = 4096 * frame (base s v) \<and>
     frames (base s v) (npages sz) \<subseteq> used_frames s \<and> frame (base s v) \<le> unat (bm_size (page_bmp s))"

lemma base_PHYS [simp]: "base s (PHYS_TO_VIRT s p + 8) = p"
  by (simp add: base_def)

lemma base_cong: "hhdm_off t = hhdm_off s \<Longrightarrow> base t v = base s v"
  by (simp add: base_def VIRT_TO_PHYS_def)

lemma PHYS_base [simp]: "PHYS_TO_VIRT s (base s v) = v - 8"
  by (simp add: base_def VIRT_TO_PHYS_def PHYS_TO_VIRT_def)

lemma virt_not_null:
  assumes "heap_ok s" "frame p < nframes s"
  shows "PHYS_TO_VIRT s p + 8 \<noteq> NULL"
proof -
  have "unat (hhdm_off s) + unat p + 8 < 18446744073709551616"
    using assms frame_bound [OF assms(2)] by (simp add: heap_ok_def)
  then have "unat (PHYS_TO_VIRT s p + 8) = unat (hhdm_off s) + unat p + 8"
    by (simp add: PHYS_TO_VIRT_def unat_add_no_wrap)
  then show ?thesis by auto
qed

lemma malloc_facts:
  assumes ok: "heap_ok s" and sm: "small sz" and m: "malloc sz s = Inr (v, s')"
  shows "v = PHYS_TO_VIRT s (base s v) + 8" "base s v = of_nat (frame (base s v)) * 4096"
    "first_free s = Some (frame (base s v))" "frame (base s v) \<notin> used_frames s"
    "used_frames s' = used_frames s \<union> frames (base s v) (npages sz)"
    "block s' v sz" "heap_ok s'" "balance s' = balance s"
    "pmm.more s' = pmm.more s" "page_bmp s' = page_bmp s" "hhdm_off s' = hhdm_off s"
    "q \<notin> bmp_region (page_bmp s) s \<Longrightarrow> q \<notin> prange (base s v) 8 \<Longrightarrow> pmem s' q = pmem s q"
proof -
  from m obtain p s1 where r: "request_pages (npages sz) s = Inr (p, s1)"
    and v: "v = PHYS_TO_VIRT s1 p + 8" and s': "s' = store64 (PHYS_TO_VIRT s1 p) sz s1"
    by (auto simp: malloc_def then_do_Inr_iff npages_def Let_def)
  have inv: "pmm_inv s" using ok by (simp add: heap_ok_def)
  note f = request_pages_pmm [OF inv npages_small(1) [OF sm] r]
  have hh: "hhdm_off s1 = hhdm_off s" "page_bmp s1 = page_bmp s" using f(5) by (simp_all add: pmm_frame_def)
  have pv: "PHYS_TO_VIRT s1 p = PHYS_TO_VIRT s p" by (rule PHYS_TO_VIRT_cong [OF hh(1)])
  then have b: "base s v = p" "v = PHYS_TO_VIRT s p + 8" using v by simp_all
  have up: "unat p = 4096 * frame p" by (rule unat_page [OF f(2)])
  have ok1: "heap_ok s1" using heap_ok_frame [OF ok f(5)] f(4) by blast
  have nf: "frame p < nframes s1"
    using f(3) npages_small(2) [OF sm] pmm_frame_nframes [OF f(5)]
    by (simp add: in_bitmap_def unat_gt_0 [symmetric] word_gt_0)
  have reg: "bmp_region (page_bmp s1) s1 = bmp_region (page_bmp s) s"
    using hh bmp_region_cong [of s1 s] by simp
  then have nb: "frame p \<notin> frame ` bmp_region (page_bmp s1) s1"
    using f(8) ok by (auto simp: heap_ok_def)
  note st = store_free_page [OF ok1 up nf nb, where w = sz, folded s']
  note dw = data_write_facts [OF st(1)]
  have ok1': "pmm_inv s1" using ok1 by (simp add: heap_ok_def)
  show "v = PHYS_TO_VIRT s (base s v) + 8" "base s v = of_nat (frame (base s v)) * 4096"
    "first_free s = Some (frame (base s v))" "frame (base s v) \<notin> used_frames s"
    using b f by simp_all
  show uf: "used_frames s' = used_frames s \<union> frames (base s v) (npages sz)"
    using dw(1) [OF ok1'] f(4) b by simp
  show "heap_ok s'" using dw(6) [OF ok1'] ok1 by simp
  show "balance s' = balance s" using dw(5) [OF ok1'] f(6) by simp
  show hs: "page_bmp s' = page_bmp s" "hhdm_off s' = hhdm_off s" using dw(3,4) [OF ok1'] hh by simp_all
  show "pmm.more s' = pmm.more s"
    using st(1) f(5) unfolding data_write_def pmm_frame_def by (metis pmm.select_convs(6) pmm.surjective pmm.update_convs machine.update_convs(1))
  show "pmem s' q = pmem s q" if "q \<notin> bmp_region (page_bmp s) s" "q \<notin> prange (base s v) 8"
    using st(3) [of q] f(5) that b by (simp add: pmm_frame_def)
  have "v \<noteq> NULL" using virt_not_null [OF ok1 nf] v by simp
  moreover have "base s' v = p" using base_cong [OF hs(2)] b by simp
  ultimately show "block s' v sz"
    using sm st(2) up uf b f(9) hs pv v by (simp add: block_def)
qed

section \<open>free\<close>

text \<open>The block keeps clear of the bitmap's own frames.\<close>

definition off_bitmap :: "'z pmm_scheme \<Rightarrow> ptr \<Rightarrow> usize \<Rightarrow> bool" where
  "off_bitmap s v sz \<longleftrightarrow> frames (base s v) (npages sz) \<inter> frame ` bmp_region (page_bmp s) s = {}"

lemma free_block:
  assumes "block s v sz"
  shows "free v s = snd (free_pages (base s v) (npages sz) s)"
  using assms by (simp add: free_def block_def base_def npages_def Let_def)

lemma free_facts:
  assumes ok: "heap_ok s" and b: "block s v sz"
  shows "used_frames (free v s) = used_frames s - frames (base s v) (npages sz)"
    "pmm_frame s (free v s)" "balance (free v s) = balance s"
    "off_bitmap s v sz \<Longrightarrow> heap_ok (free v s)"
    "\<exists>n \<le> frame (base s v). first_free (free v s) = Some n"
proof -
  have inv: "pmm_inv s" using ok by (simp add: heap_ok_def)
  have fr: "frames (base s v) (npages sz) \<subseteq> used_frames s" and nz: "npages sz \<noteq> 0"
    using b npages_small(2) by (auto simp: block_def)
  note f = free_pages_used [OF inv fr nz, folded free_block [OF b]]
  show uf: "used_frames (free v s) = used_frames s - frames (base s v) (npages sz)"
    "pmm_frame s (free v s)" "balance (free v s) = balance s"
    by (rule f)+
  have reg: "bmp_region (page_bmp (free v s)) (free v s) = bmp_region (page_bmp s) s"
    using f(2) bmp_region_cong [of "free v s" s] by (simp add: pmm_frame_def)
  show "heap_ok (free v s)" if "off_bitmap s v sz"
    using ok uf that reg pmm_inv_frame [OF f(2)] pmm_frame_nframes [OF f(2)] f(2)
    unfolding heap_ok_def off_bitmap_def pmm_frame_def by auto
  have "frame (base s v) \<in> frames (base s v) (npages sz)"
    using nz by (simp add: frames_def unat_gt_0)
  then have "\<not> used (free v s) (frame (base s v))"
    using uf fr pmm_frame_nframes [OF f(2)] by (auto simp: used_frames_def)
  then show "\<exists>n \<le> frame (base s v). first_free (free v s) = Some n"
    using b f(2) unfolding block_def pmm_frame_def
    by (metis first_free_None_iff first_free_Some_iff not_le_imp_less not_None_eq)
qed

text \<open>
  \<open>malloc\<close> followed by \<open>free\<close> gives the used frames back if the whole range was free
  beforehand; a block of one page always satisfies this.
\<close>

lemma malloc_free:
  assumes "heap_ok s" "small sz" "malloc sz s = Inr (v, s')"
    and "frames (base s v) (npages sz) \<inter> used_frames s = {}"
  shows "used_frames (free v s') = used_frames s" "balance (free v s') = balance s"
proof -
  note m = malloc_facts [OF assms(1-3)]
  note f = free_facts [OF m(7,6)]
  have "base s' v = base s v" by (rule base_cong [OF m(11)])
  then show "used_frames (free v s') = used_frames s" using f(1) m(5) assms(4) by auto
  show "balance (free v s') = balance s" using f(3) m(8) by simp
qed

lemma one_page:
  assumes "heap_ok s" "unat sz < 4096" "malloc sz s = Inr (v, s')"
  shows "frames (base s v) (npages sz) \<inter> used_frames s = {}"
proof -
  have sm: "small sz" using assms(2) by (simp add: small_def)
  have "sz div 4096 = 0" using assms(2) by (simp add: word_unat_eq_iff unat_div_u64)
  then have "npages sz = 1" by (simp add: npages_def)
  then show ?thesis using malloc_facts(4) [OF assms(1) sm assms(3)] by simp
qed

text \<open>The bytes of a block after its header.\<close>

definition payload :: "'z pmm_scheme \<Rightarrow> ptr \<Rightarrow> nat \<Rightarrow> u64 set" where
  "payload s v n = prange (base s v + 8) n"

lemma payload_span:
  assumes "heap_ok s" "frame (base s v) < nframes s" "unat (base s v) = 4096 * frame (base s v)" "n < 2 ^ 31"
  shows "span (hhdm_off s) v n (base s v + 8)" "unat (base s v + 8) = unat (base s v) + 8"
proof -
  have lt: "unat (base s v) + 8 + n \<le> 4096 * nframes s + 2 ^ 32"
    using frame_bound [OF assms(2)] assms(4) by simp
  have "unat (base s v) + 8 < 18446744073709551616"
    using assms(1) frame_bound [OF assms(2)] by (simp add: heap_ok_def)
  then show u: "unat (base s v + 8) = unat (base s v) + 8" by (simp add: unat_add_no_wrap)
  have "span (hhdm_off s) (PHYS_TO_VIRT s (base s v + 8)) n (base s v + 8)"
    using lt u by (intro heap_span [OF assms(1)]) simp
  moreover have "PHYS_TO_VIRT s (base s v + 8) = v"
    by (simp add: PHYS_TO_VIRT_def base_def VIRT_TO_PHYS_def)
  ultimately show "span (hhdm_off s) v n (base s v + 8)" by simp
qed

section \<open>realloc\<close>

text \<open>
  \<open>realloc\<close> frees the old block before it allocates the new one and copies from the freed
  memory. The data survives: the freed range makes the search return a page at or below the
  old one, the new header lies below the old data, and the forward copy is safe for a
  destination at or below its source.
\<close>

lemma realloc_steps:
  assumes "realloc old sz s = Inr (v, s')" "block s old osz"
  obtains s2 where "malloc sz (free old s) = Inr (v, s2)"
    "s' = memcpy v old (if osz < sz then osz else sz) s2"
  using assms by (auto simp: realloc_def then_do_Inr_iff block_def Let_def)

lemma realloc_preserves:
  assumes ok: "heap_ok s" and b: "block s old osz" and ob: "off_bitmap s old osz"
    and sm: "small sz" and pay: "payload s old (unat osz) \<inter> bmp_region (page_bmp s) s = {}"
    and r: "realloc old sz s = Inr (v, s')"
  defines "k \<equiv> (if osz < sz then osz else sz)"
  shows "load_bytes s' v (unat k) = load_bytes s old (unat k)"
    and "frame (base s v) \<le> frame (base s old)"
proof -
  obtain s2 where m: "malloc sz (free old s) = Inr (v, s2)" and s': "s' = memcpy v old k s2"
    using realloc_steps [OF r b] unfolding k_def by blast
  let ?s1 = "free old s"
  note f = free_facts [OF ok b]
  have hs: "hhdm_off ?s1 = hhdm_off s" "page_bmp ?s1 = page_bmp s" using f(2) by (simp_all add: pmm_frame_def)
  have bs: "base ?s1 x = base s x" for x by (rule base_cong [OF hs(1)])
  note mf = malloc_facts [OF f(4) [OF ob] sm m, unfolded bs]
  have fle: "frame (base s v) \<le> frame (base s old)" using f(5) mf(3) by auto
  then show "frame (base s v) \<le> frame (base s old)" .
  have kb: "unat k < 2 ^ 31" "unat k \<le> unat osz"
    using b sm by (auto simp: k_def block_def small_def word_less_nat_alt)
  have nfo: "frame (base s old) < nframes s" using b ok by (auto simp: block_def heap_ok_def intro: scanned_frame)
  have uo: "unat (base s old) = 4096 * frame (base s old)" using b by (simp add: block_def)
  have uv: "unat (base s v) = 4096 * frame (base s v)" by (rule unat_page [OF mf(2)])
  note po = payload_span [OF ok nfo uo kb(1)]
  note pv = payload_span [OF ok le_less_trans [OF fle nfo] uv kb(1)]
  have h2: "hhdm_off s2 = hhdm_off s" using mf(11) hs by simp
  have src: "pmem s2 q = pmem s q" if q: "q \<in> prange (base s old + 8) (unat k)" for q
  proof -
    have "q \<in> payload s old (unat osz)"
      using q kb(2) prange_subset [of "base s old + 8" "base s old + 8" "unat k" "unat osz"]
      by (auto simp: payload_def)
    then have nb: "q \<notin> bmp_region (page_bmp s) s" using pay by blast
    have "q \<notin> prange (base s v) 8"
    proof -
      have "unat (base s v) \<le> unat (base s old)" using uo uv fle by simp
      then show ?thesis using q po(2) by (auto simp: prange_def)
    qed
    moreover have "bmp_region (page_bmp ?s1) ?s1 = bmp_region (page_bmp s) s"
      using hs bmp_region_cong [of ?s1 s] by simp
    ultimately have "pmem s2 q = pmem ?s1 q" using mf(12) [of q] nb by simp
    then show ?thesis using f(2) nb by (simp add: pmm_frame_def)
  qed
  have "unat (base s v + 8) \<le> unat (base s old + 8)" using po(2) pv(2) uo uv fle by simp
  then have "load_bytes s' v (unat k) = load_bytes s2 old (unat k)"
    unfolding s' using po(1) pv(1) h2 by (intro memcpy_delivers) auto
  also have "\<dots> = load_bytes s old (unat k)"
    using load_bytes_cong [OF po(1), of s2] h2 src by simp
  finally show "load_bytes s' v (unat k) = load_bytes s old (unat k)" .
qed

section \<open>Blocks of one page\<close>

text \<open>
  A block whose header and data fit in one page. Its page is clear of the bitmap, and no
  store into the block reaches another page.
\<close>

definition page_block :: "'z pmm_scheme \<Rightarrow> ptr \<Rightarrow> nat \<Rightarrow> bool" where
  "page_block s v n \<longleftrightarrow> block s v (of_nat n) \<and> n \<le> 4088 \<and>
     frame (base s v) \<notin> frame ` bmp_region (page_bmp s) s"

definition page_of :: "'z pmm_scheme \<Rightarrow> ptr \<Rightarrow> nat" where
  "page_of s v = frame (base s v)"

lemma unat_4088: "n \<le> 4088 \<Longrightarrow> unat (of_nat n :: u64) = n"
  by (intro unat_of_nat_u64) simp

lemma npages_1: "n \<le> 4088 \<Longrightarrow> npages (of_nat n) = 1"
proof -
  assume "n \<le> 4088"
  then have "(of_nat n :: u64) div 4096 = 0" by (simp add: word_unat_eq_iff unat_div_u64 unat_4088)
  then show ?thesis by (simp add: npages_def)
qed

lemma small_4088: "n \<le> 4088 \<Longrightarrow> small (of_nat n)"
  by (simp add: small_def unat_4088)

lemma page_block_unique: "page_block s v n \<Longrightarrow> page_block s v m \<Longrightarrow> n = m"
  unfolding page_block_def block_def by (metis unat_4088)

lemma page_block_facts:
  assumes "heap_ok s" "page_block s v n"
  shows "unat (base s v) = 4096 * page_of s v" "page_of s v < nframes s" "page_of s v \<in> used_frames s"
    "span (hhdm_off s) v n (base s v + 8)" "unat (base s v + 8) = 4096 * page_of s v + 8"
    "span (hhdm_off s) (v - 8) 8 (base s v)" "off_bitmap s v (of_nat n)"
    "v \<noteq> NULL" "load64 s (v - 8) = of_nat n"
    "q \<in> bmp_region (page_bmp s) s \<Longrightarrow> frame q \<noteq> page_of s v"
proof -
  have n: "n \<le> 4088" and b: "block s v (of_nat n)" and nb: "frame (base s v) \<notin> frame ` bmp_region (page_bmp s) s"
    using assms(2) by (auto simp: page_block_def)
  show u: "unat (base s v) = 4096 * page_of s v" "v \<noteq> NULL" "load64 s (v - 8) = of_nat n"
    using b by (auto simp: block_def page_of_def)
  show uf: "page_of s v \<in> used_frames s" using b npages_1 [OF n] by (simp add: block_def page_of_def)
  then show nf: "page_of s v < nframes s" by (simp add: used_frames_def)
  note ps = payload_span [OF assms(1) nf [unfolded page_of_def] u(1) [unfolded page_of_def], of n]
  show "span (hhdm_off s) v n (base s v + 8)" "unat (base s v + 8) = 4096 * page_of s v + 8"
    using ps n u(1) by simp_all
  have "unat (base s v) + 8 \<le> 4096 * nframes s + 2 ^ 32"
    using frame_bound [OF nf [unfolded page_of_def]] by simp
  from heap_span [OF assms(1) this] show "span (hhdm_off s) (v - 8) 8 (base s v)" by simp
  show "off_bitmap s v (of_nat n)" using nb npages_1 [OF n] by (simp add: off_bitmap_def)
  show "q \<in> bmp_region (page_bmp s) s \<Longrightarrow> frame q \<noteq> page_of s v" using nb unfolding page_of_def by (metis imageI)
qed

text \<open>A change of memory that spares the bitmap and the page of a block keeps that block.\<close>

lemma frame_in_block:
  assumes "heap_ok s" "page_block s v n" "q \<in> prange (base s v + 8) n \<or> q \<in> prange (base s v) 8"
  shows "frame q = page_of s v"
proof -
  note f = page_block_facts [OF assms(1,2)]
  have "n \<le> 4088" using assms(2) by (simp add: page_block_def)
  then have "4096 * page_of s v \<le> unat q" "unat q < 4096 * page_of s v + 4096"
    using assms(3) f(1,5) by (auto simp: prange_def)
  then show ?thesis unfolding frame_def by (intro div_nat_eqI) simp_all
qed

lemma page_block_keep:
  assumes ok: "heap_ok s" and b: "page_block s u k"
    and t: "hhdm_off t = hhdm_off s" "page_bmp t = page_bmp s" "page_of s u \<in> used_frames t"
    and m: "\<And>q. frame q = page_of s u \<Longrightarrow> pmem t q = pmem s q"
  shows "page_block t u k" "page_of t u = page_of s u" "load_bytes t u k = load_bytes s u k"
proof -
  note f = page_block_facts [OF ok b]
  have bs: "base t u = base s u" by (rule base_cong [OF t(1)])
  then show "page_of t u = page_of s u" by (simp add: page_of_def)
  have n: "k \<le> 4088" using b by (simp add: page_block_def)
  have ld: "load64 t (u - 8) = load64 s (u - 8)"
    by (rule load64_cong [OF f(6) t(1)]) (use m frame_in_block [OF ok b] in blast)
  have reg: "bmp_region (page_bmp t) t = bmp_region (page_bmp s) s"
    using t bmp_region_cong [of t s] by simp
  show "page_block t u k"
    using b t ld bs reg npages_1 [OF n] by (simp add: page_block_def block_def page_of_def)
  show "load_bytes t u k = load_bytes s u k"
    by (rule load_bytes_cong [OF f(4) t(1)]) (use m frame_in_block [OF ok b] in blast)
qed

text \<open>A change of memory inside the data of a block.\<close>

lemma page_block_write:
  assumes ok: "heap_ok s" and b: "page_block s v n"
    and m: "\<And>q. q \<notin> prange (base s v + 8) n \<Longrightarrow> m q = pmem s q"
  defines "t \<equiv> s\<lparr>pmem := m\<rparr>"
  shows "heap_ok t" "page_block t v n" "used_frames t = used_frames s"
    "page_block s u k \<Longrightarrow> page_of s u \<noteq> page_of s v \<Longrightarrow> page_block t u k \<and> load_bytes t u k = load_bytes s u k"
proof -
  note f = page_block_facts [OF ok b]
  have out: "m q = pmem s q" if "frame q \<noteq> page_of s v" for q
    using that m frame_in_block [OF ok b] by blast
  have dw: "data_write s t" unfolding data_write_def t_def using out f(10) by auto
  have pok: "pmm_inv s" using ok by (simp add: heap_ok_def)
  note d = data_write_facts [OF dw pok]
  show "heap_ok t" using d(6) ok by simp
  show uf: "used_frames t = used_frames s" by (rule d(1))
  have "load64 t (v - 8) = load64 s (v - 8)"
  proof (rule load64_cong [OF f(6) d(4)])
    fix q assume "q \<in> prange (base s v) 8"
    then have "q \<notin> prange (base s v + 8) n" using f(1,5) by (auto simp: prange_def)
    then show "pmem t q = pmem s q" using m by (simp add: t_def)
  qed
  moreover have "base t v = base s v" by (rule base_cong [OF d(4)])
  moreover have "bmp_region (page_bmp t) t = bmp_region (page_bmp s) s"
    using d(3,4) bmp_region_cong [of t s] by simp
  ultimately show "page_block t v n" using b d uf by (simp add: page_block_def block_def)
  show "page_block t u k \<and> load_bytes t u k = load_bytes s u k"
    if "page_block s u k" "page_of s u \<noteq> page_of s v"
    using page_block_keep [OF ok that(1) d(4,3)] page_block_facts(3) [OF ok that(1)] out uf that(2)
    by (simp add: t_def)
qed

section \<open>realloc of blocks of one page\<close>

lemma realloc_free_malloc:
  "realloc v sz s = Inr (w, t) \<longleftrightarrow>
    (\<exists>s2. malloc sz (free v s) = Inr (w, s2) \<and>
       t = memcpy w v (if load64 s (v - 8) < sz then load64 s (v - 8) else sz) s2)"
  by (auto simp: realloc_def then_do_Inr_iff Let_def)

text \<open>The state after \<open>free\<close> of \<open>NULL\<close> or of a block.\<close>

definition released :: "'z pmm_scheme \<Rightarrow> ptr \<Rightarrow> nat set" where
  "released s v = (if v = NULL then {} else {page_of s v})"

lemma free_released:
  assumes ok: "heap_ok s" and v: "v = NULL \<or> page_block s v n"
  shows "heap_ok (free v s)" "used_frames (free v s) = used_frames s - released s v"
    "hhdm_off (free v s) = hhdm_off s" "page_bmp (free v s) = page_bmp s"
    "q \<notin> bmp_region (page_bmp s) s \<Longrightarrow> pmem (free v s) q = pmem s q"
    "pmm.more (free v s) = pmm.more s" "balance (free v s) = balance s"
proof -
  have all: "heap_ok (free v s) \<and> used_frames (free v s) = used_frames s - released s v \<and>
     pmm_frame s (free v s) \<and> balance (free v s) = balance s"
  proof (cases "v = NULL")
    case True
    then show ?thesis using ok by (simp add: free_def released_def pmm_frame_def)
  next
    case False
    with v have b: "page_block s v n" by simp
    then have "block s v (of_nat n)" "n \<le> 4088" by (auto simp: page_block_def)
    note f = free_facts [OF ok this(1)] page_block_facts(7) [OF ok b] npages_1 [OF this(2)]
    show ?thesis using f False by (simp add: released_def page_of_def)
  qed
  then show "heap_ok (free v s)" "used_frames (free v s) = used_frames s - released s v"
    "hhdm_off (free v s) = hhdm_off s" "page_bmp (free v s) = page_bmp s" "balance (free v s) = balance s"
    by (simp_all add: pmm_frame_def)
  show "q \<notin> bmp_region (page_bmp s) s \<Longrightarrow> pmem (free v s) q = pmem s q" "pmm.more (free v s) = pmm.more s"
    using all by (auto simp: pmm_frame_def)
qed

lemma malloc_page:
  assumes "heap_ok s" "m \<le> 4088" "malloc (of_nat m) s = Inr (w, t)"
  shows "heap_ok t" "page_block t w m" "page_of t w \<notin> used_frames s"
    "used_frames t = insert (page_of t w) (used_frames s)" "page_of t w = page_of s w"
    "hhdm_off t = hhdm_off s" "page_bmp t = page_bmp s" "pmm.more t = pmm.more s"
    "q \<notin> bmp_region (page_bmp s) s \<Longrightarrow> frame q \<noteq> page_of t w \<Longrightarrow> pmem t q = pmem s q"
    "balance t = balance s"
proof -
  note mf = malloc_facts [OF assms(1) small_4088 [OF assms(2)] assms(3)]
  note n1 = npages_1 [OF assms(2)]
  have bs: "base t w = base s w" by (rule base_cong [OF mf(11)])
  then show p: "page_of t w = page_of s w" by (simp add: page_of_def)
  show "heap_ok t" "hhdm_off t = hhdm_off s" "page_bmp t = page_bmp s" "pmm.more t = pmm.more s"
    "balance t = balance s"
    by (rule mf)+
  show fresh: "page_of t w \<notin> used_frames s" using mf(4) p by (simp add: page_of_def)
  show "used_frames t = insert (page_of t w) (used_frames s)"
    using mf(5) n1 p by (simp add: page_of_def)
  have reg: "bmp_region (page_bmp t) t = bmp_region (page_bmp s) s"
    using mf(10,11) bmp_region_cong [of t s] by simp
  have "frame (base s w) \<notin> frame ` bmp_region (page_bmp s) s"
    using assms(1) mf(4) by (auto simp: heap_ok_def)
  then show "page_block t w m" using mf(6) assms(2) bs reg by (simp add: page_block_def)
  show "pmem t q = pmem s q" if "q \<notin> bmp_region (page_bmp s) s" "frame q \<noteq> page_of t w"
  proof (rule mf(12) [OF that(1)])
    have "unat (base s w) = 4096 * frame (base s w)" by (rule unat_page [OF mf(2)])
    from frame_in_page [OF this, of q 8] show "q \<notin> prange (base s w) 8"
      using that(2) p by (auto simp: page_of_def)
  qed
qed

lemma realloc_page:
  assumes ok: "heap_ok s" and v: "v = NULL \<or> page_block s v n" and m: "m \<le> 4088"
    and r: "realloc v (of_nat m) s = Inr (w, t)"
  shows "heap_ok t" "page_block t w m" "used_frames t = insert (page_of t w) (used_frames s - released s v)"
    "page_of t w \<notin> used_frames s - released s v" "hhdm_off t = hhdm_off s" "page_bmp t = page_bmp s"
    "pmm.more t = pmm.more s" "balance t = balance s"
    "q \<notin> bmp_region (page_bmp s) s \<Longrightarrow> frame q \<noteq> page_of t w \<Longrightarrow> pmem t q = pmem s q"
proof -
  let ?k = "if load64 s (v - 8) < of_nat m then load64 s (v - 8) else of_nat m"
  obtain s2 where s2: "malloc (of_nat m) (free v s) = Inr (w, s2)" and t: "t = memcpy w v ?k s2"
    using r by (auto simp: realloc_free_malloc)
  note f = free_released [OF ok v]
  note mp = malloc_page [OF f(1) m s2]
  note pb = page_block_facts [OF mp(1,2)]
  have km: "unat ?k \<le> m" using unat_4088 [OF m] by (auto simp: word_less_nat_alt)
  have sp: "span (hhdm_off s2) w (unat ?k) (base s2 w + 8)" by (rule span_mono [OF pb(4) km])
  have out: "pmem t q = pmem s2 q" if "q \<notin> prange (base s2 w + 8) m" for q
  proof -
    have "q \<notin> prange (base s2 w + 8) (unat ?k)" using that km by (auto simp: prange_def)
    then show ?thesis unfolding t by (rule pmem_memcpy_other [OF sp])
  qed
  have t2: "t = s2\<lparr>pmem := pmem t\<rparr>" unfolding t by (rule memcpy_pmem_only)
  note w = page_block_write [OF mp(1,2), of "pmem t", OF out, folded t2]
  show "heap_ok t" by (rule w(1))
  show "page_block t w m" by (rule w(2))
  obtain mm where tm: "t = s2\<lparr>pmem := mm\<rparr>" using t2 by blast
  then have same: "hhdm_off t = hhdm_off s2" "page_bmp t = page_bmp s2" "pmm.more t = pmm.more s2"
    by simp_all
  have bal: "balance t = balance s2" using w(3) tm by (simp add: balance_def used_bytes_def)
  have pt: "page_of t w = page_of s2 w" using base_cong [OF same(1)] by (simp add: page_of_def)
  show "used_frames t = insert (page_of t w) (used_frames s - released s v)"
    "page_of t w \<notin> used_frames s - released s v"
    using w(3) mp(3,4) f(2) pt by simp_all
  show "hhdm_off t = hhdm_off s" "page_bmp t = page_bmp s" "pmm.more t = pmm.more s" "balance t = balance s"
    using same bal mp(6-8,10) f by simp_all
  show "pmem t q = pmem s q" if q: "q \<notin> bmp_region (page_bmp s) s" "frame q \<noteq> page_of t w"
  proof -
    have "q \<notin> prange (base s2 w + 8) m" using frame_in_block [OF mp(1,2)] q(2) pt by auto
    moreover have "bmp_region (page_bmp (free v s)) (free v s) = bmp_region (page_bmp s) s"
      using f(3,4) bmp_region_cong [of "free v s" s] by simp
    ultimately show ?thesis using out mp(9) q f(5) pt by simp
  qed
qed

lemma realloc_page_bytes:
  assumes ok: "heap_ok s" and v: "page_block s v n" and m: "m \<le> 4088"
    and r: "realloc v (of_nat m) s = Inr (w, t)" and j: "j \<le> n" "j \<le> m"
  shows "load_bytes t w j = load_bytes s v j"
proof -
  have b: "block s v (of_nat n)" "n \<le> 4088" using v by (auto simp: page_block_def)
  note f = page_block_facts [OF ok v]
  have "q \<notin> bmp_region (page_bmp s) s" if "q \<in> prange (base s v + 8) n" for q
    using frame_in_block [OF ok v, of q] that by (auto dest: f(10))
  then have "payload s v (unat (of_nat n :: u64)) \<inter> bmp_region (page_bmp s) s = {}"
    unfolding payload_def unat_4088 [OF b(2)] by blast
  from realloc_preserves(1) [OF ok b(1) f(7) small_4088 [OF m] this r]
  have "load_bytes t w (min n m) = load_bytes s v (min n m)"
    using unat_4088 [OF b(2)] unat_4088 [OF m] by (auto simp: word_less_nat_alt min_def split: if_splits)
  then have "take j (load_bytes t w (min n m)) = take j (load_bytes s v (min n m))" by simp
  then show ?thesis using j by (simp add: take_load_bytes)
qed

lemma realloc_page_other:
  assumes ok: "heap_ok s" and v: "v = NULL \<or> page_block s v n \<and> page_of s u \<noteq> page_of s v"
    and m: "m \<le> 4088" and r: "realloc v (of_nat m) s = Inr (w, t)" and u: "page_block s u k"
  shows "page_block t u k" "page_of t u = page_of s u" "page_of t w \<noteq> page_of s u"
    "load_bytes t u k = load_bytes s u k"
proof -
  have v': "v = NULL \<or> page_block s v n" using v by blast
  note rp = realloc_page [OF ok v' m r]
  note f = page_block_facts [OF ok u]
  have in_u: "page_of s u \<in> used_frames s - released s v" using f(3) v by (auto simp: released_def)
  then show ne: "page_of t w \<noteq> page_of s u" using rp(4) by metis
  have uf: "page_of s u \<in> used_frames t" using in_u rp(3) by blast
  have "pmem t q = pmem s q" if "frame q = page_of s u" for q
    using rp(9) [of q] f(10) [of q] that ne by auto
  then show "page_block t u k" "page_of t u = page_of s u" "load_bytes t u k = load_bytes s u k"
    using page_block_keep [OF ok u rp(5,6) uf] by simp_all
qed

lemma store_in_block:
  assumes ok: "heap_ok s" and v: "page_block s v n" and i: "i + length bs \<le> n"
  defines "t \<equiv> store_bytes (v + of_nat i) bs s"
  shows "heap_ok t" "page_block t v n" "used_frames t = used_frames s"
    "load_bytes t v n = take i (load_bytes s v n) @ bs @ drop (i + length bs) (load_bytes s v n)"
    "page_block s u k \<Longrightarrow> page_of s u \<noteq> page_of s v \<Longrightarrow> page_block t u k \<and> load_bytes t u k = load_bytes s u k"
    "page_of t u = page_of s u"
proof -
  note f = page_block_facts [OF ok v]
  have sp: "span (hhdm_off s) (v + of_nat i) (length bs) (base s v + 8 + of_nat i)"
    by (rule span_shift [OF f(4) i])
  have out: "pmem t q = pmem s q" if "q \<notin> prange (base s v + 8) n" for q
  proof -
    have "q \<notin> prange (base s v + 8 + of_nat i) (length bs)"
    proof (cases bs)
      case (Cons x xs)
      then have "unat (base s v + 8 + of_nat i) = unat (base s v + 8) + i"
        using span_bound [OF f(4)] i by (intro unat_add_of_nat) simp
      then show ?thesis using that i by (auto simp: prange_def)
    qed simp
    then show ?thesis unfolding t_def by (rule pmem_store_bytes_other [OF sp])
  qed
  have t2: "t = s\<lparr>pmem := pmem t\<rparr>" unfolding t_def by (rule store_bytes_pmem_only)
  note w = page_block_write [OF ok v, of "pmem t", OF out, folded t2]
  show "heap_ok t" by (rule w(1))
  show "page_block t v n" by (rule w(2))
  show "used_frames t = used_frames s" by (rule w(3))
  show "page_block s u k \<Longrightarrow> page_of s u \<noteq> page_of s v \<Longrightarrow> page_block t u k \<and> load_bytes t u k = load_bytes s u k"
    by (rule w(4))
  show "load_bytes t v n = take i (load_bytes s v n) @ bs @ drop (i + length bs) (load_bytes s v n)"
    unfolding t_def by (rule load_bytes_store_inside [OF f(4) i])
  have "hhdm_off t = hhdm_off s" by (simp add: t_def)
  from base_cong [OF this] show "page_of t u = page_of s u" by (simp add: page_of_def)
qed

interpretation hp: page_blocks heap_ok page_block page_of load_bytes realloc store_bytes
proof unfold_locales
  fix s :: "'a pmm_scheme" and v w u :: ptr and n m j k i :: nat and t :: "'a pmm_scheme" and bs :: "u8 list"
  assume a: "heap_ok s"
  { assume "v = NULL \<or> page_block s v n" "m \<le> 4088" "realloc v (of_nat m) s = Inr (w, t)"
    from realloc_page(1,2) [OF a this] show "heap_ok t \<and> page_block t w m" by blast }
  { assume "page_block s v n" "m \<le> 4088" "realloc v (of_nat m) s = Inr (w, t)" "j \<le> n" "j \<le> m"
    from realloc_page_bytes [OF a this] show "load_bytes t w j = load_bytes s v j" . }
  { assume "v = NULL \<or> page_block s v n \<and> page_of s u \<noteq> page_of s v" "m \<le> 4088"
      "realloc v (of_nat m) s = Inr (w, t)" "page_block s u k"
    from realloc_page_other [OF a this]
    show "page_block t u k \<and> page_of t u = page_of s u \<and> page_of t w \<noteq> page_of s u \<and>
        load_bytes t u k = load_bytes s u k" by blast }
  { assume b: "page_block s v n" "i + length bs \<le> n"
    note st = store_in_block [OF a b]
    show "heap_ok (store_bytes (v + of_nat i) bs s) \<and> page_block (store_bytes (v + of_nat i) bs s) v n"
      using st(1,2) by blast
    show "load_bytes (store_bytes (v + of_nat i) bs s) v n =
        take i (load_bytes s v n) @ bs @ drop (i + length bs) (load_bytes s v n)" by (rule st(4))
    show "page_block (store_bytes (v + of_nat i) bs s) u k \<and>
        load_bytes (store_bytes (v + of_nat i) bs s) u k = load_bytes s u k"
      if "page_block s u k" "page_of s u \<noteq> page_of s v" by (rule st(5) [OF that]) }
next
  fix s :: "'a pmm_scheme" and a u :: ptr and bs :: "u8 list"
  have "hhdm_off (store_bytes a bs s) = hhdm_off s" by simp
  from base_cong [OF this] show "page_of (store_bytes a bs s) u = page_of s u" by (simp add: page_of_def)
qed (simp_all add: take_load_bytes)

section \<open>The heap after \<open>pmm_init\<close>\<close>

text \<open>
  \<open>memory_ready\<close>: the memory map is one \<open>pmm_init\<close> accepts, the segment that takes the bitmap starts at
  a page, and the direct map has room for every frame the bitmap numbers and for 4 GiB beyond.
\<close>

definition memory_ready :: "memmap_entry list \<Rightarrow> 'z pmm_scheme \<Rightarrow> bool" where
  "memory_ready entries s \<longleftrightarrow> boot_ok entries s \<and>
     (let bm = init_bitmap entries (free_mem s) in bm_size bm \<noteq> 0 \<and>
        unat (bm_buffer bm) = 4096 * frame (bm_buffer bm) \<and> 4096 * (8 * unat (bm_size bm)) \<le> 2 ^ 47 \<and>
        unat (hhdm_off s) + 4096 * (8 * unat (bm_size bm)) + 2 ^ 32 \<le> 2 ^ 64)"

text \<open>The frames that are used afterwards: those of the bitmap, and those of no free segment.\<close>

definition boot_used :: "memmap_entry list \<Rightarrow> usize \<Rightarrow> nat set" where
  "boot_used entries f = (let bm = init_bitmap entries f in
     {n. n < 8 * unat (bm_size bm) \<and> (n \<in> frames (bm_buffer bm) (bm_size bm div 4096) \<or> n \<notin> free_segments entries)})"

lemma bitmap_whole_pages:
  assumes "unat (bm_size (init_bitmap entries f)) < 2 ^ 60" "bm_size (init_bitmap entries f) \<noteq> 0"
  shows "unat (bm_size (init_bitmap entries f)) = 4096 * unat (bm_size (init_bitmap entries f) div 4096)"
    "4096 \<le> unat (bm_size (init_bitmap entries f))"
proof -
  define k where "k = DIV_ROUND_UP (page_bmp_size (init_result entries f)) 4096"
  have b: "bm_size (init_bitmap entries f) = k * 4096" by (simp add: init_bitmap_def ALIGN_UP_def k_def)
  have "unat k * 4096 < 2 ^ 64"
  proof -
    have "unat k < 2 ^ 52"
      unfolding k_def DIV_ROUND_UP_def unat_div_u64
      using unat_u64_less [of "page_bmp_size (init_result entries f) + (4096 - 1)"] by (simp add: less_mult_imp_div_less)
    then show ?thesis by simp
  qed
  then have u: "unat (k * 4096) = 4096 * unat k" by (simp add: unat_word_ariths)
  then show 1: "unat (bm_size (init_bitmap entries f)) = 4096 * unat (bm_size (init_bitmap entries f) div 4096)"
    unfolding b by (simp add: unat_div_u64)
  have "k \<noteq> 0" using assms(2) unfolding b by auto
  then show "4096 \<le> unat (bm_size (init_bitmap entries f))" unfolding b u by (simp add: unat_eq_zero Suc_le_eq flip: neq0_conv)
qed

lemma pmm_init_heap:
  fixes s :: "'z pmm_scheme"
  assumes "memory_ready entries s"
  defines "bm \<equiv> init_bitmap entries (free_mem s)"
  obtains t where "pmm_init entries s = Inr ((), t)" "heap_ok t" "page_bmp t = bm" "pmm.more t = pmm.more s"
    "hhdm_off t = hhdm_off s" "used_frames t = boot_used entries (free_mem s)"
    "\<And>q. frame q \<notin> frames (bm_buffer bm) (bm_size bm div 4096) \<Longrightarrow> q \<notin> bmp_region bm s \<and> pmem t q = pmem s q"
proof -
  have bo: "boot_ok entries s" and z: "bm_size bm \<noteq> 0" and al: "unat (bm_buffer bm) = 4096 * frame (bm_buffer bm)"
    and room: "unat (hhdm_off s) + 4096 * (8 * unat (bm_size bm)) + 2 ^ 32 \<le> 2 ^ 64"
    using assms(1) by (simp_all add: memory_ready_def bm_def Let_def)
  have sz: "8 * unat (bm_size bm) \<le> 2 ^ 52" "unat (bm_buffer bm) + Suc (unat (bm_size bm)) \<le> unat (hhdm_off s)"
    using bo unfolding boot_ok_def bm_def Let_def by blast+
  have wp: "unat (bm_size bm) = 4096 * unat (bm_size bm div 4096)" "4096 \<le> unat (bm_size bm)"
    using bitmap_whole_pages z sz(1) unfolding bm_def by simp_all
  obtain t where t: "pmm_init entries s = Inr ((), t)" "pmm_ok t" "page_bmp t = bm" "pmm.more t = pmm.more s"
    "hhdm_off t = hhdm_off s" "\<And>q. q \<notin> bmp_region bm s \<Longrightarrow> pmem t q = pmem s q"
    "\<And>n. n < 8 * unat (bm_size bm) \<Longrightarrow> used t n \<longleftrightarrow>
       n \<in> frames (bm_buffer bm) (bm_size bm div 4096) \<or> n \<notin> free_segments entries"
    using pmm_init_facts [OF bo] unfolding bm_def by metis
  have uf: "used_frames t = boot_used entries (free_mem s)"
    using t(3,7) by (auto simp: used_frames_def boot_used_def nframes_def Let_def bm_def)
  have r: "bmp_region bm s = prange (bm_buffer bm) (unat (bm_size bm))"
    by (rule bmp_region_span, rule span_low) (use sz(2) in simp)
  have fr: "frame q \<in> frames (bm_buffer bm) (bm_size bm div 4096)" if "q \<in> bmp_region bm s" for q
  proof -
    have "4096 * frame (bm_buffer bm) \<le> unat q" "unat q < 4096 * (frame (bm_buffer bm) + unat (bm_size bm div 4096))"
      using that al wp(1) by (auto simp: r prange_def)
    then show ?thesis by (auto simp: frames_def frame_def less_mult_imp_div_less mult.commute)
  qed
  have "frame (bm_buffer bm) + unat (bm_size bm div 4096) \<le> 8 * unat (bm_size bm)"
    using bo unfolding boot_ok_def bm_def Let_def by blast
  then have "frames (bm_buffer bm) (bm_size bm div 4096) \<subseteq> used_frames t"
    unfolding uf boot_used_def by (auto simp: frames_def bm_def [symmetric] Let_def)
  moreover have "bmp_region (page_bmp t) t = bmp_region bm s" using bmp_region_cong [OF t(5)] t(3) by simp
  ultimately have "heap_ok t"
    using t(2,3,5) wp(2) room fr by (auto simp: heap_ok_def pmm_inv_def nframes_def)
  then show thesis using that t(1,3,4,5,6) uf fr by blast
qed

text \<open>The heap never moves the bitmap.\<close>

lemma same_pmem: "pmm_same s (t\<lparr>pmem := m\<rparr>) = pmm_same s t"
  by (simp add: pmm_same_def)

lemma same_store64: "pmm_same s (store64 a w t) = pmm_same s t"
  by (subst store64_pmem_only) (rule same_pmem)

lemma malloc_same: "pmm_ok s \<Longrightarrow> malloc sz s = Inr (v, t) \<Longrightarrow> pmm_same s t"
  by (auto simp: malloc_def then_do_Inr_iff Let_def same_store64 dest: request_pages_same)

lemma free_same: "pmm_ok s \<Longrightarrow> pmm_same s (free v s)"
  by (auto simp: free_def Let_def free_pages_same)

lemma realloc_same:
  assumes "pmm_ok s" "realloc v sz s = Inr (p, t)"
  shows "pmm_same s t"
proof -
  note f = free_same [OF assms(1), of v]
  obtain u k where u: "malloc sz (free v s) = Inr (p, u)" "t = memcpy p v k u"
    using assms(2) by (auto simp: realloc_def then_do_Inr_iff Let_def)
  have "pmm_same (free v s) u" by (rule malloc_same [OF _ u(1)]) (use pmm_same_ok [OF f] assms(1) in simp)
  then have "pmm_same s u" by (rule pmm_same_trans [OF f])
  moreover have "t = u\<lparr>pmem := pmem t\<rparr>" unfolding u(2) memcpy_def by (rule memcpy_loop_pmem_only)
  ultimately show ?thesis by (metis same_pmem)
qed

section \<open>The sample machine\<close>

lemma sample_heap_ok: "heap_ok (sample x)"
proof -
  have "frame q \<in> {1, 2}" if "q \<in> prange 0x1000 4096" for q
  proof -
    have "4096 \<le> unat q" "unat q < 8193" using that by (auto simp: prange_def)
    then have "frame q = 1 \<or> frame q = 2" by (auto simp: frame_eq_iff)
    then show ?thesis by blast
  qed
  moreover have "bmp_region (page_bmp (sample x)) (sample x) = prange 0x1000 4096"
    using bmp_region_span [where s = "sample x" and bm = "page_bmp (sample x)" and p = "0x1000"]
      span_mono [OF sample_span [of "0x0F" x], of 4096] by (simp add: sample_def)
  ultimately have "frame ` bmp_region (page_bmp (sample x)) (sample x) \<subseteq> used_frames (sample x)"
    by (auto simp: sample_used_frames)
  then show ?thesis
    using sample_pmm_inv [of x] by (simp add: heap_ok_def sample_def)
qed

text \<open>Allocation succeeds as long as a frame is free.\<close>

lemma malloc_succeeds:
  assumes "heap_ok s" "small sz" "first_free s \<noteq> None"
  obtains v t where "malloc sz s = Inr (v, t)"
  using request_pages_avail [of s "npages sz"] assms npages_small(1) [OF assms(2)] that
  by (auto simp: malloc_def heap_ok_def npages_def Let_def)

lemma malloc_fails:
  assumes "heap_ok s" "small sz" "malloc sz s = Inl e"
  shows "e = Psod HN_ERR_OUT_OF_MEM" "first_free s = None"
proof -
  have r: "request_pages (npages sz) s = Inl e"
    using assms(3) by (auto simp: malloc_def npages_def then_do_def Let_def split: sum.splits)
  have inv: "pmm_ok s" "4096 \<le> unat (bm_size (page_bmp s))" using assms(1) by (simp_all add: heap_ok_def pmm_inv_def)
  show "e = Psod HN_ERR_OUT_OF_MEM" "first_free s = None"
    using r request_pages_eq [OF inv(1) npages_small(1) [OF assms(2)] inv(2)] by (auto split: option.splits)
qed

section \<open>Properties\<close>



text \<open>
  C22. \<open>malloc\<close> followed by \<open>free\<close>, for a block of one page, gives back the set of used frames
  and keeps the byte counters in step with the bitmap.
\<close>

theorem malloc_free_roundtrip:
  assumes "heap_ok s" "unat sz < 4096" "malloc sz s = Inr (v, t)"
  shows "used_frames (free v t) = used_frames s \<and> balance (free v t) = balance s"
  using malloc_free [OF assms(1) _ assms(3) one_page [OF assms]] assms(2) by (simp add: small_def)

theorem malloc_free_roundtrip_witness:
  "\<exists>v t. malloc 100 (sample ()) = Inr (v, t) \<and>
    used_frames (free v t) = used_frames (sample ()) \<and> balance (free v t) = balance (sample ())"
proof -
  obtain v t where m: "malloc 100 (sample ()) = Inr (v, t)"
    using malloc_succeeds [OF sample_heap_ok [of "()"], of 100] sample_first_free [of "()"]
    by (auto simp: small_def)
  from malloc_free_roundtrip [OF sample_heap_ok _ m] m show ?thesis by auto
qed

text \<open>
  C13. \<open>realloc\<close> of a block that fits in its page to a size that does: it never fails, the common
  prefix of the data is kept although the old page is freed before it is read, and every other
  block keeps its place and its data.
\<close>

theorem realloc_spec:
  assumes "heap_ok s" "page_block s v n" "m \<le> 4088"
  shows "\<exists>w t. realloc v (of_nat m) s = Inr (w, t) \<and> heap_ok t \<and> page_block t w m \<and>
    load_bytes t w (min n m) = load_bytes s v (min n m) \<and>
    (\<forall>u k. page_block s u k \<longrightarrow> page_of s u \<noteq> page_of s v \<longrightarrow>
       page_block t u k \<and> load_bytes t u k = load_bytes s u k)"
proof -
  have v: "v = NULL \<or> page_block s v n" using assms(2) by blast
  have b: "block s v (of_nat n)" using assms(2) by (simp add: page_block_def)
  have "first_free (free v s) \<noteq> None" using free_facts(5) [OF assms(1) b] by auto
  then obtain w s2 where "malloc (of_nat m) (free v s) = Inr (w, s2)"
    using malloc_succeeds [OF free_released(1) [OF assms(1) v] small_4088 [OF assms(3)]] by blast
  then obtain t where r: "realloc v (of_nat m) s = Inr (w, t)" by (auto simp: realloc_free_malloc)
  have "page_block t u k \<and> load_bytes t u k = load_bytes s u k"
    if "page_block s u k" "page_of s u \<noteq> page_of s v" for u k
    using realloc_page_other [OF assms(1) _ assms(3) r that(1), of n] assms(2) that(2) by blast
  then show ?thesis
    using r realloc_page(1,2) [OF assms(1) v assms(3) r]
      realloc_page_bytes [OF assms r, of "min n m"] by auto
qed

theorem realloc_spec_witness:
  "\<exists>v s. malloc (of_nat 16) (sample ()) = Inr (v, s) \<and>
    (\<exists>w t. realloc v (of_nat 32) s = Inr (w, t) \<and> heap_ok t \<and> page_block t w 32 \<and>
      load_bytes t w (min 16 32) = load_bytes s v (min 16 32) \<and>
      (\<forall>u k. page_block s u k \<longrightarrow> page_of s u \<noteq> page_of s v \<longrightarrow>
         page_block t u k \<and> load_bytes t u k = load_bytes s u k))"
proof -
  obtain v s where m: "malloc (of_nat 16) (sample ()) = Inr (v, s)"
    using malloc_succeeds [OF sample_heap_ok [of "()"] small_4088 [of 16]] sample_first_free [of "()"] by auto
  have "(16::nat) \<le> 4088" by simp
  note mp = malloc_page [OF sample_heap_ok this m]
  from realloc_spec [OF mp(1,2), of 32] m show ?thesis by (intro exI [of _ v] exI [of _ s]) simp
qed



end
