(* ===== verification/Sched.thy ===== *)
theory Sched
  imports PMM
begin

text \<open>
  Processes and the scheduler: \<open>core/sys/sched/process.h\<close>, \<open>sched.c\<close>, \<open>sched_algo.c\<close>, the
  register frame of \<open>interrupts/ISR.h\<close>, the local APIC timer of \<open>arch/x86_64/LAPIC.c\<close> and
  the timer interrupt \<open>schedule\<close> of \<open>arch/x86_64/constant_isrs.c\<close>.
\<close>

section \<open>State\<close>

record Registers =
  rax :: u64
  rbx :: u64
  rcx :: u64
  rdx :: u64
  rsi :: u64
  rdi :: u64
  rbp :: u64
  r8 :: u64
  r9 :: u64
  r10 :: u64
  r11 :: u64
  r12 :: u64
  r13 :: u64
  r14 :: u64
  r15 :: u64
  interrupt :: u64
  error :: u64
  rip :: u64
  cs :: u64
  rflags :: u64
  rsp :: u64
  ss :: u64

definition zero_regs :: Registers where
  "zero_regs = \<lparr>rax = 0, rbx = 0, rcx = 0, rdx = 0, rsi = 0, rdi = 0, rbp = 0, r8 = 0, r9 = 0,
     r10 = 0, r11 = 0, r12 = 0, r13 = 0, r14 = 0, r15 = 0, interrupt = 0, error = 0, rip = 0,
     cs = 0, rflags = 0, rsp = 0, ss = 0\<rparr>"

text \<open>\<open>process.h\<close>: the numbers of the enum are its position, so zeroed memory is
  \<open>NONEXISTENT\<close>.\<close>

datatype process_state = NONEXISTENT | READY | BLOCKED | DEAD

record process_t =
  state_flags :: process_state
  pname :: ptr
  regs :: Registers
  saved_regs :: Registers
  tty_id :: u32
  pagemap :: u64

definition zero_process :: process_t where
  "zero_process = \<lparr>state_flags = NONEXISTENT, pname = NULL, regs = zero_regs,
     saved_regs = zero_regs, tty_id = 0, pagemap = 0\<rparr>"

text \<open>
  The processor and interrupt-controller state the scheduler writes: \<open>cr3\<close>, the fields
  \<open>pagemap\<close> and \<open>lapic_base\<close> of \<open>hn_data\<close>, the calibrated \<open>ticks\<close>. Writes to the local
  APIC are kept in \<open>mmio\<close>, oldest first. \<open>soft_ints\<close> lists the software interrupts
  (\<open>int $n\<close>) the code has raised; their handler runs as the next step of the machine.
\<close>

record sched = pmm +
  cr3 :: u64
  hn_pagemap :: u64
  lapic_base :: u32
  ticks :: u32
  mmio :: "(u64 \<times> u32) list"
  soft_ints :: "u8 list"
  processes :: "process_t list"
  sched_num_procs :: u32
  sched_current_pid :: u32
  sched_running :: bool

text \<open>Operations of the memory manager leave the scheduler's part of the state alone.\<close>

lemma sched_more:
  assumes "pmm.more s = pmm.more t"
  shows "processes s = processes t" "sched_num_procs s = sched_num_procs t" "hn_pagemap s = hn_pagemap t"
    "sched_current_pid s = sched_current_pid t" "sched_running s = sched_running t" "soft_ints s = soft_ints t"
  using assms by (cases s; cases t; simp)+

section \<open>sched.c\<close>

definition raise_int :: "u8 \<Rightarrow> 'z sched_scheme \<Rightarrow> 'z sched_scheme" where
  "raise_int n s = s\<lparr>soft_ints := soft_ints s @ [n]\<rparr>"

text \<open>Writes to \<open>processes[pid]\<close>: the array has \<open>MAX_PROCESSES\<close> elements.\<close>

definition upd_process ::
    "u32 \<Rightarrow> (process_t \<Rightarrow> process_t) \<Rightarrow> 'z sched_scheme \<Rightarrow> (unit, 'z sched_scheme) result" where
  "upd_process pid f s =
     (if unat pid < length (processes s)
      then Inr ((), s\<lparr>processes := (processes s)[unat pid := f (processes s ! unat pid)]\<rparr>)
      else Inl Oob)"

definition sched_add_process ::
    "ptr \<Rightarrow> Registers \<Rightarrow> u64 \<Rightarrow> 'z sched_scheme \<Rightarrow> (u32, 'z sched_scheme) result" where
  "sched_add_process name init_state pm s =
     (if sched_num_procs s < MAX_PROCESSES then
        then_do (upd_process (sched_num_procs s)
          (\<lambda>p. p\<lparr>pname := name, regs := init_state, pagemap := pm, state_flags := READY\<rparr>) s)
        (\<lambda>_ s. let s = s\<lparr>sched_num_procs := sched_num_procs s + 1\<rparr>
               in Inr (sched_num_procs s - 1, s))
      else Inr (-1, s))"

definition sched_kill :: "u32 \<Rightarrow> 'z sched_scheme \<Rightarrow> (unit, 'z sched_scheme) result" where
  "sched_kill pid s =
     then_do (if pid < MAX_PROCESSES then upd_process pid (\<lambda>p. p\<lparr>state_flags := DEAD\<rparr>) s
              else Inr ((), s))
     (\<lambda>_ s. if sched_current_pid s = pid then Inr ((), raise_int 0x20 s) else Inr ((), s))"

text \<open>The element that \<open>&processes[sched_current_pid]\<close> points to.\<close>

definition sched_get_curr_process :: "'z sched_scheme \<Rightarrow> process_t option" where
  "sched_get_curr_process s =
     (if unat (sched_current_pid s) < length (processes s)
      then Some (processes s ! unat (sched_current_pid s)) else None)"

definition sched_save_state :: "u32 \<Rightarrow> 'z sched_scheme \<Rightarrow> (unit, 'z sched_scheme) result" where
  "sched_save_state pid = upd_process pid (\<lambda>p. p\<lparr>saved_regs := regs p\<rparr>)"

definition sched_restore_state :: "u32 \<Rightarrow> 'z sched_scheme \<Rightarrow> (unit, 'z sched_scheme) result" where
  "sched_restore_state pid s =
     then_do (upd_process pid (\<lambda>p. p\<lparr>regs := saved_regs p\<rparr>) s)
     (\<lambda>_ s. if pid = sched_current_pid s then Inr ((), raise_int 0x20 s) else Inr ((), s))"

definition sched_block :: "u32 \<Rightarrow> 'z sched_scheme \<Rightarrow> (unit, 'z sched_scheme) result" where
  "sched_block pid = upd_process pid (\<lambda>p. p\<lparr>state_flags := BLOCKED\<rparr>)"

definition sched_unblock :: "u32 \<Rightarrow> 'z sched_scheme \<Rightarrow> (unit, 'z sched_scheme) result" where
  "sched_unblock pid = upd_process pid (\<lambda>p. p\<lparr>state_flags := READY\<rparr>)"

section \<open>sched_algo.c\<close>

definition advance_pid :: "'z sched_scheme \<Rightarrow> 'z sched_scheme" where
  "advance_pid s =
     (let s = s\<lparr>sched_current_pid := sched_current_pid s + 1\<rparr> in
      if sched_current_pid s > sched_num_procs s then s\<lparr>sched_current_pid := 0\<rparr> else s)"

definition reap :: "'z sched_scheme \<Rightarrow> 'z sched_scheme" where
  "reap s =
     (if state_flags (processes s ! unat (sched_current_pid s)) = DEAD
      then s\<lparr>processes := (processes s)[unat (sched_current_pid s) := zero_process]\<rparr> else s)"

text \<open>
  The \<open>while\<close> loop ends only at a ready process: \<open>None\<close> is the loop that never ends. Reading
  past the array is \<open>Oob\<close>.
\<close>

partial_function (option) next_loop :: "'z sched_scheme \<Rightarrow> (fault + 'z sched_scheme) option" where
  "next_loop s =
     (if \<not> unat (sched_current_pid s) < length (processes s) then Some (Inl Oob)
      else if state_flags (processes s ! unat (sched_current_pid s)) = READY then Some (Inr s)
      else next_loop (advance_pid (reap s)))"

definition next_process :: "'z sched_scheme \<Rightarrow> (fault + 'z sched_scheme) option" where
  "next_process s = next_loop (advance_pid s)"

section \<open>LAPIC.c: the timer\<close>

abbreviation (input) LAPIC_EOI :: u16 where "LAPIC_EOI \<equiv> 0x0B0"
abbreviation (input) LAPIC_LVT_TMR :: u16 where "LAPIC_LVT_TMR \<equiv> 0x320"
abbreviation (input) LAPIC_TMRINITCNT :: u16 where "LAPIC_TMRINITCNT \<equiv> 0x380"
abbreviation (input) LAPIC_TMRDIV :: u16 where "LAPIC_TMRDIV \<equiv> 0x3E0"
abbreviation (input) LVT_MASKED :: u32 where "LVT_MASKED \<equiv> 0x10000"

definition wreg :: "u16 \<Rightarrow> u32 \<Rightarrow> 'z sched_scheme \<Rightarrow> 'z sched_scheme" where
  "wreg offset val s = s\<lparr>mmio := mmio s @ [(ucast (lapic_base s) + ucast offset, val)]\<rparr>"

definition lapic_timer_stop :: "'z sched_scheme \<Rightarrow> 'z sched_scheme" where
  "lapic_timer_stop s = wreg LAPIC_LVT_TMR LVT_MASKED (wreg LAPIC_TMRINITCNT 0 s)"

definition lapic_timer_oneshot :: "u64 \<Rightarrow> u8 \<Rightarrow> 'z sched_scheme \<Rightarrow> 'z sched_scheme" where
  "lapic_timer_oneshot ms vec s =
     (let s = lapic_timer_stop s;
          s = wreg LAPIC_TMRDIV 0 s;
          s = wreg LAPIC_LVT_TMR (ucast vec) s
      in wreg LAPIC_TMRINITCNT (ucast (ms * ucast (ticks s))) s)"

definition lapic_eoi :: "'z sched_scheme \<Rightarrow> 'z sched_scheme" where
  "lapic_eoi s = wreg LAPIC_EOI 0 s"

section \<open>constant_isrs.c: the timer interrupt\<close>

text \<open>
  \<open>schedule\<close> gets the frame the processor pushed and returns the frame it will load. The
  outer \<open>None\<close> is the endless loop of \<open>next_process\<close>.
\<close>

definition schedule ::
    "Registers \<Rightarrow> 'z sched_scheme \<Rightarrow> (Registers, 'z sched_scheme) result option" where
  "schedule r s =
     (case (if \<not> sched_running s then Inr ((), s\<lparr>sched_running := True\<rparr>)
            else upd_process (sched_current_pid s) (\<lambda>p. p\<lparr>regs := r\<rparr>) s) of
        Inl e \<Rightarrow> Some (Inl e)
      | Inr (_, s) \<Rightarrow>
          (case next_process s of
             None \<Rightarrow> None
           | Some (Inl e) \<Rightarrow> Some (Inl e)
           | Some (Inr s) \<Rightarrow>
               let p = processes s ! unat (sched_current_pid s);
                   s = lapic_timer_oneshot 5 32 s;
                   s = lapic_eoi s
               in Some (Inr (regs p, s\<lparr>cr3 := VIRT_TO_PHYS s (pagemap p)\<rparr>))))"

section \<open>Which process runs next\<close>

text \<open>
  The loop visits the slots 0 to \<open>sched_num_procs\<close>, both included, in cyclic order.
\<close>

definition slots :: "'z sched_scheme \<Rightarrow> nat" where
  "slots s = Suc (unat (sched_num_procs s))"

definition ready :: "'z sched_scheme \<Rightarrow> nat \<Rightarrow> bool" where
  "ready s i \<longleftrightarrow> i < length (processes s) \<and> state_flags (processes s ! i) = READY"

definition sched_ok :: "'z sched_scheme \<Rightarrow> bool" where
  "sched_ok s \<longleftrightarrow> length (processes s) = 64 \<and> slots s \<le> 64"

definition reap_list :: "nat set \<Rightarrow> process_t list \<Rightarrow> process_t list" where
  "reap_list I ps =
     map (\<lambda>i. if i \<in> I \<and> state_flags (ps ! i) = DEAD then zero_process else ps ! i) [0..<length ps]"

lemma length_reap_list [simp]: "length (reap_list I ps) = length ps"
  by (simp add: reap_list_def)

lemma nth_reap_list:
  "i < length ps \<Longrightarrow> reap_list I ps ! i =
    (if i \<in> I \<and> state_flags (ps ! i) = DEAD then zero_process else ps ! i)"
  by (simp add: reap_list_def)

lemma reap_list_empty [simp]: "reap_list {} ps = ps"
  by (simp add: reap_list_def map_nth)

lemma unat_u32_less [simp]: "unat (x :: u32) < 4294967296"
  using unsigned_less [of x] by simp

lemma unat_of_nat_u32: "n < 4294967296 \<Longrightarrow> unat (of_nat n :: u32) = n"
  by (simp add: unat_of_nat take_bit_eq_mod)

lemma advance_pid_next:
  assumes "unat (sched_current_pid s) < slots s"
  shows "advance_pid s = s\<lparr>sched_current_pid := of_nat ((unat (sched_current_pid s) + 1) mod slots s)\<rparr>"
proof (cases "unat (sched_current_pid s) = unat (sched_num_procs s)")
  case True
  show ?thesis
  proof (cases "unat (sched_num_procs s) = 4294967295")
    case True2: True
    then have "sched_current_pid s + 1 = 0"
      using True by (simp add: word_unat_eq_iff unat_word_ariths)
    then show ?thesis using True by (simp add: advance_pid_def slots_def Let_def)
  next
    case False
    then have "Suc (unat (sched_num_procs s)) < 4294967296"
      using unat_u32_less [of "sched_num_procs s"] by linarith
    then have "unat (sched_current_pid s + 1) = unat (sched_num_procs s) + 1"
      using True by (simp add: unat_word_ariths)
    then have "sched_current_pid s + 1 > sched_num_procs s" by (simp add: word_less_nat_alt)
    then show ?thesis using True by (simp add: advance_pid_def slots_def Let_def)
  qed
next
  case False
  then have lt: "unat (sched_current_pid s) < unat (sched_num_procs s)"
    using assms by (simp add: slots_def)
  then have "Suc (unat (sched_current_pid s)) < 4294967296"
    using unat_u32_less [of "sched_num_procs s"] by linarith
  then have u: "unat (sched_current_pid s + 1) = unat (sched_current_pid s) + 1"
    by (simp add: unat_word_ariths)
  then have "\<not> sched_current_pid s + 1 > sched_num_procs s"
    using lt by (simp add: word_less_nat_alt)
  moreover have "sched_current_pid s + 1 = of_nat ((unat (sched_current_pid s) + 1) mod slots s)"
    using lt by (simp add: slots_def)
  ultimately show ?thesis by (simp add: advance_pid_def Let_def)
qed

lemma unat_slot: "c < slots s \<Longrightarrow> unat (of_nat c :: u32) = c"
  using unat_u32_less [of "sched_num_procs s"] unfolding slots_def
  by (intro unat_of_nat_u32) linarith

lemma slots_pos [simp]: "0 < slots s"
  by (simp add: slots_def)

lemma reap_processes:
  "unat (sched_current_pid s) < length (processes s) \<Longrightarrow>
   reap s = s\<lparr>processes := reap_list {unat (sched_current_pid s)} (processes s)\<rparr>"
proof -
  let ?c = "unat (sched_current_pid s)"
  assume "?c < length (processes s)"
  then have "reap_list {?c} (processes s) =
     (if state_flags (processes s ! ?c) = DEAD then (processes s)[?c := zero_process] else processes s)"
    by (auto intro!: nth_equalityI simp: nth_reap_list nth_list_update)
  then show ?thesis by (simp add: reap_def)
qed

lemma reap_list_compose: "reap_list I (reap_list J ps) = reap_list (I \<union> J) ps"
  by (intro nth_equalityI) (auto simp: nth_reap_list zero_process_def)

text \<open>
  From slot \<open>c\<close>, with slot \<open>c + k\<close> the first ready one: the loop stops there, having cleared
  the dead processes on the way and changed nothing else.
\<close>

lemma next_loop_finds:
  assumes "sched_ok s" "c < slots s" "sched_current_pid s = of_nat c"
    and "ready s ((c + k) mod slots s)" "\<And>j. j < k \<Longrightarrow> \<not> ready s ((c + j) mod slots s)"
  shows "next_loop s = Some (Inr (s\<lparr>sched_current_pid := of_nat ((c + k) mod slots s),
     processes := reap_list ((\<lambda>j. (c + j) mod slots s) ` {..<k}) (processes s)\<rparr>))"
  using assms
proof (induction k arbitrary: s c)
  case 0
  have "unat (sched_current_pid s) = c" using 0 unat_slot by simp
  then have "next_loop s = Some (Inr s)"
    using 0 by (subst next_loop.simps) (simp add: ready_def)
  then show ?case using 0 by simp
next
  case (Suc k)
  let ?N = "slots s"
  let ?s1 = "s\<lparr>processes := reap_list {c} (processes s)\<rparr>"
  let ?s2 = "?s1\<lparr>sched_current_pid := of_nat ((c + 1) mod ?N)\<rparr>"
  have uc: "unat (sched_current_pid s) = c" using Suc.prems unat_slot by simp
  have cl: "c < length (processes s)" using Suc.prems by (simp add: sched_ok_def)
  have nr: "\<not> ready s c" using Suc.prems(5) [of 0] Suc.prems(2) by simp
  have sl: "slots ?s2 = ?N" "slots ?s1 = ?N" by (simp_all add: slots_def)
  have rd: "ready ?s2 = ready s"
    by (auto simp: ready_def nth_reap_list zero_process_def fun_eq_iff split: if_splits)
  have "next_loop s = next_loop (advance_pid (reap s))"
    using cl nr uc by (subst next_loop.simps) (simp add: ready_def)
  also have "reap s = ?s1" by (rule reap_processes [of s, unfolded uc, OF cl])
  also have "advance_pid ?s1 = ?s2"
    using advance_pid_next [of ?s1] uc Suc.prems(2) sl by simp
  also have "next_loop ?s2 = Some (Inr (?s2\<lparr>sched_current_pid := of_nat (((c + 1) mod ?N + k) mod ?N),
     processes := reap_list ((\<lambda>j. ((c + 1) mod ?N + j) mod ?N) ` {..<k}) (processes ?s2)\<rparr>))"
    using Suc.IH [of ?s2 "(c + 1) mod ?N"] Suc.prems(1,4) Suc.prems(5) [of "Suc _"] sl rd
    by (simp add: sched_ok_def mod_add_left_eq mod_Suc_eq)
  also have "\<dots> = Some (Inr (s\<lparr>sched_current_pid := of_nat ((c + Suc k) mod ?N),
     processes := reap_list ((\<lambda>j. (c + j) mod ?N) ` {..<Suc k}) (processes s)\<rparr>))"
  proof -
    have "(\<lambda>j. ((c + 1) mod ?N + j) mod ?N) ` {..<k} \<union> {c} = (\<lambda>j. (c + j) mod ?N) ` {..<Suc k}"
      using Suc.prems(2) by (auto simp: mod_add_left_eq lessThan_Suc_eq_insert_0 image_image)
    then show ?thesis by (simp add: reap_list_compose mod_add_left_eq)
  qed
  finally show ?case .
qed

text \<open>The state \<open>next_process\<close> leaves when it stops \<open>k\<close> slots after slot \<open>c\<close>.\<close>

definition picked :: "nat \<Rightarrow> nat \<Rightarrow> 'z sched_scheme \<Rightarrow> 'z sched_scheme" where
  "picked c k s = s\<lparr>sched_current_pid := of_nat ((c + k) mod slots s),
     processes := reap_list ((\<lambda>j. (c + j) mod slots s) ` {1..<k}) (processes s)\<rparr>"

lemma next_process_finds:
  assumes "sched_ok s" "c < slots s" "sched_current_pid s = of_nat c" "1 \<le> k"
    and "ready s ((c + k) mod slots s)" "\<And>j. 1 \<le> j \<Longrightarrow> j < k \<Longrightarrow> \<not> ready s ((c + j) mod slots s)"
  shows "next_process s = Some (Inr (picked c k s))"
proof -
  let ?N = "slots s" and ?c = "(c + 1) mod slots s"
  let ?s1 = "s\<lparr>sched_current_pid := of_nat ?c\<rparr>"
  have "unat (sched_current_pid s) = c" using assms unat_slot by simp
  then have adv: "advance_pid s = ?s1" using advance_pid_next assms(2) by auto
  have same: "slots ?s1 = ?N" "ready ?s1 = ready s" by (simp_all add: slots_def ready_def fun_eq_iff)
  have sh: "(?c + j) mod ?N = (c + Suc j) mod ?N" for j by (simp add: mod_add_left_eq)
  obtain m where m: "k = Suc m" using assms(4) by (cases k) auto
  have ok1: "sched_ok ?s1" using assms(1) same by (simp add: sched_ok_def)
  have "ready ?s1 ((?c + m) mod slots ?s1)" using assms(5) same sh m by simp
  moreover have "\<not> ready ?s1 ((?c + j) mod slots ?s1)" if "j < m" for j
    using assms(6) [of "Suc j"] same sh that m by simp
  ultimately have "next_loop ?s1 = Some (Inr (?s1\<lparr>sched_current_pid := of_nat ((?c + (k - 1)) mod ?N),
     processes := reap_list ((\<lambda>j. (?c + j) mod ?N) ` {..<k - 1}) (processes ?s1)\<rparr>))"
    using next_loop_finds [OF ok1, of ?c m] same m by simp
  moreover have "(\<lambda>j. (?c + j) mod ?N) ` {..<k - 1} = (\<lambda>j. (c + j) mod ?N) ` {1..<k}"
  proof -
    have "{1..<k} = Suc ` {..<k - 1}"
      using m by (simp add: image_Suc_lessThan atLeastLessThanSuc_atLeastAtMost)
    then show ?thesis by (simp only: image_image sh)
  qed
  moreover have "(?c + (k - 1)) mod ?N = (c + k) mod ?N" using sh [of m] m by simp
  ultimately show ?thesis
    by (simp only: next_process_def adv picked_def) simp
qed

text \<open>The number of slots from \<open>c\<close> to \<open>i\<close>, between 1 and the number of slots.\<close>

definition turns :: "nat \<Rightarrow> nat \<Rightarrow> nat \<Rightarrow> nat" where
  "turns N c i = Suc ((i + N - Suc c) mod N)"

lemma turns:
  assumes "c < N" "i < N"
  shows "1 \<le> turns N c i" "turns N c i \<le> N" "(c + turns N c i) mod N = i"
proof -
  show "1 \<le> turns N c i" by (simp add: turns_def)
  show "turns N c i \<le> N" using assms by (simp add: turns_def Suc_le_eq)
  have "(c + turns N c i) mod N = (Suc c + (i + N - Suc c)) mod N"
    by (simp add: turns_def mod_add_right_eq mod_Suc_eq flip: add_Suc)
  also have "Suc c + (i + N - Suc c) = i + N" using assms by simp
  finally show "(c + turns N c i) mod N = i" using assms by simp
qed

lemma first_ready:
  assumes "c < slots s" "i < slots s" "ready s i"
  obtains k where "1 \<le> k" "k \<le> turns (slots s) c i" "ready s ((c + k) mod slots s)"
    "\<And>j. 1 \<le> j \<Longrightarrow> j < k \<Longrightarrow> \<not> ready s ((c + j) mod slots s)"
proof -
  let ?P = "\<lambda>k. 1 \<le> k \<and> ready s ((c + k) mod slots s)"
  have "?P (turns (slots s) c i)" using turns [OF assms(1,2)] assms(3) by simp
  then have "?P (Least ?P)" "Least ?P \<le> turns (slots s) c i"
    by (rule LeastI, rule Least_le)
  moreover have "\<not> ?P j" if "j < Least ?P" for j using not_less_Least that by blast
  ultimately show thesis using that by blast
qed

lemma picked_simps [simp]:
  "slots (picked c k s) = slots s" "ready (picked c k s) = ready s"
  "sched_ok (picked c k s) = sched_ok s"
  by (auto simp: picked_def slots_def ready_def sched_ok_def nth_reap_list zero_process_def
      fun_eq_iff split: if_splits)

lemma sched_current_picked: "sched_current_pid (picked c k s) = of_nat ((c + k) mod slots s)"
  by (simp add: picked_def)

text \<open>Without a ready process the loop never ends.\<close>

lemma next_loop_stuck:
  assumes "next_loop s = Some r" "sched_ok s" "unat (sched_current_pid s) < slots s"
    and "\<forall>i < slots s. \<not> ready s i"
  shows False
proof -
  have "sched_ok s \<and> unat (sched_current_pid s) < slots s \<and> (\<forall>i < slots s. \<not> ready s i) \<longrightarrow> False"
  proof (rule next_loop.raw_induct [where P = "\<lambda>s r. sched_ok s \<and> unat (sched_current_pid s) < slots s \<and>
        (\<forall>i < slots s. \<not> ready s i) \<longrightarrow> False", OF _ assms(1)], rule impI)
    fix f and s :: "'a sched_scheme" and r
    assume IH: "\<And>s r. f s = Some r \<Longrightarrow> sched_ok s \<and> unat (sched_current_pid s) < slots s \<and>
        (\<forall>i < slots s. \<not> ready s i) \<longrightarrow> False"
      and eq: "(if \<not> unat (sched_current_pid s) < length (processes s) then Some (Inl Oob)
         else if state_flags (processes s ! unat (sched_current_pid s)) = READY then Some (Inr s)
         else f (advance_pid (reap s))) = Some r"
      and h: "sched_ok s \<and> unat (sched_current_pid s) < slots s \<and> (\<forall>i < slots s. \<not> ready s i)"
    let ?c = "unat (sched_current_pid s)"
    have cl: "?c < length (processes s)" using h by (simp add: sched_ok_def)
    let ?t = "s\<lparr>processes := reap_list {?c} (processes s)\<rparr>"
    have t: "slots ?t = slots s" "ready ?t = ready s"
      by (auto simp: slots_def ready_def nth_reap_list zero_process_def fun_eq_iff split: if_splits)
    let ?u = "?t\<lparr>sched_current_pid := of_nat ((?c + 1) mod slots s)\<rparr>"
    have u: "slots ?u = slots s" "ready ?u = ready s"
      using t by (simp_all add: slots_def ready_def fun_eq_iff)
    have "\<not> ready s ?c" using h by blast
    then have "f (advance_pid (reap s)) = Some r" using eq cl by (simp add: ready_def)
    moreover have "advance_pid (reap s) = ?u"
      using reap_processes [OF cl] advance_pid_next [of ?t] t h by simp
    ultimately have "f ?u = Some r" by simp
    moreover have "sched_ok ?u" using h u(1) by (simp add: sched_ok_def)
    moreover have "unat (sched_current_pid ?u) < slots ?u"
      using unat_slot [of "(?c + 1) mod slots s" s] u(1) by simp
    moreover have "\<forall>i < slots ?u. \<not> ready ?u i" using h u by simp
    ultimately show False using IH by blast
  qed
  then show False using assms(2-4) by blast
qed

lemma next_process_stuck:
  assumes "sched_ok s" "unat (sched_current_pid s) < slots s" "\<forall>i < slots s. \<not> ready s i"
  shows "next_process s = None"
proof (rule ccontr)
  assume "next_process s \<noteq> None"
  then obtain r where r: "next_loop (advance_pid s) = Some r" by (auto simp: next_process_def)
  let ?s = "s\<lparr>sched_current_pid := of_nat ((unat (sched_current_pid s) + 1) mod slots s)\<rparr>"
  have same: "slots ?s = slots s" "ready ?s = ready s" by (simp_all add: slots_def ready_def fun_eq_iff)
  have adv: "advance_pid s = ?s" by (rule advance_pid_next [OF assms(2)])
  have "unat (sched_current_pid ?s) < slots ?s"
    using unat_slot [of "(unat (sched_current_pid s) + 1) mod slots s" s] same by simp
  then show False
    using next_loop_stuck [of ?s r] r assms same unfolding adv by (simp add: sched_ok_def)
qed

section \<open>Fairness\<close>

text \<open>\<open>n\<close> runs of \<open>next_process\<close>, one after the other.\<close>

primrec run_next :: "nat \<Rightarrow> 'z sched_scheme \<Rightarrow> (fault + 'z sched_scheme) option" where
  "run_next 0 s = Some (Inr s)"
| "run_next (Suc n) s =
     (case next_process s of Some (Inr s) \<Rightarrow> run_next n s | r \<Rightarrow> r)"

lemma run_next_reaches:
  assumes "sched_ok s" "c < slots s" "sched_current_pid s = of_nat c" "i < slots s" "ready s i"
  shows "\<exists>n \<le> turns (slots s) c i. \<exists>s'. 1 \<le> n \<and> run_next n s = Some (Inr s') \<and> sched_current_pid s' = of_nat i"
  using assms
proof (induction "turns (slots s) c i" arbitrary: s c rule: less_induct)
  case less
  obtain k where k: "1 \<le> k" "k \<le> turns (slots s) c i" "ready s ((c + k) mod slots s)"
      "\<And>j. 1 \<le> j \<Longrightarrow> j < k \<Longrightarrow> \<not> ready s ((c + j) mod slots s)"
    using first_ready [OF less.prems(2,4,5)] by blast
  let ?s = "picked c k s" and ?c = "(c + k) mod slots s"
  have np: "next_process s = Some (Inr ?s)"
    using next_process_finds [OF less.prems(1-3) k(1,3,4)] .
  show ?case
  proof (cases "k = turns (slots s) c i")
    case True
    then have "sched_current_pid ?s = of_nat i"
      using turns(3) [OF less.prems(2,4)] by (simp add: sched_current_picked)
    then show ?thesis
      using np turns(1) [OF less.prems(2,4)] by (intro exI [of _ 1]) simp
  next
    case False
    have t: "turns (slots s) ?c i = turns (slots s) c i - k"
    proof -
      let ?d = "turns (slots s) c i"
      have d: "?d \<le> slots s" "k < ?d" "(c + ?d) mod slots s = i"
        using turns [OF less.prems(2,4)] k(2) False by auto
      have "turns (slots s) ?c i \<le> slots s" "1 \<le> turns (slots s) ?c i" "(?c + turns (slots s) ?c i) mod slots s = i"
        using turns [of ?c "slots s" i] less.prems(4) by auto
      moreover have "(?c + (?d - k)) mod slots s = i"
      proof -
        have "(?c + (?d - k)) mod slots s = (c + k + (?d - k)) mod slots s" by (rule mod_add_left_eq)
        then show ?thesis using d by simp
      qed
      ultimately have "(?c + turns (slots s) ?c i) mod slots s = (?c + (?d - k)) mod slots s" by simp
      then have "turns (slots s) ?c i mod slots s = (?d - k) mod slots s"
        by (simp add: nat_mod_eq_iff)
      moreover have "0 < ?d - k" "?d - k < slots s" using d k(1) by auto
      ultimately show ?thesis
        using \<open>turns (slots s) ?c i \<le> slots s\<close> by (cases "turns (slots s) ?c i = slots s") auto
    qed
    then have lt: "turns (slots ?s) ?c i < turns (slots s) c i" using k(1) turns(1) [OF less.prems(2,4)] by simp
    obtain n s' where n: "n \<le> turns (slots s) c i - k" "run_next n ?s = Some (Inr s')"
        "sched_current_pid s' = of_nat i"
      using less.hyps [OF lt] less.prems t by (auto simp: sched_current_picked)
    then have "run_next (Suc n) s = Some (Inr s')" using np by simp
    moreover have "Suc n \<le> turns (slots s) c i" using n(1) k(1,2) False by linarith
    ultimately show ?thesis using n(3) by (metis One_nat_def Suc_le_mono le0)
  qed
qed

section \<open>The timer interrupt\<close>

lemma wreg_simps [simp]:
  "processes (wreg o' v s) = processes s" "sched_current_pid (wreg o' v s) = sched_current_pid s"
  "sched_num_procs (wreg o' v s) = sched_num_procs s" "sched_running (wreg o' v s) = sched_running s"
  "hhdm_off (wreg o' v s) = hhdm_off s" "lapic_base (wreg o' v s) = lapic_base s"
  "ticks (wreg o' v s) = ticks s" "pmem (wreg o' v s) = pmem s"
  by (simp_all add: wreg_def)

lemmas timer_defs = lapic_timer_oneshot_def lapic_timer_stop_def lapic_eoi_def Let_def

lemma next_process_Some:
  assumes "sched_ok s" "unat (sched_current_pid s) < slots s" "next_process s = Some r"
  obtains k where "1 \<le> k" "k \<le> slots s" "r = Inr (picked (unat (sched_current_pid s)) k s)"
    "ready s ((unat (sched_current_pid s) + k) mod slots s)"
    "\<And>j. 1 \<le> j \<Longrightarrow> j < k \<Longrightarrow> \<not> ready s ((unat (sched_current_pid s) + j) mod slots s)"
proof -
  let ?c = "unat (sched_current_pid s)"
  obtain i where i: "i < slots s" "ready s i"
    using next_process_stuck [OF assms(1,2)] assms(3) by auto
  obtain k where k: "1 \<le> k" "k \<le> turns (slots s) ?c i" "ready s ((?c + k) mod slots s)"
      "\<And>j. 1 \<le> j \<Longrightarrow> j < k \<Longrightarrow> \<not> ready s ((?c + j) mod slots s)"
    using first_ready [OF assms(2) i] by blast
  then have "r = Inr (picked ?c k s)"
    using next_process_finds [OF assms(1,2) _ k(1,3,4)] assms(3) by simp
  moreover have "k \<le> slots s" using k(2) turns(2) [OF assms(2) i(1)] by simp
  ultimately show thesis using that k by blast
qed

text \<open>
  \<open>sched_inv\<close>: the table is intact, the current process is in range and the scheduler runs.
  \<open>schedule\<close> keeps it, saves the interrupted frame in the old current process and loads the
  frame of the new one; every process that is not dead keeps the rest of its entry.
\<close>

definition sched_inv :: "'z sched_scheme \<Rightarrow> bool" where
  "sched_inv s \<longleftrightarrow> sched_ok s \<and> unat (sched_current_pid s) < slots s \<and> sched_running s"

lemma schedule_Inr:
  assumes "sched_inv s" "schedule r s = Some (Inr (r', s'))"
  obtains u where "next_process (s\<lparr>processes := (processes s)[unat (sched_current_pid s) :=
      (processes s ! unat (sched_current_pid s))\<lparr>regs := r\<rparr>]\<rparr>) = Some (Inr u)"
    "r' = regs (processes u ! unat (sched_current_pid u))"
    "s' = (lapic_eoi (lapic_timer_oneshot 5 32 u))\<lparr>cr3 := VIRT_TO_PHYS u (pagemap (processes u ! unat (sched_current_pid u)))\<rparr>"
  using assms
  by (auto simp: schedule_def upd_process_def Let_def timer_defs VIRT_TO_PHYS_def sched_inv_def sched_ok_def
      split: option.splits sum.splits)

lemma schedule_step:
  assumes "sched_inv s" "schedule r s = Some (Inr (r', s'))"
  defines "c \<equiv> unat (sched_current_pid s)"
  shows "sched_inv s'" "slots s' = slots s"
    "ready s' (unat (sched_current_pid s'))" "r' = regs (processes s' ! unat (sched_current_pid s'))"
    "cr3 s' = VIRT_TO_PHYS s' (pagemap (processes s' ! unat (sched_current_pid s')))"
    "i < 64 \<Longrightarrow> state_flags (processes s ! i) \<noteq> DEAD \<Longrightarrow>
       processes s' ! i = (if i = c then (processes s ! i)\<lparr>regs := r\<rparr> else processes s ! i)"
proof -
  have ok: "sched_ok s" "c < slots s" "sched_running s" "c < length (processes s)"
    using assms(1) by (auto simp: sched_inv_def c_def sched_ok_def)
  let ?t = "s\<lparr>processes := (processes s)[c := (processes s ! c)\<lparr>regs := r\<rparr>]\<rparr>"
  have tok: "sched_ok ?t" "slots ?t = slots s" "sched_current_pid ?t = sched_current_pid s"
    using ok by (simp_all add: sched_ok_def slots_def)
  obtain u where u: "next_process ?t = Some (Inr u)"
    and s': "r' = regs (processes u ! unat (sched_current_pid u))"
      "s' = (lapic_eoi (lapic_timer_oneshot 5 32 u))\<lparr>cr3 := VIRT_TO_PHYS u (pagemap (processes u ! unat (sched_current_pid u)))\<rparr>"
    using schedule_Inr [OF assms(1,2)] unfolding c_def by blast
  obtain k where k: "1 \<le> k" "Inr u = (Inr (picked c k ?t) :: fault + 'a sched_scheme)" "ready ?t ((c + k) mod slots ?t)"
    using next_process_Some [OF tok(1) _ u] tok ok(2) unfolding c_def by auto
  then have up: "u = picked c k ?t" by simp
  have cur: "unat (sched_current_pid u) = (c + k) mod slots s"
    using tok(2) unat_slot [of "(c + k) mod slots s" s] by (simp add: up sched_current_picked)
  have fields: "processes s' = processes u" "sched_current_pid s' = sched_current_pid u"
    "sched_num_procs s' = sched_num_procs u" "sched_running s' = sched_running u" "hhdm_off s' = hhdm_off u"
    by (simp_all add: s' timer_defs)
  have uf: "sched_ok u" "slots u = slots s" "sched_running u" "ready u = ready ?t"
    using tok ok(3) by (auto simp: up) (simp add: picked_def)
  show "sched_inv s'" "slots s' = slots s"
    using uf cur fields by (auto simp: sched_inv_def sched_ok_def slots_def)
  have "ready u ((c + k) mod slots s)" using k(3) by (simp only: uf(4) tok(2))
  then show "ready s' (unat (sched_current_pid s'))"
    using cur by (simp add: ready_def fields)
  show "r' = regs (processes s' ! unat (sched_current_pid s'))" using s' fields by simp
  show "cr3 s' = VIRT_TO_PHYS s' (pagemap (processes s' ! unat (sched_current_pid s')))"
    using fields by (simp add: s' VIRT_TO_PHYS_def)
  show "processes s' ! i = (if i = c then (processes s ! i)\<lparr>regs := r\<rparr> else processes s ! i)"
    if "i < 64" "state_flags (processes s ! i) \<noteq> DEAD"
    using that ok unfolding fields up
    by (auto simp: picked_def nth_reap_list sched_ok_def nth_list_update)
qed

text \<open>
  \<open>away c s t\<close>: timer interrupts led from \<open>s\<close> to \<open>t\<close>, each of them taken while a process
  other than \<open>c\<close> was running.
\<close>

inductive away :: "u32 \<Rightarrow> 'z sched_scheme \<Rightarrow> 'z sched_scheme \<Rightarrow> bool" for c s where
  away_refl: "away c s s"
| away_step: "away c s t \<Longrightarrow> sched_current_pid t \<noteq> c \<Longrightarrow> schedule f t = Some (Inr (r, u)) \<Longrightarrow> away c s u"

lemma away_keeps:
  assumes "away c s t" "sched_inv s" "unat c < 64" "state_flags (processes s ! unat c) \<noteq> DEAD"
  shows "sched_inv t \<and> processes t ! unat c = processes s ! unat c"
  using assms
proof (induction rule: away.induct)
  case (away_step t f r u)
  then have t: "sched_inv t" "processes t ! unat c = processes s ! unat c" by auto
  have "unat c \<noteq> unat (sched_current_pid t)" using away_step.hyps(2) by (metis word_unat_eq_iff)
  then show ?case
    using schedule_step(1) [OF t(1) away_step.hyps(3)]
      schedule_step(6) [OF t(1) away_step.hyps(3), of "unat c"] t(2) away_step.prems by simp
qed simp

lemma switch_back:
  assumes "sched_inv s" "state_flags (processes s ! unat c) \<noteq> DEAD" "sched_current_pid s = c"
    and "schedule r s = Some (Inr (r1, s1))" "away c s1 t" "sched_current_pid t = c"
  shows "regs (processes t ! unat c) = r"
proof -
  have c: "unat c < 64" using assms(1,3) by (simp add: sched_inv_def sched_ok_def)
  note st = schedule_step [OF assms(1,4)]
  have p: "processes s1 ! unat c = (processes s ! unat c)\<lparr>regs := r\<rparr>"
    using st(6) [of "unat c"] c assms(2,3) by simp
  then show ?thesis
    using away_keeps [OF assms(5) st(1) c] assms(2) by simp
qed

section \<open>A full table\<close>

text \<open>
  With all 64 slots taken, \<open>advance_pid\<close> lets the pid reach 64, one past the array: the search
  reads outside the table as soon as no process from the next slot on is ready.
\<close>

lemma next_loop_runs_off:
  assumes "length (processes s) = 64" "sched_num_procs s = 64" "sched_current_pid s = of_nat c" "c \<le> 64"
    and "\<And>i. c \<le> i \<Longrightarrow> i < 64 \<Longrightarrow> \<not> ready s i"
  shows "next_loop s = Some (Inl Oob)"
  using assms
proof (induction "64 - c" arbitrary: s c)
  case 0
  then have "unat (sched_current_pid s) = 64" by simp
  then show ?case using 0 by (subst next_loop.simps) simp
next
  case (Suc n)
  then have c: "c < 64" by simp
  then have uc: "unat (sched_current_pid s) = c" using Suc.prems(3) by (simp add: unat_of_nat_u32)
  have cl: "c < length (processes s)" using c Suc.prems(1) by simp
  have nr: "\<not> ready s c" using Suc.prems(5) c by simp
  let ?s1 = "s\<lparr>processes := reap_list {c} (processes s)\<rparr>"
  let ?s2 = "?s1\<lparr>sched_current_pid := of_nat (Suc c)\<rparr>"
  have slots: "slots ?s1 = 65" using Suc.prems(2) by (simp add: slots_def)
  have rd: "ready ?s2 = ready s"
    by (auto simp: ready_def nth_reap_list zero_process_def fun_eq_iff split: if_splits)
  have "advance_pid ?s1 = ?s2"
    using advance_pid_next [of ?s1] uc c slots by simp
  then have "next_loop s = next_loop ?s2"
    using cl nr uc reap_processes [of s, unfolded uc, OF cl] by (subst next_loop.simps) (simp add: ready_def)
  also have "next_loop ?s2 = Some (Inl Oob)"
  proof (rule Suc.hyps(1))
    show "\<not> ready ?s2 i" if "Suc c \<le> i" "i < 64" for i
      unfolding rd using Suc.prems(5) [of i] that by simp
  qed (use Suc.hyps(2) Suc.prems c in simp_all)
  finally show ?case .
qed

lemma next_process_runs_off:
  assumes "length (processes s) = 64" "sched_num_procs s = 64" "unat (sched_current_pid s) < 64"
    and "\<And>i. unat (sched_current_pid s) < i \<Longrightarrow> i < 64 \<Longrightarrow> \<not> ready s i"
  shows "next_process s = Some (Inl Oob)"
proof -
  let ?c = "unat (sched_current_pid s)"
  have "slots s = 65" using assms(2) by (simp add: slots_def)
  then have "advance_pid s = s\<lparr>sched_current_pid := of_nat (Suc ?c)\<rparr>"
    using advance_pid_next [of s] assms(3) by simp
  moreover have "next_loop (s\<lparr>sched_current_pid := of_nat (Suc ?c)\<rparr>) = Some (Inl Oob)"
    using assms by (intro next_loop_runs_off [of _ "Suc ?c"]) (simp_all add: ready_def)
  ultimately show ?thesis by (simp add: next_process_def)
qed

section \<open>A sample scheduler\<close>

definition sample_procs :: "process_state list \<Rightarrow> process_t list" where
  "sample_procs st = map (\<lambda>f. zero_process\<lparr>state_flags := f\<rparr>) (st @ replicate (64 - length st) NONEXISTENT)"

definition sample_sched :: "process_state list \<Rightarrow> u32 \<Rightarrow> u32 \<Rightarrow> 'z \<Rightarrow> 'z sched_scheme" where
  "sample_sched st n c x = \<lparr>pmem = sample_mem 0x0F, hhdm_off = 0xFFFF800000000000, total_mem = 0x8000000,
     free_mem = 0x7FFC000, used_mem = 0x4000, highest_block = 0,
     page_bmp = \<lparr>bm_size = 4096, bm_buffer = 0x1000\<rparr>,
     cr3 = 0x3000, hn_pagemap = 0x3000, lapic_base = 0xFEE00000, ticks = 62500, mmio = [], soft_ints = [],
     processes = sample_procs st, sched_num_procs = n, sched_current_pid = c, sched_running = True, \<dots> = x\<rparr>"

lemma sample_sched_pmm: "sample_sched st n c x = sample (pmm.more (sample_sched st n c x))"
  by (simp add: sample_sched_def sample_def sample_with_def)

lemma sample_sched_fields [simp]:
  "processes (sample_sched st n c x) = sample_procs st" "sched_num_procs (sample_sched st n c x) = n"
  "sched_current_pid (sample_sched st n c x) = c" "sched_running (sample_sched st n c x)"
  "hn_pagemap (sample_sched st n c x) = 0x3000" "slots (sample_sched st n c x) = Suc (unat n)"
  by (simp_all add: sample_sched_def slots_def)

lemma length_sample_procs [simp]: "length st \<le> 64 \<Longrightarrow> length (sample_procs st) = 64"
  by (simp add: sample_procs_def)

lemma sample_ready:
  "length st \<le> 64 \<Longrightarrow> ready (sample_sched st n c x) i \<longleftrightarrow> i < length st \<and> st ! i = READY"
  by (auto simp: ready_def sample_procs_def nth_append)

lemma sample_sched_inv:
  "length st \<le> 64 \<Longrightarrow> n < 64 \<Longrightarrow> c \<le> n \<Longrightarrow> sched_inv (sample_sched st n c x)"
  by (simp add: sched_inv_def sched_ok_def word_less_nat_alt word_le_nat_alt)

section \<open>Properties\<close>

text \<open>
  C24. \<open>next_process\<close> is round robin: it stops at the first ready slot after the current one, in
  cyclic order over the slots 0 to \<open>sched_num_procs\<close>; on the way it clears the dead slots it
  passes and changes nothing else. If no slot is ready, and only then, it loops forever.
\<close>

theorem next_process_spec:
  assumes "sched_ok s" "unat (sched_current_pid s) < slots s"
  shows "case next_process s of
      None \<Rightarrow> \<forall>i < slots s. \<not> ready s i
    | Some (Inl e) \<Rightarrow> False
    | Some (Inr t) \<Rightarrow> (let c = unat (sched_current_pid s) in
        \<exists>k. 1 \<le> k \<and> k \<le> slots s \<and> sched_current_pid t = of_nat ((c + k) mod slots s) \<and>
          ready s ((c + k) mod slots s) \<and> (\<forall>j. 1 \<le> j \<longrightarrow> j < k \<longrightarrow> \<not> ready s ((c + j) mod slots s)) \<and>
          t = s\<lparr>sched_current_pid := sched_current_pid t,
                processes := reap_list ((\<lambda>j. (c + j) mod slots s) ` {1..<k}) (processes s)\<rparr>)"
proof (cases "next_process s")
  case None
  have "\<not> ready s i" if i: "i < slots s" for i
  proof
    assume "ready s i"
    then obtain k where "1 \<le> k" "ready s ((unat (sched_current_pid s) + k) mod slots s)"
        "\<And>j. 1 \<le> j \<Longrightarrow> j < k \<Longrightarrow> \<not> ready s ((unat (sched_current_pid s) + j) mod slots s)"
      using first_ready [OF assms(2) i] by blast
    from next_process_finds [OF assms _ this] show False using None by simp
  qed
  then show ?thesis using None by simp
next
  case (Some r)
  obtain k where k: "1 \<le> k" "k \<le> slots s" "r = Inr (picked (unat (sched_current_pid s)) k s)"
    "ready s ((unat (sched_current_pid s) + k) mod slots s)"
    "\<And>j. 1 \<le> j \<Longrightarrow> j < k \<Longrightarrow> \<not> ready s ((unat (sched_current_pid s) + j) mod slots s)"
    using next_process_Some [OF assms Some] by blast
  then show ?thesis unfolding Some Let_def by (auto simp: picked_def intro!: exI [of _ k])
qed

theorem next_process_spec_witness:
  "case next_process (sample_sched [READY, BLOCKED, READY] 3 0 ()) of
      None \<Rightarrow> \<forall>i < 4. \<not> ready (sample_sched [READY, BLOCKED, READY] 3 0 ()) i
    | Some (Inl e) \<Rightarrow> False
    | Some (Inr t) \<Rightarrow> (\<exists>k. 1 \<le> k \<and> k \<le> 4 \<and> sched_current_pid t = of_nat (k mod 4) \<and>
          ready (sample_sched [READY, BLOCKED, READY] 3 0 ()) (k mod 4))"
proof -
  let ?s = "sample_sched [READY, BLOCKED, READY] 3 0 ()"
  have "sched_ok ?s" "unat (sched_current_pid ?s) < slots ?s" by (simp_all add: sched_ok_def)
  from next_process_spec [OF this] show ?thesis by (auto simp: Let_def split: option.splits sum.splits)
qed

text \<open>
  C9. Fairness: a ready process is reached by at most as many calls of \<open>next_process\<close> as there
  are slots from the current one to its own.
\<close>

theorem scheduler_fair:
  assumes "sched_ok s" "unat (sched_current_pid s) < slots s" "i < slots s" "ready s i"
  shows "\<exists>n t. 1 \<le> n \<and> n \<le> turns (slots s) (unat (sched_current_pid s)) i \<and>
    run_next n s = Some (Inr t) \<and> sched_current_pid t = of_nat i"
  using run_next_reaches [OF assms(1,2) _ assms(3,4)] by (simp add: of_nat_unat) blast

theorem scheduler_fair_witness:
  "\<exists>n t. 1 \<le> n \<and> n \<le> turns 4 2 1 \<and> run_next n (sample_sched [READY, READY, READY] 3 2 ()) = Some (Inr t) \<and>
    sched_current_pid t = 1"
proof -
  let ?s = "sample_sched [READY, READY, READY] 3 2 ()"
  have "sched_ok ?s" "unat (sched_current_pid ?s) < slots ?s" "1 < slots ?s" "ready ?s 1"
    by (simp_all add: sched_ok_def sample_ready)
  from scheduler_fair [OF this] show ?thesis by simp
qed


text \<open>A timer interrupt whose search succeeds.\<close>

lemma schedule_runs:
  assumes "sched_inv s" "1 \<le> k" "ready s ((unat (sched_current_pid s) + k) mod slots s)"
    and "\<And>j. 1 \<le> j \<Longrightarrow> j < k \<Longrightarrow> \<not> ready s ((unat (sched_current_pid s) + j) mod slots s)"
  obtains r' t where "schedule r s = Some (Inr (r', t))" "ready t = ready s" "slots t = slots s"
    "sched_current_pid t = of_nat ((unat (sched_current_pid s) + k) mod slots s)"
proof -
  let ?c = "unat (sched_current_pid s)"
  let ?s = "s\<lparr>processes := (processes s)[?c := (processes s ! ?c)\<lparr>regs := r\<rparr>]\<rparr>"
  have ok: "sched_ok s" "?c < slots s" "?c < length (processes s)" "sched_running s"
    using assms(1) by (auto simp: sched_inv_def sched_ok_def)
  have same: "slots ?s = slots s" "ready ?s = ready s" "sched_ok ?s"
    using ok by (auto simp: slots_def ready_def sched_ok_def nth_list_update fun_eq_iff)
  have np: "next_process ?s = Some (Inr (picked ?c k ?s))"
    by (rule next_process_finds) (use same ok assms in \<open>simp_all add: of_nat_unat\<close>)
  let ?u = "picked ?c k ?s"
  let ?t = "(lapic_eoi (lapic_timer_oneshot 5 32 ?u))\<lparr>cr3 := VIRT_TO_PHYS ?u (pagemap (processes ?u ! unat (sched_current_pid ?u)))\<rparr>"
  have "schedule r s = Some (Inr (regs (processes ?u ! unat (sched_current_pid ?u)), ?t))"
    using ok np by (simp add: schedule_def upd_process_def Let_def timer_defs VIRT_TO_PHYS_def)
  moreover have "processes ?t = processes ?u" "sched_num_procs ?t = sched_num_procs ?u"
    "sched_current_pid ?t = sched_current_pid ?u"
    by (simp_all add: timer_defs)
  then have "ready ?t = ready ?u" "slots ?t = slots ?u"
    by (simp_all only: ready_def [abs_def] slots_def)
  moreover have "sched_current_pid ?t = of_nat ((?c + k) mod slots s)"
    using \<open>sched_current_pid ?t = sched_current_pid ?u\<close> same by (simp only: sched_current_picked)
  ultimately show thesis using that same by simp
qed




text \<open>
  Once all 64 slots of the process table are taken, the search for the next process reads
  past the end of the table as soon as no process after the current one is ready, even if the
  current process itself is.
\<close>

theorem next_process_full_table:
  assumes "length (processes s) = 64" "sched_num_procs s = 64" "unat (sched_current_pid s) < 64"
    and "\<forall>i. unat (sched_current_pid s) < i \<and> i < 64 \<longrightarrow> \<not> ready s i"
  shows "next_process s = Some (Inl Oob)"
  using next_process_runs_off [OF assms(1-3)] assms(4) by blast

theorem next_process_full_table_witness:
  "next_process (sample_sched [READY] 64 0 ()) = Some (Inl Oob)"
  by (rule next_process_full_table) (simp_all add: sample_ready)

text \<open>
  \<open>sched_add_process\<close> takes the next slot, makes the process ready with the given frame and
  page map, returns its pid and leaves the other processes alone; with 64 processes it returns
  -1 and changes nothing.
\<close>

theorem sched_add_process_spec:
  assumes "length (processes s) = 64"
  shows "if sched_num_procs s < 64
    then \<exists>t. sched_add_process name r pm s = Inr (sched_num_procs s, t) \<and>
      sched_num_procs t = sched_num_procs s + 1 \<and> ready t (unat (sched_num_procs s)) \<and>
      regs (processes t ! unat (sched_num_procs s)) = r \<and> pagemap (processes t ! unat (sched_num_procs s)) = pm \<and>
      (\<forall>i. i \<noteq> unat (sched_num_procs s) \<longrightarrow> processes t ! i = processes s ! i)
    else sched_add_process name r pm s = Inr (-1, s)"
  using assms by (simp add: sched_add_process_def upd_process_def ready_def word_less_nat_alt)

theorem sched_add_process_spec_witness:
  "\<exists>t. sched_add_process 0 zero_regs 0x3000 (sample_sched [READY] 1 0 ()) = Inr (1, t) \<and>
      sched_num_procs t = 1 + 1 \<and> ready t 1 \<and> regs (processes t ! 1) = zero_regs \<and>
      pagemap (processes t ! 1) = 0x3000 \<and>
      (\<forall>i. i \<noteq> 1 \<longrightarrow> processes t ! i = processes (sample_sched [READY] 1 0 ()) ! i)"
  using sched_add_process_spec [of "sample_sched [READY] 1 0 ()" 0 zero_regs "0x3000"] by simp

end
