(* ===== verification/Events.thy ===== *)
theory Events
  imports Heap Sched
begin

text \<open>
  Events, \<open>core/sys/events.c\<close>: a table of 64 events, each with an array of subscribers kept in
  heap memory, and the redirection of the subscribers' processes when an event fires.
\<close>

section \<open>State\<close>

record event_t =
  event :: u32
  subscribers :: ptr
  num_subscribers :: u32

record evstate = sched +
  events :: "event_t list"
  num_events :: u32

definition upd_event ::
    "u32 \<Rightarrow> (event_t \<Rightarrow> event_t) \<Rightarrow> 'z evstate_scheme \<Rightarrow> (unit, 'z evstate_scheme) result" where
  "upd_event e f s =
     (if unat e < length (events s)
      then Inr ((), s\<lparr>events := (events s)[unat e := f (events s ! unat e)]\<rparr>)
      else Inl Oob)"

text \<open>
  A \<open>subscriber\<close> takes 16 bytes: \<open>pid\<close> in the first four, the callback in the last eight.
\<close>

definition sub_addr :: "event_t \<Rightarrow> u32 \<Rightarrow> ptr" where
  "sub_addr ev i = subscribers ev + 16 * ucast i"

definition sub_pid :: "'z machine_scheme \<Rightarrow> ptr \<Rightarrow> u32" where
  "sub_pid s a = load32 s a"

definition sub_callback :: "'z machine_scheme \<Rightarrow> ptr \<Rightarrow> u64" where
  "sub_callback s a = load64 s (a + 8)"

section \<open>The code\<close>

definition event_create :: "'z evstate_scheme \<Rightarrow> (u32, 'z evstate_scheme) result" where
  "event_create s =
     (if num_events s < 64 then
        then_do (upd_event (num_events s)
          (\<lambda>e. e\<lparr>event := num_events s, subscribers := NULL, num_subscribers := 0\<rparr>) s)
        (\<lambda>_ s. let s = s\<lparr>num_events := num_events s + 1\<rparr> in Inr (num_events s - 1, s))
      else Inr (0xffffffff, s))"

definition event_destroy :: "u32 \<Rightarrow> 'z evstate_scheme \<Rightarrow> (unit, 'z evstate_scheme) result" where
  "event_destroy event_id = upd_event event_id (\<lambda>e. e\<lparr>event := 0xffffffff\<rparr>)"

definition event_subscribe ::
    "u32 \<Rightarrow> u32 \<Rightarrow> u64 \<Rightarrow> 'z evstate_scheme \<Rightarrow> (unit, 'z evstate_scheme) result" where
  "event_subscribe pid ev callback s =
     (if ev < num_events s then
        let old = events s ! unat ev; n = num_subscribers old in
        then_do (realloc (subscribers old) (ucast (n + 1) * 16) s) (\<lambda>p s.
        then_do (upd_event ev (\<lambda>e. e\<lparr>subscribers := p\<rparr>) s) (\<lambda>_ s.
          let s = store32 (sub_addr (events s ! unat ev) n) pid s;
              s = store64 (sub_addr (events s ! unat ev) n + 8) callback s
          in upd_event ev (\<lambda>e. e\<lparr>num_subscribers := num_subscribers e + 1\<rparr>) s))
      else Inr ((), s))"

text \<open>
  The search for the first subscription of \<open>pid\<close>, and the loop that moves the later ones down.
  The structure assignment copies the 16 bytes.
\<close>

primrec find_sub :: "'z machine_scheme \<Rightarrow> event_t \<Rightarrow> u32 \<Rightarrow> nat \<Rightarrow> u32 \<Rightarrow> u32 option" where
  "find_sub s ev pid 0 i = None"
| "find_sub s ev pid (Suc k) i =
     (if sub_pid s (sub_addr ev i) = pid then Some i else find_sub s ev pid k (i + 1))"

primrec shift_subs :: "event_t \<Rightarrow> nat \<Rightarrow> u32 \<Rightarrow> 'z machine_scheme \<Rightarrow> 'z machine_scheme" where
  "shift_subs ev 0 j s = s"
| "shift_subs ev (Suc k) j s =
     shift_subs ev k (j + 1) (store_bytes (sub_addr ev j) (load_bytes s (sub_addr ev (j + 1)) 16) s)"

definition event_unsubscribe :: "u32 \<Rightarrow> u32 \<Rightarrow> 'z evstate_scheme \<Rightarrow> (unit, 'z evstate_scheme) result" where
  "event_unsubscribe pid ev s =
     (if ev < num_events s \<and> num_subscribers (events s ! unat ev) > 0 then
        let e = events s ! unat ev; n = num_subscribers e in
        (case find_sub s e pid (unat n) 0 of
           None \<Rightarrow> Inr ((), s)
         | Some i \<Rightarrow>
             upd_event ev (\<lambda>e. e\<lparr>num_subscribers := num_subscribers e - 1\<rparr>)
               (shift_subs e (unat (n - 1) - unat i) i s))
      else Inr ((), s))"

text \<open>
  \<open>event_fire\<close>: one round of the loop saves the subscriber's registers and points them at its
  callback.
\<close>

definition fire_one ::
    "u32 \<Rightarrow> u64 \<Rightarrow> ptr \<Rightarrow> 'z sched_scheme \<Rightarrow> (bool, 'z sched_scheme) result" where
  "fire_one event_id private a s =
     then_do (sched_save_state (sub_pid s a) s) (\<lambda>_ s.
     then_do (upd_process (sub_pid s a) (\<lambda>p. p\<lparr>regs := (regs p)
        \<lparr>rip := sub_callback s a, rdi := ucast event_id, rsi := private\<rparr>\<rparr>) s) (\<lambda>_ s.
       Inr (sub_pid s a = sched_current_pid s, s)))"

primrec fire_loop ::
    "event_t \<Rightarrow> u32 \<Rightarrow> u64 \<Rightarrow> nat \<Rightarrow> u32 \<Rightarrow> bool \<Rightarrow> 'z sched_scheme \<Rightarrow> (bool, 'z sched_scheme) result" where
  "fire_loop ev event_id private 0 i was_scheduled s = Inr (was_scheduled, s)"
| "fire_loop ev event_id private (Suc k) i was_scheduled s =
     then_do (fire_one event_id private (sub_addr ev i) s) (\<lambda>hit s.
       fire_loop ev event_id private k (i + 1) (was_scheduled \<or> hit) s)"

definition event_fire :: "u32 \<Rightarrow> u64 \<Rightarrow> 'z evstate_scheme \<Rightarrow> (unit, 'z evstate_scheme) result" where
  "event_fire event_id private s =
     then_do (if event_id < num_events s
              then let ev = events s ! unat event_id in
                   fire_loop ev event_id private (unat (num_subscribers ev)) 0 False s
              else Inr (False, s))
     (\<lambda>was_scheduled s. Inr ((), if was_scheduled then raise_int 0x20 s else s))"

definition event_exit :: "'z sched_scheme \<Rightarrow> (u32, 'z sched_scheme) result" where
  "event_exit s =
     then_do (sched_restore_state (sched_current_pid s) s) (\<lambda>_ s. Inr (0, raise_int 0x20 s))"

section \<open>Subscribers as a list\<close>

definition get_sub :: "'z machine_scheme \<Rightarrow> ptr \<Rightarrow> u32 \<times> u64" where
  "get_sub s a = (sub_pid s a, sub_callback s a)"

text \<open>The subscriptions of an event, oldest first.\<close>

definition subs :: "'z machine_scheme \<Rightarrow> event_t \<Rightarrow> (u32 \<times> u64) list" where
  "subs s ev = map (\<lambda>i. get_sub s (sub_addr ev (of_nat i))) [0..<unat (num_subscribers ev)]"

text \<open>The same entries read off the bytes of the block.\<close>

definition ent :: "u8 list \<Rightarrow> nat \<Rightarrow> u8 list" where
  "ent bs i = take 16 (drop (16 * i) bs)"

definition dec :: "u8 list \<Rightarrow> u32 \<times> u64" where
  "dec b = (bytes_word (take 4 b), bytes_word (take 8 (drop 8 b)))"

lemma sub_addr_of_nat:
  assumes "i < 256"
  shows "sub_addr ev (of_nat i) = subscribers ev + of_nat (16 * i)"
proof -
  have "unat (of_nat i :: u32) = i" using assms by (intro unat_of_nat_u32) simp
  then have "(ucast (of_nat i :: u32) :: u64) = of_nat i" by (metis of_nat_unat)
  then show ?thesis by (simp add: sub_addr_def)
qed

lemma get_sub_dec:
  assumes "16 * i + 16 \<le> n"
  shows "get_sub s (v + of_nat (16 * i)) = dec (ent (load_bytes s v n) i)"
proof -
  have e: "ent (load_bytes s v n) i = load_bytes s (v + of_nat (16 * i)) 16"
    using assms by (simp add: ent_def drop_load_bytes take_load_bytes)
  show ?thesis
    unfolding e by (simp add: get_sub_def sub_pid_def sub_callback_def load32_def load64_def dec_def
        take_load_bytes drop_load_bytes)
qed

lemma subs_bytes:
  assumes "16 * unat (num_subscribers ev) \<le> n" "n \<le> 4088"
  shows "subs s ev = map (\<lambda>i. dec (ent (load_bytes s (subscribers ev) n) i)) [0..<unat (num_subscribers ev)]"
  unfolding subs_def
proof (rule map_cong [OF refl])
  fix i assume "i \<in> set [0..<unat (num_subscribers ev)]"
  then have "16 * i + 16 \<le> n" "i < 256" using assms by auto
  then show "get_sub s (sub_addr ev (of_nat i)) = dec (ent (load_bytes s (subscribers ev) n) i)"
    using get_sub_dec [of i n s "subscribers ev"] by (simp only: sub_addr_of_nat)
qed

lemma subs_0 [simp]: "num_subscribers ev = 0 \<Longrightarrow> subs s ev = []"
  by (simp add: subs_def)

lemma length_subs [simp]: "length (subs s ev) = unat (num_subscribers ev)"
  by (simp add: subs_def)

lemma ent_replace:
  assumes "length b = 16" "16 * j + 16 \<le> length bs" "16 * i + 16 \<le> length bs"
  shows "ent (take (16 * j) bs @ b @ drop (16 * j + 16) bs) i = (if i = j then b else ent bs i)"
proof -
  consider "i < j" | "i = j" | "j < i" by linarith
  then show ?thesis
  proof cases
    case 1
    then have "drop (16 * i) (take (16 * j) bs) = take (16 * (j - i)) (drop (16 * i) bs)"
      by (simp add: drop_take right_diff_distrib')
    moreover have "16 \<le> 16 * (j - i)" using 1 by simp
    ultimately show ?thesis using 1 assms by (simp add: ent_def min_absorb2)
  next
    case 3
    then have "16 * i - (16 * j + 16) + (16 * j + 16) = 16 * i" by simp
    then show ?thesis using 3 assms by (simp add: ent_def min_absorb2)
  qed (use assms in \<open>simp add: ent_def\<close>)
qed

lemma ent_cong: "take m bs = take m bs' \<Longrightarrow> 16 * i + 16 \<le> m \<Longrightarrow> ent bs i = ent bs' i"
proof -
  assume t: "take m bs = take m bs'" and i: "16 * i + 16 \<le> m"
  have "take 16 (drop (16 * i) xs) = take 16 (drop (16 * i) (take m xs))" for xs :: "u8 list"
    using i by (simp add: drop_take min_absorb1)
  then show "ent bs i = ent bs' i" using t unfolding ent_def by metis
qed

text \<open>The two stores of \<open>event_subscribe\<close>.\<close>

lemma dec_written:
  assumes "length p = 4" "length g = 4" "length c = 8"
  shows "dec (p @ g @ c) = (bytes_word p, bytes_word c)"
  using assms by (simp add: dec_def)

lemma bytes_word_u32 [simp]: "bytes_word (word_bytes 4 (w :: u32)) = w"
  by (simp add: bytes_word_word_bytes take_bit_word_eq_self)

lemma bytes_word_u64 [simp]: "bytes_word (word_bytes 8 (w :: u64)) = w"
  by (simp add: bytes_word_word_bytes take_bit_word_eq_self)

section \<open>Invariant\<close>

text \<open>
  Every subscriber array is \<open>NULL\<close> and empty or a heap block of one page, long enough, and no
  two events share a page.
\<close>

definition live :: "'z evstate_scheme \<Rightarrow> nat set" where
  "live s = {e. e < unat (num_events s) \<and> subscribers (events s ! e) \<noteq> NULL}"

definition arrays_ok :: "'z evstate_scheme \<Rightarrow> (nat \<Rightarrow> nat) \<Rightarrow> bool" where
  "arrays_ok s sz \<longleftrightarrow>
     hp.separate s (live s) (\<lambda>e. subscribers (events s ! e)) sz \<and>
     (\<forall>e < unat (num_events s).
        (if subscribers (events s ! e) = NULL then num_subscribers (events s ! e) = 0
         else 16 * unat (num_subscribers (events s ! e)) \<le> sz e))"

definition evs_ok :: "'z evstate_scheme \<Rightarrow> bool" where
  "evs_ok s \<longleftrightarrow> heap_ok s \<and> length (events s) = 64 \<and> unat (num_events s) \<le> 64 \<and> (\<exists>sz. arrays_ok s sz)"

abbreviation ev_subs :: "'z evstate_scheme \<Rightarrow> nat \<Rightarrow> (u32 \<times> u64) list" where
  "ev_subs s e \<equiv> subs s (events s ! e)"

lemma separate_cong:
  assumes "\<And>j. j \<in> I \<Longrightarrow> v j = v' j \<and> n j = n' j"
  shows "hp.separate s I v n = hp.separate s I v' n'"
  unfolding hp.separate_def using assms by simp

lemma arrays_size:
  assumes "arrays_ok s sz" "e \<in> live s"
  shows "page_block s (subscribers (events s ! e)) (sz e)" "sz e \<le> 4088"
    "16 * unat (num_subscribers (events s ! e)) \<le> sz e"
  using assms by (auto simp: arrays_ok_def hp.separate_def live_def page_block_def)

section \<open>Fields that memory operations leave alone\<close>

lemma load_bytes_ext [simp]:
  "load_bytes (s\<lparr>events := x\<rparr>) a n = load_bytes s a n"
  "load_bytes (s\<lparr>num_events := y\<rparr>) a n = load_bytes s a n"
  by (induction n arbitrary: a) (simp_all add: load8_def)

lemma load_ext [simp]:
  "load64 (s\<lparr>events := x\<rparr>) a = load64 s a" "load64 (s\<lparr>num_events := y\<rparr>) a = load64 s a"
  "load32 (s\<lparr>events := x\<rparr>) a = load32 s a" "load32 (s\<lparr>num_events := y\<rparr>) a = load32 s a"
  by (simp_all add: load64_def load32_def)

lemma heap_ok_ext [simp]:
  "heap_ok (s\<lparr>events := x\<rparr>) = heap_ok s" "heap_ok (s\<lparr>num_events := y\<rparr>) = heap_ok s"
  by (simp_all add: heap_state_defs)

lemma page_block_ext [simp]:
  "page_block (s\<lparr>events := x\<rparr>) = page_block s" "page_block (s\<lparr>num_events := y\<rparr>) = page_block s"
  "page_of (s\<lparr>events := x\<rparr>) = page_of s" "page_of (s\<lparr>num_events := y\<rparr>) = page_of s"
  by (simp_all add: page_block_def block_def page_of_def base_def VIRT_TO_PHYS_def fun_eq_iff heap_state_defs)

lemma separate_ext [simp]:
  "hp.separate (s\<lparr>events := x\<rparr>) = hp.separate s" "hp.separate (s\<lparr>num_events := y\<rparr>) = hp.separate s"
  by (simp_all add: hp.separate_def fun_eq_iff)

lemma events_store [simp]:
  "events (store_bytes a bs s) = events s" "num_events (store_bytes a bs s) = num_events s"
  by (subst store_bytes_pmem_only; simp)+

lemma events_store_word [simp]:
  "events (store32 a w s) = events s" "events (store64 a v s) = events s"
  "num_events (store32 a w s) = num_events s" "num_events (store64 a v s) = num_events s"
  by (simp_all add: store32_def store64_def)

lemma events_more:
  assumes "pmm.more s = pmm.more t"
  shows "events s = events t" "num_events s = num_events t"
  using assms by (cases s; cases t; simp)+

lemma subs_ext [simp]:
  "subs (s\<lparr>events := x\<rparr>) = subs s" "subs (s\<lparr>num_events := y\<rparr>) = subs s"
  by (simp_all add: subs_def get_sub_def sub_pid_def sub_callback_def fun_eq_iff)

section \<open>event_create\<close>

lemma event_create_facts:
  assumes ok: "evs_ok s" and n: "num_events s < 64"
  obtains s' where "event_create s = Inr (num_events s, s')" "evs_ok s'"
    "unat (num_events s') = Suc (unat (num_events s))" "ev_subs s' (unat (num_events s)) = []"
    "\<And>e. e < unat (num_events s) \<Longrightarrow> ev_subs s' e = ev_subs s e"
proof -
  let ?n = "unat (num_events s)"
  obtain sz where sz: "arrays_ok s sz" and len: "length (events s) = 64" and h: "heap_ok s"
    using ok by (auto simp: evs_ok_def)
  have lt: "?n < 64" using n by (simp add: word_less_nat_alt)
  let ?new = "(events s ! ?n)\<lparr>event := num_events s, subscribers := NULL, num_subscribers := 0\<rparr>"
  let ?s = "s\<lparr>events := (events s)[?n := ?new], num_events := num_events s + 1\<rparr>"
  have num: "unat (num_events s + 1) = Suc ?n" using lt by (simp add: unat_word_ariths)
  have ev: "events ?s ! e = (if e = ?n then ?new else events s ! e)" if "e < 64" for e
    using that len by simp
  have live: "live ?s = live s" unfolding live_def using num lt len by (auto simp: less_Suc_eq nth_list_update)
  have "hp.separate ?s (live s) (\<lambda>e. subscribers (events ?s ! e)) sz"
    using sz lt unfolding arrays_ok_def live_def
    by simp (subst separate_cong [where v' = "\<lambda>e. subscribers (events s ! e)" and n' = sz]; auto)
  then have "arrays_ok ?s sz"
    using sz num lt len unfolding arrays_ok_def live by (auto simp: less_Suc_eq nth_list_update)
  then have "evs_ok ?s" using ok num lt len by (auto simp: evs_ok_def)
  moreover have "event_create s = Inr (num_events s, ?s)"
    using n lt len by (simp add: event_create_def upd_event_def)
  moreover have "ev_subs ?s ?n = []" "\<And>e. e < ?n \<Longrightarrow> ev_subs ?s e = ev_subs s e"
    using lt len by simp_all
  ultimately show thesis using that [of ?s] num by simp
qed

section \<open>event_subscribe\<close>

text \<open>What the block holds after the two stores.\<close>

lemma written_block:
  fixes n :: nat and pid :: u32 and cb :: u64
  assumes "length bs = 16 * n + 16"
  defines "b1 \<equiv> take (16 * n) bs @ word_bytes 4 pid @ drop (16 * n + 4) bs"
  defines "b2 \<equiv> take (16 * n + 8) b1 @ word_bytes 8 cb @ drop (16 * n + 16) b1"
  shows "take (16 * n) b2 = take (16 * n) bs" "dec (ent b2 n) = (pid, cb)"
proof -
  have b2: "b2 = take (16 * n) bs @ word_bytes 4 pid @ take 4 (drop (16 * n + 4) bs) @ word_bytes 8 cb"
    using assms(1) by (simp add: b1_def b2_def)
  then show "take (16 * n) b2 = take (16 * n) bs" using assms(1) by simp
  have "ent b2 n = word_bytes 4 pid @ take 4 (drop (16 * n + 4) bs) @ word_bytes 8 cb"
    using assms(1) by (simp add: b2 ent_def)
  then show "dec (ent b2 n) = (pid, cb)" using assms(1) by (simp add: dec_written)
qed

lemma request_size: "unat n < 255 \<Longrightarrow> (ucast (n + 1 :: u32) * 16 :: u64) = of_nat (16 * unat n + 16)"
proof -
  assume "unat n < 255"
  then have "unat (n + 1) = unat n + 1" by (simp add: unat_word_ariths)
  then have "(ucast (n + 1) :: u64) = of_nat (unat n + 1)" by (metis of_nat_unat)
  then show ?thesis by (simp add: algebra_simps)
qed

lemma store8_events_upd: "store8 a b (s\<lparr>events := x\<rparr>) = (store8 a b s)\<lparr>events := x\<rparr>"
  by (simp add: store8_def)

lemma store_bytes_events_upd:
  "store_bytes a bs (s\<lparr>events := x\<rparr>) = (store_bytes a bs s)\<lparr>events := x\<rparr>"
  by (induction bs arbitrary: a s) (simp_all add: store8_events_upd)

definition put_sub :: "ptr \<Rightarrow> nat \<Rightarrow> u32 \<Rightarrow> u64 \<Rightarrow> 'z machine_scheme \<Rightarrow> 'z machine_scheme" where
  "put_sub p n pid cb s =
     store_bytes (p + of_nat (16 * n + 8)) (word_bytes 8 cb)
       (store_bytes (p + of_nat (16 * n)) (word_bytes 4 pid) s)"

lemma event_subscribe_steps:
  assumes ok: "evs_ok s" and ev: "ev < num_events s" "unat (num_subscribers (events s ! unat ev)) < 255"
    and r: "event_subscribe pid ev cb s = Inr ((), s')"
  defines "old \<equiv> events s ! unat ev" and "n \<equiv> unat (num_subscribers (events s ! unat ev))"
  obtains p s1 where "realloc (subscribers old) (of_nat (16 * n + 16)) s = Inr (p, s1)"
    "events s1 = events s" "num_events s1 = num_events s" "pmm.more s1 = pmm.more s"
    "s' = (put_sub p n pid cb s1)\<lparr>events := (events s)[unat ev :=
        old\<lparr>subscribers := p, num_subscribers := num_subscribers old + 1\<rparr>]\<rparr>"
proof -
  obtain sz where sz: "arrays_ok s sz" and len: "length (events s) = 64" and h: "heap_ok s"
      and nev: "unat (num_events s) \<le> 64"
    using ok by (auto simp: evs_ok_def)
  have elt: "unat ev < unat (num_events s)" "unat ev < 64" using ev(1) nev by (simp_all add: word_less_nat_alt)
  have n: "n < 255" and rs: "(ucast (num_subscribers old + 1) * 16 :: u64) = of_nat (16 * n + 16)"
    using ev(2) request_size unfolding n_def old_def by blast+
  obtain p s1 where re: "realloc (subscribers old) (of_nat (16 * n + 16)) s = Inr (p, s1)"
    using r ev(1) rs by (auto simp: event_subscribe_def Let_def then_do_Inr_iff old_def)
  have own: "subscribers old = NULL \<or> page_block s (subscribers old) (sz (unat ev))"
    using arrays_size(1) [OF sz, of "unat ev"] elt by (auto simp: live_def old_def)
  have more: "pmm.more s1 = pmm.more s" using realloc_page(7) [OF h own _ re] n by simp
  then have same: "events s1 = events s" "num_events s1 = num_events s" using events_more by metis+
  have a: "sub_addr (old\<lparr>subscribers := p\<rparr>) (num_subscribers old) = p + of_nat (16 * n)"
    using sub_addr_of_nat [of n "old\<lparr>subscribers := p\<rparr>"] n by (simp add: n_def old_def)
  let ?s2 = "s1\<lparr>events := (events s)[unat ev := old\<lparr>subscribers := p\<rparr>]\<rparr>"
  have u: "upd_event ev (\<lambda>e. e\<lparr>subscribers := p\<rparr>) s1 = Inr ((), ?s2)"
    using len elt by (simp add: upd_event_def same old_def)
  have c: "(p + of_nat (16 * n)) + 8 = p + of_nat (16 * n + 8)" by simp
  have "event_subscribe pid ev cb s = upd_event ev (\<lambda>e. e\<lparr>num_subscribers := num_subscribers e + 1\<rparr>)
      (put_sub p n pid cb ?s2)"
    using ev(1) re rs u len elt same a c
    by (simp add: event_subscribe_def Let_def old_def put_sub_def store32_def store64_def add.assoc)
  then have "s' = (put_sub p n pid cb s1)\<lparr>events := (events s)[unat ev :=
        old\<lparr>subscribers := p, num_subscribers := num_subscribers old + 1\<rparr>]\<rparr>"
    using r len elt by (simp add: upd_event_def put_sub_def store_bytes_events_upd)
  with that [OF re same more] show thesis by blast
qed

lemma event_subscribe_sched:
  assumes "evs_ok s" "ev < num_events s" "unat (num_subscribers (events s ! unat ev)) < 255"
    and "event_subscribe pid ev cb s = Inr ((), s')"
  shows "processes s' = processes s" "sched_current_pid s' = sched_current_pid s" "soft_ints s' = soft_ints s"
proof -
  obtain p s1 n e where s: "pmm.more s1 = pmm.more s" "s' = (put_sub p n pid cb s1)\<lparr>events := e\<rparr>"
    using event_subscribe_steps [OF assms] by metis
  have "processes (store_bytes a bs t) = processes t" "sched_current_pid (store_bytes a bs t) = sched_current_pid t"
    "soft_ints (store_bytes a bs t) = soft_ints t" for a bs and t :: "'a evstate_scheme"
    by (subst store_bytes_pmem_only; simp)+
  then show "processes s' = processes s" "sched_current_pid s' = sched_current_pid s" "soft_ints s' = soft_ints s"
    using sched_more [OF s(1)] by (simp_all add: s(2) put_sub_def)
qed

text \<open>The memory side: a resized block with an entry put at its end.\<close>

lemma append_sub:
  fixes v :: "nat \<Rightarrow> ptr" and pid :: u32 and cb :: u64
  assumes h: "heap_ok s" and sep: "hp.separate s I v sz" and n: "n < 255"
    and i: "v i = NULL \<and> n = 0 \<and> i \<notin> I \<or> i \<in> I \<and> 16 * n \<le> sz i"
    and re: "realloc (v i) (of_nat (16 * n + 16)) s = Inr (p, s1)"
  defines "t \<equiv> put_sub p n pid cb s1" and "m \<equiv> 16 * n + 16"
  shows "heap_ok t" "hp.separate t (insert i I) (v(i := p)) (sz(i := m))"
    "take (16 * n) (load_bytes t p m) = load_bytes s (v i) (16 * n)" "dec (ent (load_bytes t p m) n) = (pid, cb)"
    "j \<in> I - {i} \<Longrightarrow> load_bytes t (v j) (sz j) = load_bytes s (v j) (sz j)"
proof -
  have m: "m \<le> 4088" using n by (simp add: m_def)
  let ?v = "v(i := p)" and ?sz = "sz(i := m)" and ?I = "insert i I"
  have sepI: "hp.separate s (I - {i}) v sz" using sep by (auto simp: hp.separate_def)
  have pre: "v i = NULL \<or> page_block s (v i) (sz i) \<and> (\<forall>j\<in>I - {i}. page_of s (v j) \<noteq> page_of s (v i))"
    using sep i by (auto simp: hp.separate_def)
  note re' = re [folded m_def]
  note sr = hp.separate_resize [OF h sepI pre m re']
  have h1: "heap_ok s1" using hp.resize_own [OF h _ m re', of "sz i"] pre by blast
  have keep: "load_bytes s1 p (16 * n) = load_bytes s (v i) (16 * n)"
    using i sep hp.resize_bytes [OF h _ m re', of "sz i" "16 * n"]
    by (cases "n = 0") (auto simp: hp.separate_def m_def)
  let ?s2 = "store_bytes (p + of_nat (16 * n)) (word_bytes 4 pid) s1"
  have o1: "page_block s1 p m" using sr(1) by (auto simp: hp.separate_def)
  have h2: "heap_ok ?s2" and o2: "page_block ?s2 p m"
    using hp.poke_own [OF h1 o1, of "16 * n" "word_bytes 4 pid"] by (auto simp: m_def)
  have b2: "load_bytes ?s2 p m = take (16 * n) (load_bytes s1 p m) @ word_bytes 4 pid @
      drop (16 * n + 4) (load_bytes s1 p m)"
    using hp.poke_bytes [OF h1 o1, of "16 * n" "word_bytes 4 pid"] by (simp add: m_def)
  have i': "i \<in> ?I" "16 * n + length (word_bytes 4 pid) \<le> ?sz i" "16 * n + 8 + length (word_bytes 8 cb) \<le> ?sz i"
    by (simp_all add: m_def)
  note p2 = hp.separate_poke [OF h1 sr(1) i'(1,2), unfolded fun_upd_same]
  note p3 = hp.separate_poke [OF h2 p2(1) i'(1,3), unfolded fun_upd_same]
  show "heap_ok t" using hp.poke_own [OF h2 o2, of "16 * n + 8" "word_bytes 8 cb"] by (simp add: t_def put_sub_def m_def)
  show "hp.separate t ?I ?v ?sz" unfolding t_def put_sub_def by (rule p3(1))
  have b3: "load_bytes t p m = take (16 * n + 8) (load_bytes ?s2 p m) @ word_bytes 8 cb @
      drop (16 * n + 16) (load_bytes ?s2 p m)"
    using hp.poke_bytes [OF h2 o2, of "16 * n + 8" "word_bytes 8 cb"] by (simp add: t_def put_sub_def m_def)
  have "length (load_bytes s1 p m) = 16 * n + 16" by (simp add: m_def)
  note w = written_block [OF this, of pid cb, folded b2, folded b3]
  show "dec (ent (load_bytes t p m) n) = (pid, cb)" by (rule w(2))
  show "take (16 * n) (load_bytes t p m) = load_bytes s (v i) (16 * n)"
    using w(1) keep by (simp add: take_load_bytes m_def)
  show "load_bytes t (v j) (sz j) = load_bytes s (v j) (sz j)" if j: "j \<in> I - {i}"
    using p3(2) [of j] p2(2) [of j] sr(2) [OF j] j by (simp add: t_def put_sub_def)
qed

lemma subs_eq_dec:
  assumes "16 * unat (num_subscribers ev) \<le> n" "n \<le> 4088" "num_subscribers ev' = num_subscribers ev"
    and "load_bytes t (subscribers ev') n = load_bytes s (subscribers ev) n"
  shows "subs t ev' = subs s ev"
  using assms subs_bytes [of ev n s] subs_bytes [of ev' n t] by simp

lemma event_subscribe_facts:
  assumes ok: "evs_ok s" and ev: "ev < num_events s" "unat (num_subscribers (events s ! unat ev)) < 255"
    and r: "event_subscribe pid ev cb s = Inr ((), s')"
  shows "evs_ok s'" "ev_subs s' (unat ev) = ev_subs s (unat ev) @ [(pid, cb)]"
    "num_events s' = num_events s"
    "e < unat (num_events s) \<Longrightarrow> e \<noteq> unat ev \<Longrightarrow> ev_subs s' e = ev_subs s e"
proof -
  let ?e = "unat ev"
  let ?old = "events s ! ?e"
  let ?v = "\<lambda>e. subscribers (events s ! e)"
  define n where "n = unat (num_subscribers ?old)"
  define m where "m = 16 * n + 16"
  obtain sz where sz: "arrays_ok s sz" and len: "length (events s) = 64" and h: "heap_ok s"
      and nev: "unat (num_events s) \<le> 64"
    using ok by (auto simp: evs_ok_def)
  have elt: "?e < unat (num_events s)" "?e < 64" using ev(1) nev by (simp_all add: word_less_nat_alt)
  have n: "n < 255" using ev(2) by (simp add: n_def)
  obtain p s1 where re: "realloc (?v ?e) (of_nat (16 * n + 16)) s = Inr (p, s1)"
    and same: "events s1 = events s" "num_events s1 = num_events s"
    and s': "s' = (put_sub p n pid cb s1)\<lparr>events := (events s)[?e :=
        ?old\<lparr>subscribers := p, num_subscribers := num_subscribers ?old + 1\<rparr>]\<rparr>"
    using event_subscribe_steps [OF ok ev r] unfolding n_def by blast
  have i: "?v ?e = NULL \<and> n = 0 \<and> ?e \<notin> live s \<or> ?e \<in> live s \<and> 16 * n \<le> sz ?e"
    using sz elt unfolding arrays_ok_def by (auto simp: live_def n_def split: if_splits)
  have sep: "hp.separate s (live s) ?v sz" using sz by (simp add: arrays_ok_def)
  note a = append_sub [OF h sep n i re, where pid = pid and cb = cb, folded m_def]
  let ?t = "put_sub p n pid cb s1"
  have pb: "page_block ?t p m" using a(2) by (auto simp: hp.separate_def)
  then have p: "p \<noteq> NULL" by (simp add: page_block_def block_def)
  have num: "num_events s' = num_events s" by (simp add: s' put_sub_def same)
  show "num_events s' = num_events s" by (rule num)
  have ev': "events s' ! e = (if e = ?e then ?old\<lparr>subscribers := p, num_subscribers := num_subscribers ?old + 1\<rparr>
      else events s ! e)" if "e < 64" for e
    using that len by (simp add: s')
  have n1: "unat (num_subscribers ?old + 1) = n + 1" using n by (simp add: n_def unat_word_ariths)
  have live: "live s' = insert ?e (live s)"
    unfolding live_def num using elt nev ev' p by (auto split: if_splits)
  have "j \<in> insert ?e (live s) \<Longrightarrow> subscribers (events s' ! j) = (?v(?e := p)) j" for j
    using ev' elt nev by (auto simp: live_def)
  then have "hp.separate ?t (insert ?e (live s)) (\<lambda>e. subscribers (events s' ! e)) (sz(?e := m))"
    using a(2) separate_cong [of "insert ?e (live s)" "\<lambda>e. subscribers (events s' ! e)" "?v(?e := p)"] by blast
  moreover have "page_block s' = page_block ?t" "page_of s' = page_of ?t" by (simp_all add: s')
  ultimately have "hp.separate s' (live s') (\<lambda>e. subscribers (events s' ! e)) (sz(?e := m))"
    by (simp only: live hp.separate_def)
  then have "arrays_ok s' (sz(?e := m))"
    using sz ev' nev elt n1 p unfolding arrays_ok_def num by (auto simp: m_def)
  then show "evs_ok s'" using a(1) nev len num unfolding evs_ok_def by (auto simp: s')
  have m: "m \<le> 4088" using n by (simp add: m_def)
  have "ent (load_bytes ?t p m) j = ent (load_bytes s (?v ?e) (16 * n)) j" if "j < n" for j
    using a(3) that by (intro ent_cong [of "16 * n"]) simp_all
  moreover have "subs ?t (events s' ! ?e) = map (\<lambda>i. dec (ent (load_bytes ?t p m) i)) [0..<Suc n]"
    using subs_bytes [of "events s' ! ?e" m ?t] ev' [OF elt(2)] n1 m by (simp add: m_def)
  moreover have "subs s ?old = map (\<lambda>i. dec (ent (load_bytes s (?v ?e) (16 * n)) i)) [0..<n]"
    using subs_bytes [of ?old "16 * n" s] n by (simp add: n_def)
  ultimately have "subs ?t (events s' ! ?e) = subs s ?old @ [(pid, cb)]"
    using a(4) by simp
  then show "ev_subs s' ?e = ev_subs s ?e @ [(pid, cb)]" by (simp add: s')
  show "ev_subs s' e = ev_subs s e" if e: "e < unat (num_events s)" "e \<noteq> ?e"
  proof -
    have eq: "events s' ! e = events s ! e" using ev' e nev by simp
    show ?thesis
    proof (cases "e \<in> live s")
      case True
      then have "subs ?t (events s ! e) = subs s (events s ! e)"
        using a(5) [of e] e arrays_size [OF sz True] by (intro subs_eq_dec [of _ "sz e"]) simp_all
      then show ?thesis using eq by (simp add: s')
    next
      case False
      then have "num_subscribers (events s ! e) = 0" using e sz by (auto simp: live_def arrays_ok_def)
      then show ?thesis using eq by simp
    qed
  qed
qed

section \<open>event_unsubscribe\<close>

text \<open>The first subscription of a process is dropped, the order of the others is kept.\<close>

fun drop_first :: "u32 \<Rightarrow> (u32 \<times> u64) list \<Rightarrow> (u32 \<times> u64) list" where
  "drop_first pid [] = []"
| "drop_first pid (x # xs) = (if fst x = pid then xs else x # drop_first pid xs)"

lemma drop_first_find:
  assumes "j < length xs" "fst (xs ! j) = pid" "\<And>i. i < j \<Longrightarrow> fst (xs ! i) \<noteq> pid"
  shows "drop_first pid xs = take j xs @ drop (Suc j) xs"
  using assms
proof (induction xs arbitrary: j)
  case (Cons x xs)
  show ?case
  proof (cases j)
    case (Suc i)
    have "fst x \<noteq> pid" using Cons.prems(3) [of 0] Suc by simp
    moreover have "drop_first pid xs = take i xs @ drop (Suc i) xs"
    proof (rule Cons.IH)
      show "fst (xs ! i') \<noteq> pid" if "i' < i" for i' using Cons.prems(3) [of "Suc i'"] that Suc by simp
    qed (use Cons.prems Suc in simp_all)
    ultimately show ?thesis using Suc by simp
  qed (use Cons.prems in simp)
qed simp

lemma drop_first_none: "(\<And>x. x \<in> set xs \<Longrightarrow> fst x \<noteq> pid) \<Longrightarrow> drop_first pid xs = xs"
  by (induction xs) auto

lemma find_sub_find:
  "find_sub s ev pid k (of_nat i) =
     map_option of_nat (find (\<lambda>j. sub_pid s (sub_addr ev (of_nat j)) = pid) [i..<i + k])"
proof (induction k arbitrary: i)
  case (Suc k)
  have "(of_nat i + 1 :: u32) = of_nat (Suc i)" by simp
  then show ?case
    using Suc [of "Suc i"] by (simp add: upt_conv_Cons del: upt_Suc of_nat_Suc)
qed simp

lemma find_sub_Some:
  assumes "find_sub s ev pid (unat (num_subscribers ev)) 0 = Some i"
  obtains j where "i = of_nat j" "j < unat (num_subscribers ev)"
    "drop_first pid (subs s ev) = take j (subs s ev) @ drop (Suc j) (subs s ev)"
proof -
  let ?n = "unat (num_subscribers ev)"
  obtain j where j: "find (\<lambda>j. sub_pid s (sub_addr ev (of_nat j)) = pid) [0..<?n] = Some j" "i = of_nat j"
    using assms find_sub_find [of s ev pid ?n 0] by (auto simp: eq_commute [of "Some i"])
  then have c: "j < ?n" "sub_pid s (sub_addr ev (of_nat j)) = pid"
      "\<And>i. i < j \<Longrightarrow> sub_pid s (sub_addr ev (of_nat i)) \<noteq> pid"
    by (auto simp: find_Some_iff)
  have "drop_first pid (subs s ev) = take j (subs s ev) @ drop (Suc j) (subs s ev)"
    using c by (intro drop_first_find) (auto simp: subs_def get_sub_def)
  with that j c show thesis by blast
qed

lemma find_sub_None:
  assumes "find_sub s ev pid (unat (num_subscribers ev)) 0 = None"
  shows "drop_first pid (subs s ev) = subs s ev"
  using assms find_sub_find [of s ev pid "unat (num_subscribers ev)" 0]
  by (intro drop_first_none) (auto simp: find_None_iff subs_def get_sub_def)

text \<open>The loop that moves entries \<open>j + 1\<close> to \<open>j + k\<close> down by one.\<close>

lemma shift_subs_facts:
  fixes v :: "nat \<Rightarrow> ptr"
  assumes "heap_ok s" "hp.separate s I v sz" "e \<in> I" "16 * (j + k + 1) \<le> sz e" "j + k < 255"
    and "subscribers ev = v e"
  shows "heap_ok (shift_subs ev k (of_nat j) s) \<and> hp.separate (shift_subs ev k (of_nat j) s) I v sz \<and>
    (\<forall>i. 16 * i + 16 \<le> sz e \<longrightarrow> ent (load_bytes (shift_subs ev k (of_nat j) s) (v e) (sz e)) i =
       ent (load_bytes s (v e) (sz e)) (if j \<le> i \<and> i < j + k then i + 1 else i)) \<and>
    (\<forall>f \<in> I. f \<noteq> e \<longrightarrow> load_bytes (shift_subs ev k (of_nat j) s) (v f) (sz f) = load_bytes s (v f) (sz f))"
  using assms
proof (induction k arbitrary: j s)
  case 0
  then show ?case by auto
next
  case (Suc k)
  let ?B = "load_bytes s (v e) (sz e)"
  let ?s = "store_bytes (v e + of_nat (16 * j)) (ent ?B (j + 1)) s"
  have own: "page_block s (v e) (sz e)" using Suc.prems by (simp add: hp.separate_def)
  have len: "length (ent ?B (j + 1)) = 16" using Suc.prems by (simp add: ent_def)
  have fit: "16 * j + length (ent ?B (j + 1)) \<le> sz e" using len Suc.prems by simp
  have a: "sub_addr ev (of_nat j) = v e + of_nat (16 * j)"
    "sub_addr ev (of_nat j + 1) = v e + of_nat (16 * (j + 1))"
    using sub_addr_of_nat [of j ev] sub_addr_of_nat [of "j + 1" ev] Suc.prems by (simp_all add: add.commute)
  have "load_bytes s (v e + of_nat (16 * (j + 1))) 16 = ent ?B (j + 1)"
    using Suc.prems by (simp only: ent_def) (simp add: drop_load_bytes take_load_bytes)
  then have eq: "shift_subs ev (Suc k) (of_nat j) s = shift_subs ev k (of_nat (Suc j)) ?s"
    by (simp only: shift_subs.simps a) (simp add: add.commute)
  have h: "heap_ok ?s" using hp.poke_own [OF Suc.prems(1) own fit] by blast
  note sp = hp.separate_poke [OF Suc.prems(1-3) fit]
  have B: "ent (load_bytes ?s (v e) (sz e)) i = (if i = j then ent ?B (j + 1) else ent ?B i)"
    if "16 * i + 16 \<le> sz e" for i
    using hp.poke_bytes [OF Suc.prems(1) own fit] ent_replace [OF len, of j ?B i] that Suc.prems len
    by simp
  have pre: "16 * (Suc j + k + 1) \<le> sz e" "Suc j + k < 255" using Suc.prems by simp_all
  note ih = Suc.IH [OF h sp(1) Suc.prems(3) pre Suc.prems(6), folded eq]
  show ?case
  proof (intro conjI allI impI ballI)
    fix i assume i: "16 * i + 16 \<le> sz e"
    have "16 * (i + 1) + 16 \<le> sz e" if "i < j + Suc k" using that Suc.prems by simp
    then show "ent (load_bytes (shift_subs ev (Suc k) (of_nat j) s) (v e) (sz e)) i =
        ent ?B (if j \<le> i \<and> i < j + Suc k then i + 1 else i)"
      using ih B [of i] B [of "i + 1"] i by auto
  next
    fix f assume "f \<in> I" "f \<noteq> e"
    then show "load_bytes (shift_subs ev (Suc k) (of_nat j) s) (v f) (sz f) = load_bytes s (v f) (sz f)"
      using ih sp(2) [of f] by simp
  qed (use ih in simp_all)
qed

lemma events_shift_subs [simp]:
  "events (shift_subs ev k j s) = events s" "num_events (shift_subs ev k j s) = num_events s"
  by (induction k arbitrary: j s) simp_all

lemma removed_map:
  assumes "j < n"
  shows "map (\<lambda>i. f (if j \<le> i then Suc i else i)) [0..<n - 1] = take j (map f [0..<n]) @ drop (Suc j) (map f [0..<n])"
  using assms by (intro nth_equalityI) (auto simp: nth_append min_def)

lemma unsubscribe_arrays:
  assumes sz: "arrays_ok s sz" and h: "heap_ok s" and e: "e < unat (num_events s)" "e < length (events s)"
    and i: "find_sub s (events s ! e) pid (unat (num_subscribers (events s ! e))) 0 = Some i"
  defines "n \<equiv> num_subscribers (events s ! e)"
  defines "t \<equiv> shift_subs (events s ! e) (unat (n - 1) - unat i) i s"
  defines "s' \<equiv> t\<lparr>events := (events s)[e := (events s ! e)\<lparr>num_subscribers := n - 1\<rparr>]\<rparr>"
  shows "heap_ok s'" "arrays_ok s' sz" "ev_subs s' e = drop_first pid (ev_subs s e)"
    "f < unat (num_events s) \<Longrightarrow> f \<noteq> e \<Longrightarrow> ev_subs s' f = ev_subs s f"
proof -
  let ?v = "\<lambda>e. subscribers (events s ! e)" and ?n = "unat n"
  obtain j where j: "i = of_nat j" "j < ?n"
      "drop_first pid (ev_subs s e) = take j (ev_subs s e) @ drop (Suc j) (ev_subs s e)"
    using find_sub_Some [OF i] unfolding n_def by blast
  have e': "e \<in> live s" using sz e(1) j(2) unfolding arrays_ok_def live_def n_def by auto
  note as = arrays_size [OF sz e', folded n_def]
  have nlt: "?n < 256" and n1: "unat (n - 1) = ?n - 1" using as(2,3) j(2) by (auto simp: unat_sub unat_gt_0 word_le_nat_alt)
  have uj: "unat (of_nat j :: u32) = j" using nlt j(2) by (intro unat_of_nat_u32) simp
  have sep: "hp.separate s (live s) ?v sz" using sz by (simp add: arrays_ok_def)
  let ?k = "?n - 1 - j"
  have t: "t = shift_subs (events s ! e) ?k (of_nat j) s" by (simp add: t_def n1 uj j(1))
  have "16 * (j + ?k + 1) \<le> sz e" "j + ?k < 255" using as(3) nlt j(2) by simp_all
  note sh = shift_subs_facts [OF h sep e' this refl, folded t]
  have ev': "events s' ! f = (if f = e then (events s ! e)\<lparr>num_subscribers := n - 1\<rparr> else events s ! f)" for f
    using e(2) by (simp add: s'_def)
  have num: "num_events s' = num_events s" by (simp add: s'_def t)
  have v: "subscribers (events s' ! f) = ?v f" for f using ev' by simp
  have live: "live s' = live s" by (simp add: live_def num v)
  show "heap_ok s'" using sh by (simp add: s'_def)
  have "page_block s' = page_block t" "page_of s' = page_of t" by (simp_all add: s'_def)
  then have "hp.separate s' (live s') (\<lambda>e. subscribers (events s' ! e)) sz"
    using sh by (simp only: live v hp.separate_def) blast
  then show "arrays_ok s' sz"
    using sz j(2) n1 unfolding arrays_ok_def num v by (auto simp: ev' n_def)
  have "ent (load_bytes t (?v e) (sz e)) i = ent (load_bytes s (?v e) (sz e)) (if j \<le> i then Suc i else i)"
    if "i < ?n - 1" for i
    using that as(3) sh j(2) by auto
  note ents = this
  let ?f = "\<lambda>i. dec (ent (load_bytes s (?v e) (sz e)) i)"
  have old: "ev_subs s e = map ?f [0..<?n]"
    using subs_bytes [of "events s ! e" "sz e" s] as by (simp add: n_def)
  have "subs t (events s' ! e) = map (\<lambda>i. dec (ent (load_bytes t (?v e) (sz e)) i)) [0..<?n - 1]"
    using subs_bytes [of "events s' ! e" "sz e" t] ev' [of e] n1 as by simp
  also have "\<dots> = map (\<lambda>i. ?f (if j \<le> i then Suc i else i)) [0..<?n - 1]"
    by (intro map_cong) (simp_all add: ents)
  also have "\<dots> = take j (map ?f [0..<?n]) @ drop (Suc j) (map ?f [0..<?n])" by (rule removed_map [OF j(2)])
  also have "\<dots> = drop_first pid (ev_subs s e)" unfolding j(3) unfolding old ..
  finally have "subs t (events s' ! e) = drop_first pid (ev_subs s e)" .
  then show "ev_subs s' e = drop_first pid (ev_subs s e)" by (simp add: s'_def)
  show "ev_subs s' f = ev_subs s f" if f: "f < unat (num_events s)" "f \<noteq> e"
  proof (cases "f \<in> live s")
    case True
    then have "subs t (events s ! f) = subs s (events s ! f)"
      using sh f arrays_size [OF sz True] by (intro subs_eq_dec [of _ "sz f"]) simp_all
    then show ?thesis using ev' [of f] f by (simp add: s'_def)
  next
    case False
    then have "num_subscribers (events s ! f) = 0" using f sz by (auto simp: live_def arrays_ok_def)
    then show ?thesis using ev' [of f] f by simp
  qed
qed

lemma event_unsubscribe_facts:
  assumes ok: "evs_ok s" and ev: "ev < num_events s"
  obtains s' where "event_unsubscribe pid ev s = Inr ((), s')" "evs_ok s'" "num_events s' = num_events s"
    "ev_subs s' (unat ev) = drop_first pid (ev_subs s (unat ev))"
    "\<And>e. e < unat (num_events s) \<Longrightarrow> e \<noteq> unat ev \<Longrightarrow> ev_subs s' e = ev_subs s e"
proof -
  let ?e = "unat ev"
  let ?n = "num_subscribers (events s ! ?e)"
  obtain sz where sz: "arrays_ok s sz" and len: "length (events s) = 64" and h: "heap_ok s"
      and nev: "unat (num_events s) \<le> 64"
    using ok by (auto simp: evs_ok_def)
  have elt: "?e < unat (num_events s)" "?e < length (events s)" using ev nev len by (simp_all add: word_less_nat_alt)
  show thesis
  proof (cases "find_sub s (events s ! ?e) pid (unat ?n) 0")
    case None
    then have "event_unsubscribe pid ev s = Inr ((), s)" by (simp add: event_unsubscribe_def Let_def)
    with that [OF _ ok refl] find_sub_None [OF None] show thesis by simp
  next
    case (Some i)
    then have pos: "0 < ?n" by (cases "?n = 0") (auto simp: word_gt_0)
    note un = unsubscribe_arrays [OF sz h elt Some]
    let ?t = "shift_subs (events s ! ?e) (unat (?n - 1) - unat i) i s"
    let ?s = "?t\<lparr>events := (events s)[?e := (events s ! ?e)\<lparr>num_subscribers := ?n - 1\<rparr>]\<rparr>"
    have "event_unsubscribe pid ev s = Inr ((), ?s)"
      using ev pos Some elt by (simp add: event_unsubscribe_def Let_def upd_event_def)
    moreover have "evs_ok ?s" unfolding evs_ok_def using un(1,2) len nev by auto
    ultimately show thesis using that un(3,4) by simp
  qed
qed

section \<open>event_fire and event_exit\<close>

text \<open>What firing does to one subscriber's process, and to the table for a list of subscribers.\<close>

definition redirect :: "u32 \<Rightarrow> u64 \<Rightarrow> u64 \<Rightarrow> process_t \<Rightarrow> process_t" where
  "redirect event_id private cb p =
     p\<lparr>saved_regs := regs p, regs := (regs p)\<lparr>rip := cb, rdi := ucast event_id, rsi := private\<rparr>\<rparr>"

primrec redirect_all :: "u32 \<Rightarrow> u64 \<Rightarrow> (u32 \<times> u64) list \<Rightarrow> process_t list \<Rightarrow> process_t list" where
  "redirect_all event_id private [] ps = ps"
| "redirect_all event_id private (x # xs) ps =
     redirect_all event_id private xs
       (ps[unat (fst x) := redirect event_id private (snd x) (ps ! unat (fst x))])"

lemma length_redirect_all [simp]: "length (redirect_all e a xs ps) = length ps"
  by (induction xs arbitrary: ps) simp_all

lemma redirect_all_other: "i \<notin> (\<lambda>x. unat (fst x)) ` set xs \<Longrightarrow> redirect_all e a xs ps ! i = ps ! i"
  by (induction xs arbitrary: ps) auto

lemma redirect_all_nth:
  assumes "distinct (map fst xs)" "(pid, cb) \<in> set xs" "\<forall>x \<in> set xs. unat (fst x) < length ps"
  shows "redirect_all e a xs ps ! unat pid = redirect e a cb (ps ! unat pid)"
  using assms
proof (induction xs arbitrary: ps)
  case (Cons x xs)
  show ?case
  proof (cases "x = (pid, cb)")
    case True
    then have "unat pid \<notin> (\<lambda>x. unat (fst x)) ` set xs"
      using Cons.prems(1) by (force simp: image_iff dest: word_unat_eq_iff [THEN iffD2])
    then show ?thesis using True Cons.prems(3) by (simp add: redirect_all_other)
  next
    case False
    then have x: "(pid, cb) \<in> set xs" using Cons.prems(2) by auto
    then have "fst x \<noteq> pid" using Cons.prems(1) by (auto simp: image_iff)
    then have "unat (fst x) \<noteq> unat pid" by (simp add: word_unat_eq_iff)
    then show ?thesis using Cons x by simp
  qed
qed simp

lemma sub_processes [simp]:
  "sub_pid (s\<lparr>processes := x\<rparr>) = sub_pid s" "sub_callback (s\<lparr>processes := x\<rparr>) = sub_callback s"
proof -
  have l: "load_bytes (s\<lparr>processes := x\<rparr>) a n = load_bytes s a n" for a n
    by (induction n arbitrary: a) (simp_all add: load8_def)
  show "sub_pid (s\<lparr>processes := x\<rparr>) = sub_pid s" "sub_callback (s\<lparr>processes := x\<rparr>) = sub_callback s"
    by (simp_all add: sub_pid_def sub_callback_def load32_def load64_def l fun_eq_iff)
qed

lemma fire_one_eq:
  assumes "unat (sub_pid s a) < length (processes s)"
  shows "fire_one e x a s = Inr (sub_pid s a = sched_current_pid s, s\<lparr>processes := (processes s)
     [unat (sub_pid s a) := redirect e x (sub_callback s a) (processes s ! unat (sub_pid s a))]\<rparr>)"
  using assms by (simp add: fire_one_def sched_save_state_def upd_process_def redirect_def)

lemma fire_loop_eq:
  assumes "\<forall>x \<in> set xs. unat (fst x) < length (processes s)"
    and "xs = map (\<lambda>i. get_sub s (sub_addr ev (of_nat i))) [i..<i + k]"
  shows "fire_loop ev e a k (of_nat i) w s = Inr (w \<or> sched_current_pid s \<in> fst ` set xs,
    s\<lparr>processes := redirect_all e a xs (processes s)\<rparr>)"
  using assms
proof (induction k arbitrary: i w s xs)
  case (Suc k)
  let ?a = "sub_addr ev (of_nat i)"
  let ?ys = "map (\<lambda>i. get_sub s (sub_addr ev (of_nat i))) [Suc i..<Suc i + k]"
  let ?s = "s\<lparr>processes := (processes s)
     [unat (sub_pid s ?a) := redirect e a (sub_callback s ?a) (processes s ! unat (sub_pid s ?a))]\<rparr>"
  have xs: "xs = (sub_pid s ?a, sub_callback s ?a) # ?ys"
    using Suc.prems(2) by (simp add: upt_conv_Cons get_sub_def del: upt_Suc)
  have ys: "?ys = map (\<lambda>i. get_sub ?s (sub_addr ev (of_nat i))) [Suc i..<Suc i + k]"
    by (simp add: get_sub_def)
  have "\<forall>x \<in> set ?ys. unat (fst x) < length (processes ?s)" using Suc.prems(1) xs by simp
  note ih = Suc.IH [OF this ys]
  have "(of_nat i + 1 :: u32) = of_nat (Suc i)" by simp
  moreover have "fire_one e a ?a s = Inr (sub_pid s ?a = sched_current_pid s, ?s)"
    using Suc.prems(1) xs by (intro fire_one_eq) simp
  ultimately show ?case
    using ih xs by (auto simp del: of_nat_Suc)
qed simp

lemma event_fire_eq:
  assumes "event_id < num_events s" "\<forall>x \<in> set (ev_subs s (unat event_id)). unat (fst x) < length (processes s)"
  shows "event_fire event_id a s =
    Inr ((), (let t = s\<lparr>processes := redirect_all event_id a (ev_subs s (unat event_id)) (processes s)\<rparr>
      in if sched_current_pid s \<in> fst ` set (ev_subs s (unat event_id)) then raise_int 0x20 t else t))"
  using assms fire_loop_eq [OF assms(2), of "events s ! unat event_id" 0 "unat (num_subscribers (events s ! unat event_id))" event_id a False]
  by (simp add: event_fire_def Let_def subs_def)

lemma event_exit_eq:
  assumes "unat (sched_current_pid s) < length (processes s)"
  shows "event_exit s = Inr (0, s\<lparr>processes := (processes s)[unat (sched_current_pid s) :=
     (processes s ! unat (sched_current_pid s))\<lparr>regs := saved_regs (processes s ! unat (sched_current_pid s))\<rparr>],
     soft_ints := soft_ints s @ [0x20, 0x20]\<rparr>)"
  using assms by (simp add: event_exit_def sched_restore_state_def upd_process_def raise_int_def)

lemma event_exit_runs:
  assumes "sched_inv s"
  obtains t where "event_exit s = Inr (0, t)" "sched_inv t" "ready t = ready s" "slots t = slots s"
    "sched_current_pid t = sched_current_pid s"
proof -
  let ?c = "unat (sched_current_pid s)"
  have c: "?c < length (processes s)" using assms by (auto simp: sched_inv_def sched_ok_def)
  let ?t = "s\<lparr>processes := (processes s)[?c := (processes s ! ?c)\<lparr>regs := saved_regs (processes s ! ?c)\<rparr>],
     soft_ints := soft_ints s @ [0x20, 0x20]\<rparr>"
  have "sched_inv ?t" "slots ?t = slots s"
    using assms by (simp_all add: sched_inv_def sched_ok_def slots_def)
  moreover have "ready ?t = ready s" using c by (auto simp: ready_def nth_list_update fun_eq_iff)
  ultimately show thesis using that event_exit_eq [OF c] by simp
qed

section \<open>When a subscription fails\<close>

lemma realloc_fails:
  assumes ok: "heap_ok s" and v: "v = NULL \<or> page_block s v n" and m: "m \<le> 4088"
    and r: "realloc v (of_nat m) s = Inl e"
  shows "e = Psod HN_ERR_OUT_OF_MEM \<and> first_free s = None"
proof -
  have f: "heap_ok (free v s)" using free_released(1) [OF ok v] .
  have mf: "malloc (of_nat m) (free v s) = Inl e"
    using r by (auto simp: realloc_def then_do_def Let_def split: sum.splits)
  note e = malloc_fails [OF f small_4088 [OF m] mf]
  have "v = NULL"
  proof (rule ccontr)
    assume "v \<noteq> NULL"
    then have "block s v (of_nat n)" using v by (simp add: page_block_def)
    then show False using free_facts(5) [OF ok, of v "of_nat n"] e(2) by simp
  qed
  then show ?thesis using e by (simp add: free_def)
qed

lemma event_subscribe_fails:
  assumes ok: "evs_ok s" and ev: "ev < num_events s" "unat (num_subscribers (events s ! unat ev)) < 255"
    and r: "event_subscribe pid ev cb s = Inl e"
  shows "e = Psod HN_ERR_OUT_OF_MEM \<and> first_free s = None"
proof -
  let ?old = "events s ! unat ev"
  define m where "m = 16 * unat (num_subscribers ?old) + 16"
  obtain sz where sz: "arrays_ok s sz" and len: "length (events s) = 64" and h: "heap_ok s"
      and nev: "unat (num_events s) \<le> 64"
    using ok by (auto simp: evs_ok_def)
  have elt: "unat ev < unat (num_events s)" "unat ev < 64" using ev(1) nev by (simp_all add: word_less_nat_alt)
  have own: "subscribers ?old = NULL \<or> page_block s (subscribers ?old) (sz (unat ev))"
    using arrays_size(1) [OF sz, of "unat ev"] elt by (auto simp: live_def)
  have m: "m \<le> 4088" using ev(2) by (simp add: m_def)
  have rs: "(ucast (num_subscribers ?old + 1) * 16 :: u64) = of_nat m"
    using request_size [OF ev(2)] by (simp add: m_def)
  show ?thesis
  proof (cases "realloc (subscribers ?old) (of_nat m) s")
    case (Inl e')
    then have "e = e'" using r ev(1) rs by (simp add: event_subscribe_def Let_def)
    then show ?thesis using realloc_fails [OF h own m] Inl by blast
  next
    case (Inr x)
    obtain p s1 where x: "x = (p, s1)" by (cases x)
    have "pmm.more s1 = pmm.more s" using realloc_page(7) [OF h own m] Inr x by simp
    then have "events s1 = events s" using events_more by metis
    then show ?thesis using r ev(1) rs Inr x len elt
      by (simp add: event_subscribe_def Let_def upd_event_def)
  qed
qed

text \<open>Growing an array that exists never fails: the old page is free when the new one is sought.\<close>

lemma event_subscribe_never_fails:
  assumes ok: "evs_ok s" and ev: "ev < num_events s" "unat (num_subscribers (events s ! unat ev)) < 255"
    and n: "0 < length (ev_subs s (unat ev))"
  obtains t where "event_subscribe pid ev cb s = Inr ((), t)"
proof (cases "event_subscribe pid ev cb s")
  case (Inl e)
  let ?old = "events s ! unat ev"
  define m where "m = 16 * unat (num_subscribers ?old) + 16"
  obtain sz where sz: "arrays_ok s sz" and h: "heap_ok s" and len: "length (events s) = 64"
      and nev: "unat (num_events s) \<le> 64"
    using ok by (auto simp: evs_ok_def)
  have elt: "unat ev < unat (num_events s)" "unat ev < 64" using ev(1) nev by (simp_all add: word_less_nat_alt)
  then have "unat ev \<in> live s" using sz n by (auto simp: live_def arrays_ok_def)
  note pb = arrays_size(1) [OF sz this]
  then have b: "block s (subscribers ?old) (of_nat (sz (unat ev)))" by (simp add: page_block_def)
  have m: "m \<le> 4088" using ev(2) by (simp add: m_def)
  have "first_free (free (subscribers ?old) s) \<noteq> None" using free_facts(5) [OF h b] by auto
  then obtain p s2 where "malloc (of_nat m) (free (subscribers ?old) s) = Inr (p, s2)"
    using malloc_succeeds [OF free_released(1) [OF h disjI2 [OF pb]] small_4088 [OF m]] by blast
  then obtain s1 where re: "realloc (subscribers ?old) (of_nat m) s = Inr (p, s1)"
    by (auto simp: realloc_free_malloc)
  have "pmm.more s1 = pmm.more s" using realloc_page(7) [OF h disjI2 [OF pb] m re] .
  then have "events s1 = events s" using events_more by metis
  then have False using Inl ev(1) re request_size [OF ev(2)] len elt
    by (simp add: event_subscribe_def Let_def upd_event_def m_def)
  then show thesis by simp
qed (use that in \<open>metis old.unit.exhaust surj_pair\<close>)

section \<open>A sample state\<close>

definition sample_evs :: "process_state list \<Rightarrow> u32 \<Rightarrow> u32 \<Rightarrow> u32 \<Rightarrow> evstate" where
  "sample_evs st n c k = \<lparr>pmem = sample_mem 0x0F, hhdm_off = 0xFFFF800000000000, total_mem = 0x8000000,
     free_mem = 0x7FFC000, used_mem = 0x4000, highest_block = 0,
     page_bmp = \<lparr>bm_size = 4096, bm_buffer = 0x1000\<rparr>,
     cr3 = 0x3000, hn_pagemap = 0x3000, lapic_base = 0xFEE00000, ticks = 62500, mmio = [], soft_ints = [],
     processes = sample_procs st, sched_num_procs = n, sched_current_pid = c, sched_running = True,
     events = replicate 64 \<lparr>event = 0, subscribers = NULL, num_subscribers = 0\<rparr>, num_events = k\<rparr>"

lemma sample_evs_sched: "sample_evs st n c k = sample_sched st n c (sched.more (sample_evs st n c k))"
  by (simp add: sample_evs_def sample_sched_def)

lemma sample_evs_pmm: "sample_evs st n c k = sample (pmm.more (sample_evs st n c k))"
  by (simp add: sample_evs_def sample_def sample_with_def)

lemma sample_evs_fields [simp]:
  "num_events (sample_evs st n c k) = k"
  "events (sample_evs st n c k) = replicate 64 \<lparr>event = 0, subscribers = NULL, num_subscribers = 0\<rparr>"
  "sched_current_pid (sample_evs st n c k) = c" "processes (sample_evs st n c k) = sample_procs st"
  "soft_ints (sample_evs st n c k) = []" "sched_num_procs (sample_evs st n c k) = n"
  by (simp_all add: sample_evs_def)

lemma sample_evs_ok: "k \<le> 64 \<Longrightarrow> evs_ok (sample_evs st n c k)"
proof -
  assume k: "k \<le> 64"
  then have k': "unat k \<le> 64" by (simp add: word_le_nat_alt)
  have "heap_ok (sample_evs st n c k)" by (subst sample_evs_pmm) (rule sample_heap_ok)
  moreover have "live (sample_evs st n c k) = {}" using k' by (auto simp: live_def)
  ultimately show ?thesis using k' by (auto simp: evs_ok_def arrays_ok_def hp.separate_def)
qed

lemma sample_evs_free: "first_free (sample_evs st n c k) = Some 4"
  by (subst sample_evs_pmm) (rule sample_first_free)

section \<open>Properties\<close>



text \<open>
  C25. \<open>event_unsubscribe\<close> removes the first subscription of the process from the event's list,
  keeps the order of the others and the lists of the other events, and never fails; for an
  event that does not exist it changes nothing.
\<close>

theorem event_unsubscribe_spec:
  assumes "evs_ok s"
  shows "if ev < num_events s
    then \<exists>t. event_unsubscribe pid ev s = Inr ((), t) \<and> evs_ok t \<and> num_events t = num_events s \<and>
      (\<forall>e < unat (num_events s). ev_subs t e = (if e = unat ev then drop_first pid (ev_subs s e) else ev_subs s e))
    else event_unsubscribe pid ev s = Inr ((), s)"
proof (cases "ev < num_events s")
  case True
  then show ?thesis using event_unsubscribe_facts [OF assms True, of pid] by (auto; metis)
qed (simp add: event_unsubscribe_def)

theorem event_unsubscribe_spec_witness:
  "\<exists>t. event_unsubscribe 1 2 (sample_evs [READY, READY] 2 0 3) = Inr ((), t) \<and> evs_ok t \<and> ev_subs t 2 = []"
proof -
  have "evs_ok (sample_evs [READY, READY] 2 0 3)" by (rule sample_evs_ok) simp
  from event_unsubscribe_spec [OF this, of 2 1] show ?thesis by auto
qed

text \<open>
  \<open>event_create\<close> hands out the next event id with an empty list while fewer than 64 events
  exist, leaving the others alone; afterwards it returns \<open>0xffffffff\<close> and changes nothing.
\<close>

theorem event_create_spec:
  assumes "evs_ok s"
  shows "if num_events s < 64
    then \<exists>t. event_create s = Inr (num_events s, t) \<and> evs_ok t \<and> unat (num_events t) = Suc (unat (num_events s)) \<and>
      ev_subs t (unat (num_events s)) = [] \<and> (\<forall>e < unat (num_events s). ev_subs t e = ev_subs s e)
    else event_create s = Inr (0xffffffff, s)"
proof (cases "num_events s < 64")
  case True
  then show ?thesis using event_create_facts [OF assms True] by (simp; metis)
qed (simp add: event_create_def)

theorem event_create_spec_witness:
  "\<exists>t. event_create (sample_evs [] 0 0 63) = Inr (63, t) \<and> evs_ok t \<and> unat (num_events t) = Suc 63 \<and>
     ev_subs t 63 = []"
proof -
  have "evs_ok (sample_evs [] 0 0 63)" by (rule sample_evs_ok) simp
  from event_create_spec [OF this] show ?thesis by auto
qed



text \<open>
  A process that has subscribed twice to an event loses its context when the event fires:
  the frame saved is the one already redirected to the first callback, so \<open>event_exit\<close> returns
  into that callback and never to the interrupted code.
\<close>

theorem event_fire_twice:
  assumes "event_id < num_events s" "ev_subs s (unat event_id) = [(pid, cb1), (pid, cb2)]"
    and "unat pid < length (processes s)"
  shows "\<exists>t. event_fire event_id arg s = Inr ((), t) \<and>
    rip (regs (processes t ! unat pid)) = cb2 \<and> rip (saved_regs (processes t ! unat pid)) = cb1"
  using event_fire_eq [OF assms(1), of arg] assms(2,3)
  by (auto simp: Let_def raise_int_def redirect_def)

theorem event_fire_twice_witness:
  "\<exists>s1 s t. event_subscribe 1 0 0xF00 (sample_evs [READY, READY] 2 0 1) = Inr ((), s1) \<and>
     event_subscribe 1 0 0xE00 s1 = Inr ((), s) \<and> event_fire 0 9 s = Inr ((), t) \<and>
     rip (regs (processes t ! 1)) = 0xE00 \<and> rip (saved_regs (processes t ! 1)) = 0xF00"
proof -
  let ?s = "sample_evs [READY, READY] 2 0 1"
  have ok: "evs_ok ?s" "0 < num_events ?s" "unat (num_subscribers (events ?s ! unat (0 :: u32))) < 255"
    by (simp_all add: sample_evs_ok)
  obtain s1 where s1: "event_subscribe 1 0 0xF00 ?s = Inr ((), s1)"
    using event_subscribe_fails [OF ok, of 1 "0xF00"] sample_evs_free [of "[READY, READY]" 2 0 1]
    by (cases "event_subscribe 1 0 0xF00 ?s") auto
  note f = event_subscribe_facts [OF ok s1] and g = event_subscribe_sched [OF ok s1]
  have n1: "length (ev_subs s1 (unat (0 :: u32))) = 1" unfolding f(2) by simp
  then have ok1: "0 < num_events s1" "unat (num_subscribers (events s1 ! unat (0 :: u32))) < 255"
      "0 < length (ev_subs s1 (unat (0 :: u32)))"
    using f(3) by simp_all
  obtain s where s: "event_subscribe 1 0 0xE00 s1 = Inr ((), s)"
    by (rule event_subscribe_never_fails [OF f(1) ok1])
  note f' = event_subscribe_facts [OF f(1) ok1(1,2) s] and g' = event_subscribe_sched [OF f(1) ok1(1,2) s]
  have "0 < num_events s" "ev_subs s (unat (0 :: u32)) = [(1, 0xF00), (1, 0xE00)]"
    "unat (1 :: u32) < length (processes s)"
    using f(2,3) f'(2,3) g g' by simp_all
  from event_fire_twice [OF this, of 9] show ?thesis using s1 s by auto
qed

text \<open>
  \<open>event_exit\<close> is undone by the scheduler interrupt it raises: the frame it restores is
  overwritten when the interrupt stores the frame \<open>r\<close> of the exiting callback, so the process
  goes on in its callback with the interrupted frame lost from \<open>regs\<close>.
\<close>

theorem event_exit_undone:
  assumes "sched_inv s" "state_flags (processes s ! unat (sched_current_pid s)) \<noteq> DEAD"
    and "event_exit s = Inr (v, t)" "schedule r t = Some (Inr (r', u))"
  shows "regs (processes t ! unat (sched_current_pid s)) = saved_regs (processes s ! unat (sched_current_pid s)) \<and>
    regs (processes u ! unat (sched_current_pid s)) = r"
proof -
  let ?c = "unat (sched_current_pid s)"
  have c: "?c < length (processes s)" "?c < 64" using assms(1) by (auto simp: sched_inv_def sched_ok_def)
  have t: "processes t = (processes s)[?c := (processes s ! ?c)\<lparr>regs := saved_regs (processes s ! ?c)\<rparr>]"
    "sched_current_pid t = sched_current_pid s" "sched_num_procs t = sched_num_procs s" "sched_running t = sched_running s"
    using event_exit_eq [OF c(1)] assms(3) by auto
  then have "sched_inv t" using assms(1) by (simp add: sched_inv_def sched_ok_def slots_def)
  from schedule_step(6) [OF this assms(4), of ?c] show ?thesis using t c assms(2) by simp
qed

theorem event_exit_undone_witness:
  "\<exists>t r' u. event_exit (sample_evs [READY, READY] 2 0 1) = Inr (0, t) \<and>
     schedule (zero_regs\<lparr>rip := 5\<rparr>) t = Some (Inr (r', u)) \<and> regs (processes u ! 0) = zero_regs\<lparr>rip := 5\<rparr>"
proof -
  let ?s = "sample_evs [READY, READY] 2 0 1" and ?r = "zero_regs\<lparr>rip := 5\<rparr>"
  have inv: "sched_inv ?s" by (subst sample_evs_sched) (rule sample_sched_inv; simp)
  obtain t where t: "event_exit ?s = Inr (0, t)" "sched_inv t" "ready t = ready ?s" "slots t = slots ?s"
      "sched_current_pid t = sched_current_pid ?s"
    by (rule event_exit_runs [OF inv])
  have rd: "ready ?s i \<longleftrightarrow> i < 2" for i
    by (subst sample_evs_sched) (auto simp: sample_ready less_2_cases_iff)
  obtain r' u where u: "schedule ?r t = Some (Inr (r', u))"
    by (rule schedule_runs [OF t(2), of 1]) (simp_all add: t rd slots_def)
  have "state_flags (processes ?s ! unat (sched_current_pid ?s)) \<noteq> DEAD" by (simp add: sample_procs_def)
  from event_exit_undone [OF inv this t(1) u] show ?thesis using t(1) u by auto
qed

end
