(* ===== verification/Ports.thy ===== *)
theory Ports
  imports Events
begin

text \<open>
  Port I/O (\<open>arch/x86_64/io/portio.c\<close>), the interrupt flag (\<open>interrupts.c\<close>), the speaker
  (\<open>audio/pcspk.c\<close>) and the serial lines (\<open>io/cereal.c\<close>). The devices behind the ports are
  not under \<open>src/\<close>: \<open>port_dev\<close> is an arbitrary function that answers a read of a port from
  all accesses made so far, oldest first, which are kept in \<open>port_log\<close>. A loop that polls a
  device is a partial function: \<open>None\<close> is a device that is never ready.
\<close>

section \<open>Port accesses\<close>

datatype port_access =
    Out8 u16 u8 | Out16 u16 u16 | Out32 u16 u32
  | In8 u16 | In16 u16 | In32 u16

record iostate = evstate +
  port_log :: "port_access list"
  port_dev :: "port_access list \<Rightarrow> u16 \<Rightarrow> u32"
  int_flag :: bool
  bcd :: bool

definition outb8 :: "u16 \<Rightarrow> u8 \<Rightarrow> 'z iostate_scheme \<Rightarrow> 'z iostate_scheme" where
  "outb8 port v s = s\<lparr>port_log := port_log s @ [Out8 port v]\<rparr>"

definition outb16 :: "u16 \<Rightarrow> u16 \<Rightarrow> 'z iostate_scheme \<Rightarrow> 'z iostate_scheme" where
  "outb16 port v s = s\<lparr>port_log := port_log s @ [Out16 port v]\<rparr>"

definition outb32 :: "u16 \<Rightarrow> u32 \<Rightarrow> 'z iostate_scheme \<Rightarrow> 'z iostate_scheme" where
  "outb32 port v s = s\<lparr>port_log := port_log s @ [Out32 port v]\<rparr>"

definition inb8 :: "u16 \<Rightarrow> 'z iostate_scheme \<Rightarrow> u8 \<times> 'z iostate_scheme" where
  "inb8 port s = (ucast (port_dev s (port_log s) port), s\<lparr>port_log := port_log s @ [In8 port]\<rparr>)"

definition inb16 :: "u16 \<Rightarrow> 'z iostate_scheme \<Rightarrow> u16 \<times> 'z iostate_scheme" where
  "inb16 port s = (ucast (port_dev s (port_log s) port), s\<lparr>port_log := port_log s @ [In16 port]\<rparr>)"

definition inb32 :: "u16 \<Rightarrow> 'z iostate_scheme \<Rightarrow> u32 \<times> 'z iostate_scheme" where
  "inb32 port s = (port_dev s (port_log s) port, s\<lparr>port_log := port_log s @ [In32 port]\<rparr>)"

abbreviation (input) PORT_UNUSED :: u16 where "PORT_UNUSED \<equiv> 0x80"

definition iowait :: "'z iostate_scheme \<Rightarrow> 'z iostate_scheme" where
  "iowait s = outb8 PORT_UNUSED 0 s"

text \<open>The instructions \<open>cli\<close> and \<open>sti\<close>.\<close>

definition disable_interrupts :: "'z iostate_scheme \<Rightarrow> 'z iostate_scheme" where
  "disable_interrupts s = s\<lparr>int_flag := False\<rparr>"

definition enable_interrupts :: "'z iostate_scheme \<Rightarrow> 'z iostate_scheme" where
  "enable_interrupts s = s\<lparr>int_flag := True\<rparr>"

lemmas port_simps = outb8_def outb16_def outb32_def inb8_def inb16_def inb32_def iowait_def
  disable_interrupts_def enable_interrupts_def

section \<open>The speaker\<close>

text \<open>A frequency of 0 is a divide error, interrupt 0, which ends in the panic screen.\<close>

definition play_sound :: "u32 \<Rightarrow> 'z iostate_scheme \<Rightarrow> (unit, 'z iostate_scheme) result" where
  "play_sound frequency s =
     (if frequency = 0 then Inl (Psod 0)
      else
        let quot = 1193180 div frequency;
            s = outb8 0x43 0xb6 s;
            s = outb8 0x42 (ucast quot) s;
            s = outb8 0x42 (ucast (drop_bit 8 quot)) s;
            (tmp, s) = inb8 0x61 s
        in Inr ((), if tmp \<noteq> tmp OR 3 then outb8 0x61 (tmp OR 3) s else s))"

definition nosound :: "'z iostate_scheme \<Rightarrow> 'z iostate_scheme" where
  "nosound s = (let (v, s) = inb8 0x61 s; tmp = v AND 0xFC in outb8 0x61 tmp s)"

section \<open>The serial lines\<close>

abbreviation (input) COM1 :: u32 where "COM1 \<equiv> 0x3F8"
abbreviation (input) COM2 :: u32 where "COM2 \<equiv> 0x2F8"
abbreviation (input) COM3 :: u32 where "COM3 \<equiv> 0x3E8"
abbreviation (input) COM4 :: u32 where "COM4 \<equiv> 0x2E8"
abbreviation (input) COM5 :: u32 where "COM5 \<equiv> 0x5F8"
abbreviation (input) COM6 :: u32 where "COM6 \<equiv> 0x4F8"
abbreviation (input) COM7 :: u32 where "COM7 \<equiv> 0x5E8"
abbreviation (input) COM8 :: u32 where "COM8 \<equiv> 0x4E8"

text \<open>The argument is an \<open>int\<close>; the port functions take its low 16 bits.\<close>

definition is_transmit_empty :: "u32 \<Rightarrow> 'z iostate_scheme \<Rightarrow> u8 \<times> 'z iostate_scheme" where
  "is_transmit_empty port s = (let (v, s) = inb8 (ucast (port + 5)) s in (v AND 0x20, s))"

definition serial_received :: "u32 \<Rightarrow> 'z iostate_scheme \<Rightarrow> u8 \<times> 'z iostate_scheme" where
  "serial_received port s = (let (v, s) = inb8 (ucast (port + 5)) s in (v AND 1, s))"

definition init_cereal_port :: "u32 \<Rightarrow> 'z iostate_scheme \<Rightarrow> bool \<times> 'z iostate_scheme" where
  "init_cereal_port port s =
     (let s = outb8 (ucast (port + 1)) 0x00 s;
          s = outb8 (ucast (port + 3)) 0x80 s;
          s = outb8 (ucast (port + 0)) 0x03 s;
          s = outb8 (ucast (port + 1)) 0x00 s;
          s = outb8 (ucast (port + 3)) 0x03 s;
          s = outb8 (ucast (port + 2)) 0xC7 s;
          s = outb8 (ucast (port + 4)) 0x0B s;
          s = outb8 (ucast (port + 4)) 0x1E s;
          s = outb8 (ucast (port + 0)) 0xAE s;
          (v, s) = inb8 (ucast (port + 0)) s
      in if v \<noteq> 0xAE then (False, s)
         else (True, outb8 (ucast (port + 4)) 0x0F s))"

text \<open>The chain of \<open>&&\<close>: the first port that fails ends it.\<close>

primrec init_ports :: "u32 list \<Rightarrow> 'z iostate_scheme \<Rightarrow> bool \<times> 'z iostate_scheme" where
  "init_ports [] s = (True, s)"
| "init_ports (p # ps) s = (let (ok, s) = init_cereal_port p s in if ok then init_ports ps s else (False, s))"

definition cereal_init :: "'z iostate_scheme \<Rightarrow> bool \<times> 'z iostate_scheme" where
  "cereal_init = init_ports [COM1, COM2, COM3, COM4, COM5, COM6, COM7, COM8]"

partial_function (option) wait_received :: "u32 \<Rightarrow> 'z iostate_scheme \<Rightarrow> 'z iostate_scheme option" where
  "wait_received port s =
     (let (v, s) = serial_received port s in if v = 0 then wait_received port s else Some s)"

text \<open>The \<open>sti\<close> at the end of \<open>cereal_read\<close> comes after the return.\<close>

definition cereal_read :: "u32 \<Rightarrow> 'z iostate_scheme \<Rightarrow> (u8 \<times> 'z iostate_scheme) option" where
  "cereal_read port s = map_option (inb8 (ucast port)) (wait_received port (disable_interrupts s))"

partial_function (option) wait_transmit :: "u32 \<Rightarrow> 'z iostate_scheme \<Rightarrow> 'z iostate_scheme option" where
  "wait_transmit port s =
     (let (v, s) = is_transmit_empty port s in if v = 0 then wait_transmit port s else Some s)"

definition cereal_write :: "u8 \<Rightarrow> u32 \<Rightarrow> 'z iostate_scheme \<Rightarrow> 'z iostate_scheme option" where
  "cereal_write a port s =
     map_option (\<lambda>s. enable_interrupts (outb8 (ucast port) a s)) (wait_transmit port (disable_interrupts s))"

section \<open>Polling\<close>

text \<open>
  \<open>ready_after dev log p m k\<close>: the first read of port \<open>p\<close> after \<open>log\<close> that has a bit of \<open>m\<close> set
  is the one after \<open>k\<close> reads without.
\<close>

primrec ready_after ::
    "(port_access list \<Rightarrow> u16 \<Rightarrow> u32) \<Rightarrow> port_access list \<Rightarrow> u16 \<Rightarrow> u8 \<Rightarrow> nat \<Rightarrow> bool" where
  "ready_after dev log p m 0 \<longleftrightarrow> ucast (dev log p) AND m \<noteq> 0"
| "ready_after dev log p m (Suc k) \<longleftrightarrow> ucast (dev log p) AND m = 0 \<and> ready_after dev (log @ [In8 p]) p m k"

lemma wait_transmit_ready:
  assumes "ready_after (port_dev s) (port_log s) (ucast (port + 5)) 0x20 k"
  shows "wait_transmit port s =
    Some (s\<lparr>port_log := port_log s @ replicate (Suc k) (In8 (ucast (port + 5)))\<rparr>)"
  using assms
proof (induction k arbitrary: s)
  case 0
  then show ?case by (simp add: wait_transmit.simps [of port s] is_transmit_empty_def inb8_def)
next
  case (Suc k)
  let ?s = "s\<lparr>port_log := port_log s @ [In8 (ucast (port + 5))]\<rparr>"
  have "wait_transmit port s = wait_transmit port ?s"
    using Suc.prems by (subst wait_transmit.simps) (simp add: is_transmit_empty_def inb8_def)
  also have "\<dots> = Some (?s\<lparr>port_log := port_log ?s @ replicate (Suc k) (In8 (ucast (port + 5)))\<rparr>)"
    using Suc.prems by (intro Suc.IH) simp
  finally show ?case by simp
qed

lemma wait_received_ready:
  assumes "ready_after (port_dev s) (port_log s) (ucast (port + 5)) 1 k"
  shows "wait_received port s =
    Some (s\<lparr>port_log := port_log s @ replicate (Suc k) (In8 (ucast (port + 5)))\<rparr>)"
  using assms
proof (induction k arbitrary: s)
  case 0
  then show ?case by (simp add: wait_received.simps [of port s] serial_received_def inb8_def)
next
  case (Suc k)
  let ?s = "s\<lparr>port_log := port_log s @ [In8 (ucast (port + 5))]\<rparr>"
  have "wait_received port s = wait_received port ?s"
    using Suc.prems by (subst wait_received.simps) (simp add: serial_received_def inb8_def)
  also have "\<dots> = Some (?s\<lparr>port_log := port_log ?s @ replicate (Suc k) (In8 (ucast (port + 5)))\<rparr>)"
    using Suc.prems by (intro Suc.IH) simp
  finally show ?case by simp
qed

section \<open>Sample states\<close>

text \<open>The sample machine with the devices \<open>dev\<close> behind its ports.\<close>

definition sample_io :: "(port_access list \<Rightarrow> u16 \<Rightarrow> u32) \<Rightarrow> 'z \<Rightarrow> 'z iostate_scheme" where
  "sample_io dev x = \<lparr>pmem = sample_mem 0x0F, hhdm_off = 0xFFFF800000000000, total_mem = 0x8000000,
     free_mem = 0x7FFC000, used_mem = 0x4000, highest_block = 0,
     page_bmp = \<lparr>bm_size = 4096, bm_buffer = 0x1000\<rparr>,
     cr3 = 0x3000, hn_pagemap = 0x3000, lapic_base = 0xFEE00000, ticks = 62500, mmio = [], soft_ints = [],
     processes = sample_procs [READY], sched_num_procs = 1, sched_current_pid = 0, sched_running = True,
     events = replicate 64 \<lparr>event = 0, subscribers = NULL, num_subscribers = 0\<rparr>, num_events = 0,
     port_log = [], port_dev = dev, int_flag = True, bcd = True, \<dots> = x\<rparr>"

lemma sample_io_fields [simp]:
  "port_log (sample_io dev x) = []" "port_dev (sample_io dev x) = dev" "int_flag (sample_io dev x)"
  "bcd (sample_io dev x)" "hhdm_off (sample_io dev x) = 0xFFFF800000000000"
  "pmem (sample_io dev x) = sample_mem 0x0F"
  by (simp_all add: sample_io_def)

lemma sample_io_pmm: "sample_io dev x = sample (pmm.more (sample_io dev x))"
  by (simp add: sample_io_def sample_def sample_with_def)

lemma sample_io_sched: "sample_io dev x = sample_sched [READY] 1 0 (sched.more (sample_io dev x))"
  by (simp add: sample_io_def sample_sched_def)

section \<open>Properties\<close>

text \<open>
  The serial line: when the line-status register shows the transmitter empty after \<open>k\<close>
  polls, \<open>cereal_write\<close> returns, having polled \<open>k + 1\<close> times and then sent the byte, with
  interrupts on again; \<open>cereal_read\<close> likewise returns the byte received, but with interrupts
  off, because its \<open>sti\<close> follows the return.
\<close>

theorem cereal_write_read_spec:
  assumes "ready_after (port_dev s) (port_log s) (ucast (port + 5)) 0x20 k"
    "ready_after (port_dev s) (port_log s) (ucast (port + 5)) 1 l"
  shows "cereal_write a port s = Some (s\<lparr>int_flag := True,
      port_log := port_log s @ replicate (Suc k) (In8 (ucast (port + 5))) @ [Out8 (ucast port) a]\<rparr>) \<and>
    (\<exists>t. cereal_read port s =
      Some (ucast (port_dev s (port_log s @ replicate (Suc l) (In8 (ucast (port + 5)))) (ucast port)), t) \<and>
      \<not> int_flag t)"
proof -
  let ?s = "disable_interrupts s"
  have w: "wait_transmit port ?s = Some (?s\<lparr>port_log := port_log s @ replicate (Suc k) (In8 (ucast (port + 5)))\<rparr>)"
    using wait_transmit_ready [of ?s port k] assms(1) by (simp add: disable_interrupts_def)
  have r: "wait_received port ?s = Some (?s\<lparr>port_log := port_log s @ replicate (Suc l) (In8 (ucast (port + 5)))\<rparr>)"
    using wait_received_ready [of ?s port l] assms(2) by (simp add: disable_interrupts_def)
  show ?thesis unfolding cereal_write_def cereal_read_def w r by (simp add: port_simps)
qed

text \<open>A line that is busy for two polls and has a byte waiting.\<close>

definition sample_line :: "port_access list \<Rightarrow> u16 \<Rightarrow> u32" where
  "sample_line log p = (if length log < 2 then 0 else 0x61)"

theorem cereal_write_read_spec_witness:
  "cereal_write 0x41 COM1 (sample_io sample_line ()) = Some ((sample_io sample_line ())\<lparr>int_flag := True,
      port_log := [In8 0x3FD, In8 0x3FD, In8 0x3FD, Out8 0x3F8 0x41]\<rparr>) \<and>
   (\<exists>t. cereal_read COM1 (sample_io sample_line ()) = Some (0x61, t) \<and> \<not> int_flag t)"
  using cereal_write_read_spec [of "sample_io sample_line ()" COM1 "Suc (Suc 0)" "Suc (Suc 0)" "0x41"]
  by (simp add: sample_line_def)

end
