(* ===== verification/Rtc.thy ===== *)
theory Rtc
  imports Ports
begin

text \<open>
  The real-time clock, \<open>arch/x86_64/rtc.c\<close>: registers read and written through an index and a
  data port, values in binary or packed decimal, as the status register says.
\<close>

section \<open>The code\<close>

abbreviation (input) RTC_COMMAND :: u16 where "RTC_COMMAND \<equiv> 0x70"
abbreviation (input) RTC_DATA :: u16 where "RTC_DATA \<equiv> 0x71"
abbreviation (input) RTC_STATUS :: u8 where "RTC_STATUS \<equiv> 0x0B"
abbreviation (input) RTC_SECONDS :: u8 where "RTC_SECONDS \<equiv> 0x00"
abbreviation (input) RTC_MINUTES :: u8 where "RTC_MINUTES \<equiv> 0x02"
abbreviation (input) RTC_HOURS :: u8 where "RTC_HOURS \<equiv> 0x04"
abbreviation (input) RTC_DAY_OF_WEEK :: u8 where "RTC_DAY_OF_WEEK \<equiv> 0x06"
abbreviation (input) RTC_DAY :: u8 where "RTC_DAY \<equiv> 0x07"
abbreviation (input) RTC_MONTH :: u8 where "RTC_MONTH \<equiv> 0x08"
abbreviation (input) RTC_YEAR :: u8 where "RTC_YEAR \<equiv> 0x09"

record rtc_time_point =
  seconds :: u32
  minutes :: u32
  hours :: u32
  day_of_week :: u32
  day_of_month :: u32
  month :: u32
  year :: u32
  full :: "u32 list"

text \<open>The \<open>sti\<close> of \<open>read_register\<close> comes after the return: interrupts stay off.\<close>

definition read_register :: "u8 \<Rightarrow> 'z iostate_scheme \<Rightarrow> u8 \<times> 'z iostate_scheme" where
  "read_register reg s =
     (let s = disable_interrupts s;
          s = outb8 RTC_COMMAND reg s
      in inb8 RTC_DATA s)"

definition write_register :: "u8 \<Rightarrow> u8 \<Rightarrow> 'z iostate_scheme \<Rightarrow> 'z iostate_scheme" where
  "write_register reg v s =
     (let s = disable_interrupts s;
          s = outb8 RTC_COMMAND reg s;
          s = outb8 RTC_DATA v s
      in enable_interrupts s)"

definition bcd2bin :: "bool \<Rightarrow> u8 \<Rightarrow> u8" where
  "bcd2bin is_bcd in_bcd =
     (if is_bcd then drop_bit 4 in_bcd * 10 + (in_bcd AND 0x0F) else in_bcd)"

definition read_time :: "u8 \<Rightarrow> 'z iostate_scheme \<Rightarrow> u32 \<times> 'z iostate_scheme" where
  "read_time reg s = (let (v, s) = read_register reg s in (ucast (bcd2bin (bcd s) v), s))"

definition time_get :: "'z iostate_scheme \<Rightarrow> rtc_time_point \<times> 'z iostate_scheme" where
  "time_get s =
     (let (sec, s) = read_time RTC_SECONDS s;
          (mins, s) = read_time RTC_MINUTES s;
          (h, s) = read_time RTC_HOURS s;
          (dow, s) = read_time RTC_DAY_OF_WEEK s;
          (dom, s) = read_time RTC_DAY s;
          (mon, s) = read_time RTC_MONTH s;
          (y, s) = read_time RTC_YEAR s
      in (\<lparr>seconds = sec, minutes = mins, hours = h, day_of_week = dow, day_of_month = dom,
           month = mon, year = y, full = [sec, mins, h, dom, mon, y]\<rparr>, s))"

definition rtc_init :: "'z iostate_scheme \<Rightarrow> 'z iostate_scheme" where
  "rtc_init s =
     (let s = disable_interrupts s;
          (status, s) = read_register RTC_STATUS s;
          status = status OR 0x02;
          status = status OR 0x10;
          status = status AND NOT 0x20;
          status = status AND NOT 0x40;
          s = s\<lparr>bcd := (status AND 0x04 = 0)\<rparr>;
          s = write_register RTC_STATUS status s
      in enable_interrupts s)"

section \<open>Packed decimal\<close>

definition bin2bcd :: "nat \<Rightarrow> u8" where
  "bin2bcd n = of_nat (16 * (n div 10) + n mod 10)"

lemma unat_bin2bcd: "n < 100 \<Longrightarrow> unat (bin2bcd n) = 16 * (n div 10) + n mod 10"
proof -
  assume "n < 100"
  then have "16 * (n div 10) + n mod 10 < 256" by linarith
  then show ?thesis by (simp only: bin2bcd_def unat_of_nat) (simp add: take_bit_nat_eq_self)
qed

lemma bcd2bin_bin2bcd:
  assumes "n < 100"
  shows "unat (bcd2bin True (bin2bcd n)) = n"
proof -
  have hi: "unat (drop_bit 4 (bin2bcd n)) = n div 10"
    using unat_bin2bcd [OF assms] by (simp add: drop_bit_eq_div unat_div_distrib)
  have "bin2bcd n AND 0x0F = take_bit 4 (bin2bcd n)"
    by (simp add: take_bit_eq_mask mask_eq_exp_minus_1)
  then have "unat (bin2bcd n AND 0x0F) = unat (bin2bcd n) mod 16"
    by (simp add: unsigned_take_bit_eq take_bit_eq_mod unat_mod_distrib)
  then have lo: "unat (bin2bcd n AND 0x0F) = n mod 10"
    using unat_bin2bcd [OF assms] by simp
  show ?thesis using assms hi lo
    by (simp add: bcd2bin_def unat_word_ariths)
qed

section \<open>A clock behind the ports\<close>

text \<open>
  What the code relies on of the device: a read of the data port answers the register selected
  last.
\<close>

definition clock :: "(u8 \<Rightarrow> u8) \<Rightarrow> (port_access list \<Rightarrow> u16 \<Rightarrow> u32) \<Rightarrow> bool" where
  "clock cmos dev \<longleftrightarrow> (\<forall>log r. dev (log @ [Out8 RTC_COMMAND r]) RTC_DATA = ucast (cmos r))"

lemma read_time_clock:
  assumes "clock cmos (port_dev s)"
  shows "fst (read_time r s) = ucast (bcd2bin (bcd s) (cmos r)) \<and>
    port_dev (snd (read_time r s)) = port_dev s \<and> bcd (snd (read_time r s)) = bcd s \<and>
    \<not> int_flag (snd (read_time r s))"
  using assms by (simp add: read_time_def read_register_def port_simps clock_def Let_def ucast_down_ucast_id is_down)

lemma time_get_clock:
  assumes "clock cmos (port_dev s)"
  shows "fst (time_get s) =
    (let v = (\<lambda>r. ucast (bcd2bin (bcd s) (cmos r))) in
     \<lparr>seconds = v RTC_SECONDS, minutes = v RTC_MINUTES, hours = v RTC_HOURS, day_of_week = v RTC_DAY_OF_WEEK,
      day_of_month = v RTC_DAY, month = v RTC_MONTH, year = v RTC_YEAR,
      full = [v RTC_SECONDS, v RTC_MINUTES, v RTC_HOURS, v RTC_DAY, v RTC_MONTH, v RTC_YEAR]\<rparr>) \<and>
    \<not> int_flag (snd (time_get s))"
proof -
  have c: "clock cmos (port_dev t) \<Longrightarrow> bcd t = bcd s \<Longrightarrow>
      \<exists>u. read_time r t = (ucast (bcd2bin (bcd s) (cmos r)), u) \<and> clock cmos (port_dev u) \<and>
        bcd u = bcd s \<and> \<not> int_flag u" for t :: "'a iostate_scheme" and r
    using read_time_clock [of cmos t r] by (cases "read_time r t") auto
  obtain s1 where 1: "read_time RTC_SECONDS s = (ucast (bcd2bin (bcd s) (cmos RTC_SECONDS)), s1)"
      "clock cmos (port_dev s1)" "bcd s1 = bcd s" using c [OF assms] by blast
  obtain s2 where 2: "read_time RTC_MINUTES s1 = (ucast (bcd2bin (bcd s) (cmos RTC_MINUTES)), s2)"
      "clock cmos (port_dev s2)" "bcd s2 = bcd s" using c [OF 1(2,3)] by blast
  obtain s3 where 3: "read_time RTC_HOURS s2 = (ucast (bcd2bin (bcd s) (cmos RTC_HOURS)), s3)"
      "clock cmos (port_dev s3)" "bcd s3 = bcd s" using c [OF 2(2,3)] by blast
  obtain s4 where 4: "read_time RTC_DAY_OF_WEEK s3 = (ucast (bcd2bin (bcd s) (cmos RTC_DAY_OF_WEEK)), s4)"
      "clock cmos (port_dev s4)" "bcd s4 = bcd s" using c [OF 3(2,3)] by blast
  obtain s5 where 5: "read_time RTC_DAY s4 = (ucast (bcd2bin (bcd s) (cmos RTC_DAY)), s5)"
      "clock cmos (port_dev s5)" "bcd s5 = bcd s" using c [OF 4(2,3)] by blast
  obtain s6 where 6: "read_time RTC_MONTH s5 = (ucast (bcd2bin (bcd s) (cmos RTC_MONTH)), s6)"
      "clock cmos (port_dev s6)" "bcd s6 = bcd s" using c [OF 5(2,3)] by blast
  obtain s7 where 7: "read_time RTC_YEAR s6 = (ucast (bcd2bin (bcd s) (cmos RTC_YEAR)), s7)"
      "\<not> int_flag s7" using c [OF 6(2,3)] by blast
  show ?thesis by (simp add: time_get_def Let_def 1(1) 2(1) 3(1) 4(1) 5(1) 6(1) 7)
qed

section \<open>Properties\<close>

text \<open>
  With a clock that keeps packed-decimal registers behind the ports, \<open>time_get\<close> returns the
  numbers the registers stand for, in the fields and in the array \<open>full\<close>; afterwards interrupts
  are off.
\<close>

theorem time_get_spec:
  assumes "clock (\<lambda>r. bin2bcd (num r)) (port_dev s)" "bcd s" "\<forall>r. num r < 100"
  shows "fst (time_get s) =
    (let v = (\<lambda>r. of_nat (num r)) in
     \<lparr>seconds = v RTC_SECONDS, minutes = v RTC_MINUTES, hours = v RTC_HOURS, day_of_week = v RTC_DAY_OF_WEEK,
      day_of_month = v RTC_DAY, month = v RTC_MONTH, year = v RTC_YEAR,
      full = [v RTC_SECONDS, v RTC_MINUTES, v RTC_HOURS, v RTC_DAY, v RTC_MONTH, v RTC_YEAR]\<rparr>) \<and>
    \<not> int_flag (snd (time_get s))"
proof -
  have "(ucast (bcd2bin True (bin2bcd (num r))) :: u32) = of_nat (num r)" for r
    using bcd2bin_bin2bcd [of "num r"] assms(3) by (metis of_nat_unat)
  then show ?thesis using time_get_clock [OF assms(1)] assms(2) by simp
qed

text \<open>A clock at 23:59:58 on the 31st of December 99.\<close>

definition sample_num :: "u8 \<Rightarrow> nat" where
  "sample_num r = (if r = RTC_HOURS then 23 else if r = RTC_MINUTES then 59 else if r = RTC_SECONDS then 58
     else if r = RTC_DAY then 31 else if r = RTC_MONTH then 12 else if r = RTC_YEAR then 99 else 5)"

definition sample_clock :: "port_access list \<Rightarrow> u16 \<Rightarrow> u32" where
  "sample_clock log p =
     (case rev log of Out8 q r # _ \<Rightarrow> if q = RTC_COMMAND then ucast (bin2bcd (sample_num r)) else 0 | _ \<Rightarrow> 0)"

theorem time_get_spec_witness:
  "full (fst (time_get (sample_io sample_clock ()))) = [58, 59, 23, 31, 12, 99] \<and>
   \<not> int_flag (snd (time_get (sample_io sample_clock ())))"
proof -
  have "clock (\<lambda>r. bin2bcd (sample_num r)) (port_dev (sample_io sample_clock ()))"
    by (simp add: clock_def sample_clock_def)
  moreover have "\<forall>r. sample_num r < 100" by (simp add: sample_num_def)
  ultimately show ?thesis
    using time_get_spec [of sample_num "sample_io sample_clock ()"] by (simp add: sample_num_def)
qed

end
