(* ===== verification/Vector.thy ===== *)
theory Vector
  imports Heap
begin

text \<open>
  The growing arrays of \<open>libk/vector.h\<close>, on the kernel heap, for elements of 8 bytes (the only
  ones the kernel keeps in them are pointers). \<open>holds s v xs\<close> reads a vector as the list of its
  elements; each macro is an operation on lists.
\<close>

section \<open>The code\<close>

record vec =
  v_len :: usize
  v_cap :: usize
  v_data :: ptr

text \<open>The macros, \<open>sizeof(elem)\<close> is 8.\<close>

definition vector_init :: "'z pmm_scheme \<Rightarrow> (vec, 'z pmm_scheme) result" where
  "vector_init s = then_do (malloc 500 s) (\<lambda>p s. Inr (\<lparr>v_len = 0, v_cap = 500, v_data = p\<rparr>, s))"

definition vector_push_back :: "u64 \<Rightarrow> vec \<Rightarrow> 'z pmm_scheme \<Rightarrow> (vec, 'z pmm_scheme) result" where
  "vector_push_back elem v s =
     (let v = v\<lparr>v_len := v_len v + 1\<rparr> in
      then_do
        (if v_cap v < v_len v * 8 then
           let v = v\<lparr>v_cap := v_len v * 8 * 4\<rparr> in
           then_do (realloc (v_data v) (v_cap v) s) (\<lambda>p s. Inr (v\<lparr>v_data := p\<rparr>, s))
         else Inr (v, s))
        (\<lambda>v s. Inr (v, store64 (v_data v + 8 * (v_len v - 1)) elem s)))"

definition vector_length :: "vec \<Rightarrow> usize" where
  "vector_length v = v_len v"

definition vector_at :: "'z machine_scheme \<Rightarrow> vec \<Rightarrow> usize \<Rightarrow> u64" where
  "vector_at s v index = load64 s (v_data v + 8 * index)"

text \<open>The byte count is \<open>sizeof(data[0]) * len - index - 1\<close>, without parentheses.\<close>

definition vector_erase :: "usize \<Rightarrow> vec \<Rightarrow> 'z pmm_scheme \<Rightarrow> vec \<times> 'z pmm_scheme" where
  "vector_erase index v s =
     (let s = memcpy (v_data v + 8 * index) (v_data v + 8 * (index + 1)) (8 * v_len v - index - 1) s
      in (v\<lparr>v_len := v_len v - 1\<rparr>, s))"

definition vector_erase_all :: "vec \<Rightarrow> 'z pmm_scheme \<Rightarrow> vec \<times> 'z pmm_scheme" where
  "vector_erase_all v s =
     (let v = v\<lparr>v_len := 0, v_cap := 0\<rparr>;
          s = (if v_data v \<noteq> NULL then free (v_data v) s else s)
      in (v\<lparr>v_data := NULL\<rparr>, s))"

primrec erase_val_loop :: "u64 \<Rightarrow> nat \<Rightarrow> usize \<Rightarrow> vec \<Rightarrow> 'z pmm_scheme \<Rightarrow> vec \<times> 'z pmm_scheme" where
  "erase_val_loop val 0 i v s = (v, s)"
| "erase_val_loop val (Suc k) i v s =
     (if vector_at s v i = val then vector_erase i v s else erase_val_loop val k (i + 1) v s)"

definition vector_erase_val :: "u64 \<Rightarrow> vec \<Rightarrow> 'z pmm_scheme \<Rightarrow> vec \<times> 'z pmm_scheme" where
  "vector_erase_val val v s = erase_val_loop val (unat (v_len v)) 0 v s"

section \<open>A vector as a list\<close>

definition words_bytes :: "u64 list \<Rightarrow> u8 list" where
  "words_bytes xs = concat (map (word_bytes 8) xs)"

lemma length_words_bytes [simp]: "length (words_bytes xs) = 8 * length xs"
  by (induction xs) (simp_all add: words_bytes_def)

lemma words_bytes_append: "words_bytes (xs @ ys) = words_bytes xs @ words_bytes ys"
  by (simp add: words_bytes_def)

lemma words_bytes_single: "words_bytes [x] = word_bytes 8 x"
  by (simp add: words_bytes_def)

text \<open>
  The capacities that occur while the block fits in a page: 500 bytes, and 2016 after the
  63rd element. So a vector holds up to 252 elements here.
\<close>

definition holds :: "'z pmm_scheme \<Rightarrow> vec \<Rightarrow> u64 list \<Rightarrow> bool" where
  "holds s v xs \<longleftrightarrow> heap_ok s \<and> v_len v = of_nat (length xs) \<and> v_cap v \<in> {500, 2016} \<and>
     page_block s (v_data v) (unat (v_cap v)) \<and> 8 * length xs \<le> unat (v_cap v) \<and>
     load_bytes s (v_data v) (8 * length xs) = words_bytes xs"

lemma holds_length: "holds s v xs \<Longrightarrow> length xs \<le> 252"
  by (auto simp: holds_def)

lemma cap_4088: "holds s v xs \<Longrightarrow> unat (v_cap v) \<le> 4088"
  by (auto simp: holds_def)

text \<open>Physical bytes no operation on the vector touches.\<close>

definition bystander :: "'z pmm_scheme \<Rightarrow> vec \<Rightarrow> u64 \<Rightarrow> bool" where
  "bystander s v q \<longleftrightarrow> q \<notin> bmp_region (page_bmp s) s \<and> frame q \<in> used_frames s \<and> frame q \<noteq> page_of s (v_data v)"

lemma vector_at_nth:
  assumes "holds s v xs" "i < length xs"
  shows "vector_at s v (of_nat i) = xs ! i"
proof -
  have e: "load_bytes s (v_data v) (8 * length xs) = words_bytes xs" using assms by (simp add: holds_def)
  have "8 * length xs = 8 * i + (8 + 8 * (length xs - Suc i))" using assms(2) by simp
  then have l: "load_bytes s (v_data v) (8 * i) @ load_bytes s (v_data v + of_nat (8 * i)) 8 @
      load_bytes s (v_data v + of_nat (8 * i) + 8) (8 * (length xs - Suc i)) = words_bytes xs"
    using e load_bytes_append [of s "v_data v" "8 * i"] load_bytes_append [of s "v_data v + of_nat (8 * i)" 8]
    by simp
  moreover have "words_bytes xs = words_bytes (take i xs) @ word_bytes 8 (xs ! i) @ words_bytes (drop (Suc i) xs)"
    using id_take_nth_drop [OF assms(2)] by (metis append_Cons append_Nil words_bytes_append words_bytes_single)
  ultimately have "load_bytes s (v_data v + of_nat (8 * i)) 8 = word_bytes 8 (xs ! i)"
    using assms(2) by (simp add: append_eq_append_conv)
  then show ?thesis
    by (simp add: vector_at_def load64_def bytes_word_word_bytes take_bit_word_eq_self)
qed

lemma vector_init_holds:
  assumes "heap_ok s" "first_free s \<noteq> None"
  obtains v t where "vector_init s = Inr (v, t)" "holds t v []" "pmm.more t = pmm.more s" "hhdm_off t = hhdm_off s"
    "\<And>q. q \<notin> bmp_region (page_bmp s) s \<Longrightarrow> frame q \<in> used_frames s \<Longrightarrow> bystander t v q \<and> pmem t q = pmem s q"
proof -
  have "(500::nat) \<le> 4088" by simp
  then obtain p t where m: "malloc (of_nat 500) s = Inr (p, t)"
    using malloc_succeeds [OF assms(1) small_4088 assms(2)] by blast
  note mp = malloc_page [OF assms(1) \<open>500 \<le> 4088\<close> m]
  let ?v = "\<lparr>v_len = 0, v_cap = 500, v_data = p\<rparr>"
  have "vector_init s = Inr (?v, t)" using m by (simp add: vector_init_def)
  moreover have "holds t ?v []" using mp(1,2) by (simp add: holds_def words_bytes_def)
  moreover have "bystander t ?v q \<and> pmem t q = pmem s q"
    if "q \<notin> bmp_region (page_bmp s) s" "frame q \<in> used_frames s" for q
  proof -
    have "frame q \<noteq> page_of t p" using that(2) mp(3) by metis
    then show ?thesis using that mp(4,6,7,9) bmp_region_cong [of t s "page_bmp s"] by (simp add: bystander_def)
  qed
  ultimately show thesis using that mp by blast
qed


section \<open>Appending\<close>

text \<open>A store at the end of a block that has room for it.\<close>

lemma store_append:
  fixes x :: u64
  assumes "heap_ok s" "page_block s p n" "8 * Suc (length xs) \<le> n"
    "load_bytes s p (8 * length xs) = words_bytes xs"
  defines "t \<equiv> store64 (p + 8 * of_nat (length xs)) x s"
  shows "heap_ok t" "page_block t p n" "load_bytes t p (8 * length (xs @ [x])) = words_bytes (xs @ [x])"
    "used_frames t = used_frames s" "hhdm_off t = hhdm_off s" "page_bmp t = page_bmp s" "pmm.more t = pmm.more s"
    "page_of t u = page_of s u" "frame q \<noteq> page_of s p \<Longrightarrow> pmem t q = pmem s q"
proof -
  let ?i = "8 * length xs"
  have i: "?i + length (word_bytes 8 x) \<le> n" using assms(3) by simp
  have t: "t = store_bytes (p + of_nat ?i) (word_bytes 8 x) s" by (simp add: t_def store64_def)
  note st = store_in_block [OF assms(1,2) i, folded t]
  show "heap_ok t" "page_block t p n" "used_frames t = used_frames s" by (rule st)+
  show same: "hhdm_off t = hhdm_off s" "page_bmp t = page_bmp s" "pmm.more t = pmm.more s"
  proof -
    obtain m where "t = s\<lparr>pmem := m\<rparr>" using store64_pmem_only unfolding t_def by blast
    then show "hhdm_off t = hhdm_off s" "page_bmp t = page_bmp s" "pmm.more t = pmm.more s" by simp_all
  qed
  show "page_of t u = page_of s u" using base_cong [OF same(1)] by (simp add: page_of_def)
  have "load_bytes t p (8 * length (xs @ [x])) = take (8 * length (xs @ [x])) (load_bytes t p n)"
    using assms(3) by (simp add: take_load_bytes)
  also have "\<dots> = load_bytes s p ?i @ word_bytes 8 x"
    unfolding st(4) using assms(3) by (simp add: take_load_bytes)
  finally show "load_bytes t p (8 * length (xs @ [x])) = words_bytes (xs @ [x])"
    using assms(4) by (simp add: words_bytes_append words_bytes_single)
  show "pmem t q = pmem s q" if "frame q \<noteq> page_of s p"
  proof -
    note f = page_block_facts [OF assms(1,2)]
    have sp: "span (hhdm_off s) (p + of_nat ?i) (length (word_bytes 8 x)) (base s p + 8 + of_nat ?i)"
      by (rule span_shift [OF f(4) i])
    have "n \<le> 4088" using assms(2) by (simp add: page_block_def)
    have "unat (base s p + 8 + of_nat ?i) = unat (base s p + 8) + ?i"
      using span_bound [OF f(4)] assms(3) by (intro unat_add_of_nat) simp
    then have "q \<notin> prange (base s p + 8 + of_nat ?i) 8"
      using that frame_in_block [OF assms(1,2), of q] assms(3) by (auto simp: prange_def)
    then show ?thesis unfolding t using pmem_store_bytes_other [OF sp] by simp
  qed
qed


text \<open>Growing: the block moves to one of 2016 bytes, with the elements it had.\<close>

lemma grow:
  assumes "holds s v xs"
  obtains p t where "realloc (v_data v) 2016 s = Inr (p, t)" "heap_ok t" "page_block t p 2016"
    "load_bytes t p (8 * length xs) = words_bytes xs" "hhdm_off t = hhdm_off s" "pmm.more t = pmm.more s"
    "\<And>q. bystander s v q \<Longrightarrow> q \<notin> bmp_region (page_bmp t) t \<and> frame q \<in> used_frames t \<and>
       frame q \<noteq> page_of t p \<and> pmem t q = pmem s q"
proof -
  have h: "heap_ok s" "page_block s (v_data v) (unat (v_cap v))" "8 * length xs \<le> unat (v_cap v)"
    "load_bytes s (v_data v) (8 * length xs) = words_bytes xs"
    using assms by (auto simp: holds_def)
  have m: "(2016::nat) \<le> 4088" by simp
  have len: "8 * length xs \<le> 2016" using holds_length [OF assms] by simp
  have v: "v_data v = NULL \<or> page_block s (v_data v) (unat (v_cap v))" using h by blast
  obtain p t where r: "realloc (v_data v) (of_nat 2016) s = Inr (p, t)"
    using realloc_spec [OF h(1,2) m] by blast
  note rp = realloc_page [OF h(1) v m r]
  have nn: "v_data v \<noteq> NULL" by (rule page_block_facts(8) [OF h(1,2)])
  have other: "q \<notin> bmp_region (page_bmp t) t \<and> frame q \<in> used_frames t \<and> frame q \<noteq> page_of t p \<and>
      pmem t q = pmem s q" if "bystander s v q" for q
  proof -
    have q: "q \<notin> bmp_region (page_bmp s) s" "frame q \<in> used_frames s - released s (v_data v)"
      using that nn by (auto simp: bystander_def released_def)
    then have ne: "frame q \<noteq> page_of t p" using rp(4) by metis
    then show ?thesis using q rp(3,5,6) rp(9) [OF q(1) ne] bmp_region_cong [of t s "page_bmp s"] by simp
  qed
  show thesis
  proof (rule that [of p t])
    show "realloc (v_data v) 2016 s = Inr (p, t)" using r by simp
    show "load_bytes t p (8 * length xs) = words_bytes xs"
      using realloc_page_bytes [OF h(1,2) m r h(3) len] h(4) by simp
  qed (rule rp other, assumption?)+
qed

lemma push_back_holds:
  assumes "holds s v xs" "length xs < 252"
  obtains v' t where "vector_push_back x v s = Inr (v', t)" "holds t v' (xs @ [x])"
    "pmm.more t = pmm.more s" "hhdm_off t = hhdm_off s"
    "\<And>q. bystander s v q \<Longrightarrow> bystander t v' q \<and> pmem t q = pmem s q"
proof -
  let ?n = "length xs"
  have h: "heap_ok s" "v_len v = of_nat ?n" "v_cap v = 500 \<or> v_cap v = 2016"
    "page_block s (v_data v) (unat (v_cap v))" "8 * ?n \<le> unat (v_cap v)"
    "load_bytes s (v_data v) (8 * ?n) = words_bytes xs"
    using assms by (auto simp: holds_def)
  have l: "(v_len v + 1) * 8 = of_nat (8 * Suc ?n)" by (simp add: h(2) algebra_simps)
  have ul: "unat (of_nat (8 * Suc ?n) :: u64) = 8 * Suc ?n" using assms(2) by (intro unat_of_nat_u64) simp
  have full: "v_cap v < (v_len v + 1) * 8 \<longleftrightarrow> unat (v_cap v) < 8 * Suc ?n"
    by (simp only: l word_less_nat_alt ul)
  show thesis
  proof (cases "unat (v_cap v) < 8 * Suc ?n")
    case False
    let ?t = "store64 (v_data v + 8 * of_nat ?n) x s" and ?v = "v\<lparr>v_len := v_len v + 1\<rparr>"
    have room: "8 * Suc ?n \<le> unat (v_cap v)" using False by simp
    note sa = store_append [OF h(1,4) room h(6), where x = x]
    show thesis
    proof (rule that [of ?v ?t])
      show "vector_push_back x v s = Inr (?v, ?t)"
        using False full h(2) by (simp add: vector_push_back_def)
      show "holds ?t ?v (xs @ [x])"
        using sa h room by (simp add: holds_def add.commute)
      show "bystander ?t ?v q \<and> pmem ?t q = pmem s q" if "bystander s v q" for q
        using that sa bmp_region_cong [of ?t s "page_bmp s"] by (simp add: bystander_def)
    qed (rule sa)+
  next
    case True
    then have n: "?n = 62" "v_cap v = 500" using h(3,5) assms(2) by auto
    then have cap: "(v_len v + 1) * 8 * 4 = 2016" by (simp add: h(2))
    obtain p s1 where g: "realloc (v_data v) 2016 s = Inr (p, s1)" "heap_ok s1" "page_block s1 p 2016"
      "load_bytes s1 p (8 * ?n) = words_bytes xs" "hhdm_off s1 = hhdm_off s" "pmm.more s1 = pmm.more s"
      "\<And>q. bystander s v q \<Longrightarrow> q \<notin> bmp_region (page_bmp s1) s1 \<and> frame q \<in> used_frames s1 \<and>
         frame q \<noteq> page_of s1 p \<and> pmem s1 q = pmem s q"
      using grow [OF assms(1)] by metis
    let ?t = "store64 (p + 8 * of_nat ?n) x s1" and ?v = "\<lparr>v_len = v_len v + 1, v_cap = 2016, v_data = p\<rparr>"
    have room: "8 * Suc ?n \<le> 2016" using n by simp
    have u2016: "unat (2016 :: u64) = 2016" by simp
    note sa = store_append [OF g(2,3) room g(4), where x = x]
    show thesis
    proof (rule that [of ?v ?t])
      show "vector_push_back x v s = Inr (?v, ?t)"
        using True full g(1) h(2) cap by (simp add: vector_push_back_def)
      show "holds ?t ?v (xs @ [x])"
        unfolding holds_def vec.select_convs u2016
        using sa(1-3) h(2) room by (simp add: add.commute)
      show "bystander ?t ?v q \<and> pmem ?t q = pmem s q" if "bystander s v q" for q
        using g(7) [OF that] sa bmp_region_cong [of ?t s1 "page_bmp s1"] by (simp add: bystander_def)
      show "pmm.more ?t = pmm.more s" "hhdm_off ?t = hhdm_off s" using sa g by simp_all
    qed
  qed
qed


section \<open>Erasing\<close>

lemma words_bytes_drop: "drop (8 * k) (words_bytes xs) = words_bytes (drop k xs)"
proof (induction xs arbitrary: k)
  case (Cons x xs)
  then show ?case by (cases k) (simp_all add: words_bytes_def del: drop_drop)
qed (simp add: words_bytes_def)

lemma words_bytes_take: "take (8 * k) (words_bytes xs) = words_bytes (take k xs)"
proof (induction xs arbitrary: k)
  case (Cons x xs)
  then show ?case by (cases k) (simp_all add: words_bytes_def)
qed (simp add: words_bytes_def)

text \<open>
  The macro copies \<open>7 * index + 7\<close> bytes more than the elements after the erased one. With room
  for them in the block it erases the element.
\<close>

lemma vector_erase_holds:
  assumes "holds s v xs" "i < length xs" "8 * length xs + 7 * i + 7 \<le> unat (v_cap v)"
    and "vector_erase (of_nat i) v s = (v', t)"
  shows "holds t v' (take i xs @ drop (Suc i) xs)"
proof -
  let ?n = "length xs" and ?p = "v_data v" and ?cap = "unat (v_cap v)"
  let ?c = "8 * ?n - i - 1"
  have h: "heap_ok s" "v_len v = of_nat ?n" "page_block s ?p ?cap" "load_bytes s ?p (8 * ?n) = words_bytes xs"
    "?cap \<le> 4088"
    using assms(1) cap_4088 [OF assms(1)] by (auto simp: holds_def)
  note f = page_block_facts [OF h(1,3)]
  have count: "8 * v_len v - of_nat i - 1 = of_nat ?c"
    using assms(2) by (simp add: h(2) of_nat_diff)
  have uc: "unat (of_nat ?c :: u64) = ?c" using assms(3) h(5) by (intro unat_4088) linarith
  have t: "t = memcpy (?p + of_nat (8 * i)) (?p + of_nat (8 * Suc i)) (of_nat ?c) s"
    and v': "v' = v\<lparr>v_len := v_len v - 1\<rparr>"
    using assms(4) count by (auto simp: vector_erase_def Let_def algebra_simps)
  have sd: "span (hhdm_off s) (?p + of_nat (8 * i)) ?c (base s ?p + 8 + of_nat (8 * i))"
    by (rule span_shift [OF f(4)]) (use assms(2,3) in linarith)
  have ss: "span (hhdm_off s) (?p + of_nat (8 * Suc i)) ?c (base s ?p + 8 + of_nat (8 * Suc i))"
    by (rule span_shift [OF f(4)]) (use assms(2,3) in simp)
  have bd: "unat (base s ?p + 8) + ?cap \<le> 18446744073709551616" using span_bound [OF f(4)] by simp
  have ud: "unat (base s ?p + 8 + of_nat (8 * i)) = unat (base s ?p + 8) + 8 * i"
    by (rule unat_add_of_nat) (use bd assms(2,3) in linarith)
  have us: "unat (base s ?p + 8 + of_nat (8 * Suc i)) = unat (base s ?p + 8) + 8 * Suc i"
    by (rule unat_add_of_nat) (use bd assms(2,3) in simp)
  have out: "pmem t q = pmem s q" if "q \<notin> prange (base s ?p + 8 + of_nat (8 * i)) ?c" for q
    unfolding t by (rule pmem_memcpy_other) (use sd that uc in simp_all)
  have "prange (base s ?p + 8 + of_nat (8 * i)) ?c \<subseteq> prange (base s ?p + 8) ?cap"
    by (rule prange_subset) (use ud assms(2,3) in simp_all)
  then have outb: "pmem t q = pmem s q" if "q \<notin> prange (base s ?p + 8) ?cap" for q using out that by blast
  have t2: "t = s\<lparr>pmem := pmem t\<rparr>" unfolding t by (rule memcpy_pmem_only)
  note w = page_block_write [OF h(1,3), of "pmem t", OF outb, folded t2]
  have off: "hhdm_off t = hhdm_off s" unfolding t by simp
  have lo: "load_bytes t ?p (8 * i) = words_bytes (take i xs)"
  proof -
    have "load_bytes t ?p (8 * i) = load_bytes s ?p (8 * i)"
      by (rule load_bytes_cong [OF span_mono [OF f(4)] off])
        (use out ud assms(2,3) in \<open>auto simp: prange_def\<close>)
    also have "\<dots> = take (8 * i) (load_bytes s ?p (8 * ?n))" using assms(2) by (simp add: take_load_bytes)
    finally show ?thesis by (simp add: h(4) words_bytes_take)
  qed
  have hi: "load_bytes t (?p + of_nat (8 * i)) (8 * (?n - Suc i)) = words_bytes (drop (Suc i) xs)"
  proof -
    have k: "8 * (?n - Suc i) \<le> ?c" using assms(2) by simp
    have "load_bytes t (?p + of_nat (8 * i)) ?c = load_bytes s (?p + of_nat (8 * Suc i)) ?c"
      using memcpy_delivers [of s _ "of_nat ?c", OF _ _ disjI1, unfolded uc, OF sd ss] ud us
      unfolding t by simp
    then have "take (8 * (?n - Suc i)) (load_bytes t (?p + of_nat (8 * i)) ?c) =
        take (8 * (?n - Suc i)) (load_bytes s (?p + of_nat (8 * Suc i)) ?c)" by simp
    then have "load_bytes t (?p + of_nat (8 * i)) (8 * (?n - Suc i)) =
        load_bytes s (?p + of_nat (8 * Suc i)) (8 * (?n - Suc i))"
      unfolding take_load_bytes [OF k] .
    also have "\<dots> = drop (8 * Suc i) (load_bytes s ?p (8 * ?n))"
      using assms(2) by (subst drop_load_bytes) (simp_all add: right_diff_distrib')
    finally show ?thesis by (simp only: h(4) words_bytes_drop)
  qed
  have len: "8 * length (take i xs @ drop (Suc i) xs) = 8 * i + 8 * (?n - Suc i)" using assms(2) by simp
  have "load_bytes t ?p (8 * length (take i xs @ drop (Suc i) xs)) = words_bytes (take i xs @ drop (Suc i) xs)"
    unfolding len load_bytes_append lo hi by (simp add: words_bytes_append)
  moreover have "v_len v' = of_nat (length (take i xs @ drop (Suc i) xs))"
    using assms(2) by (simp add: v' h(2) of_nat_diff)
  moreover have "8 * length (take i xs @ drop (Suc i) xs) \<le> ?cap" using assms(2,3) by simp
  ultimately show ?thesis
    using w(1,2) assms(1,2) unfolding holds_def by (simp add: v')
qed

section \<open>The bitmap stays where it is\<close>

lemma vector_init_same: "pmm_ok s \<Longrightarrow> vector_init s = Inr (v, t) \<Longrightarrow> pmm_same s t"
  by (auto simp: vector_init_def then_do_Inr_iff dest: malloc_same)

lemma vector_push_back_same: "pmm_ok s \<Longrightarrow> vector_push_back x v s = Inr (w, t) \<Longrightarrow> pmm_same s t"
  by (auto simp: vector_push_back_def then_do_Inr_iff Let_def same_store64 dest: realloc_same split: if_splits)

section \<open>Properties\<close>

primrec push_all :: "u64 list \<Rightarrow> vec \<Rightarrow> 'z pmm_scheme \<Rightarrow> (vec, 'z pmm_scheme) result" where
  "push_all [] v s = Inr (v, s)"
| "push_all (x # xs) v s = then_do (vector_push_back x v s) (push_all xs)"

lemma push_all_holds:
  assumes "holds s v xs" "length xs + length ys \<le> 252"
  shows "\<exists>v' t. push_all ys v s = Inr (v', t) \<and> holds t v' (xs @ ys)"
  using assms
proof (induction ys arbitrary: xs v s)
  case (Cons y ys)
  have "length xs < 252" using Cons.prems(2) by simp
  from push_back_holds [OF Cons.prems(1) this, of y] obtain v1 s1
    where p: "vector_push_back y v s = Inr (v1, s1)" "holds s1 v1 (xs @ [y])" by metis
  show ?case using Cons.IH [OF p(2)] Cons.prems(2) p(1) by simp
qed simp

lemma holds_elements:
  assumes "holds s v xs"
  shows "map (\<lambda>i. vector_at s v (of_nat i)) [0..<length xs] = xs"
  by (rule nth_equalityI) (simp_all add: vector_at_nth [OF assms])

text \<open>
  C30. A vector is a list: initialised and given up to 252 elements, one by one, it has them all, in
  order, although it is moved to a larger block on the way. It fails only if there is no memory for
  its first block.
\<close>

theorem vector_spec:
  assumes "heap_ok s" "first_free s \<noteq> None" "length xs \<le> 252"
  shows "\<exists>v0 s0 v t. vector_init s = Inr (v0, s0) \<and> push_all xs v0 s0 = Inr (v, t) \<and> heap_ok t \<and>
    vector_length v = of_nat (length xs) \<and> map (\<lambda>i. vector_at t v (of_nat i)) [0..<length xs] = xs"
proof -
  obtain v0 s0 where i: "vector_init s = Inr (v0, s0)" "holds s0 v0 []"
    using vector_init_holds [OF assms(1,2)] by metis
  obtain v t where "push_all xs v0 s0 = Inr (v, t)" "holds t v xs"
    using push_all_holds [OF i(2), of xs] assms(3) by auto
  then show ?thesis using i(1) holds_elements [of t v xs] by (auto simp: vector_length_def holds_def)
qed

theorem vector_spec_witness:
  "\<exists>v0 s0 v t. vector_init (sample ()) = Inr (v0, s0) \<and> push_all (replicate 70 5) v0 s0 = Inr (v, t) \<and> heap_ok t \<and>
    vector_length v = of_nat (length (replicate 70 (5 :: u64))) \<and>
    map (\<lambda>i. vector_at t v (of_nat i)) [0..<length (replicate 70 (5 :: u64))] = replicate 70 5"
  by (rule vector_spec [OF sample_heap_ok]) (simp_all add: sample_first_free)

end
