(* ===== verification/Tty.thy ===== *)
theory Tty
  imports Ports
begin

text \<open>
  Terminals, \<open>core/sys/resman/tty.c\<close>. Output goes to a serial line or to the vendored terminal
  \<open>uterus\<close>; what is handed to \<open>uterus_write\<close> is kept in \<open>console\<close>.
\<close>

section \<open>The code\<close>

abbreviation (input) MAX_TTYS :: u16 where "MAX_TTYS \<equiv> 4"
abbreviation (input) TTY_TYPE_SERIAL :: u8 where "TTY_TYPE_SERIAL \<equiv> 1"
abbreviation (input) TTY_TYPE_UTERUS :: u8 where "TTY_TYPE_UTERUS \<equiv> 2"

record tty_t =
  out_type :: u8
  out_port :: u8
  in_type :: u8
  in_port :: u8
  lock :: u8

definition zero_tty :: tty_t where
  "zero_tty = \<lparr>out_type = 0, out_port = 0, in_type = 0, in_port = 0, lock = 0\<rparr>"

record ttystate = iostate +
  ttys :: "tty_t list"
  next_tty_id :: u16
  tty_initialized :: bool
  console :: "u8 list"

definition upd_tty :: "u16 \<Rightarrow> (tty_t \<Rightarrow> tty_t) \<Rightarrow> 'z ttystate_scheme \<Rightarrow> (unit, 'z ttystate_scheme) result" where
  "upd_tty i f s =
     (if unat i < length (ttys s) then Inr ((), s\<lparr>ttys := (ttys s)[unat i := f (ttys s ! unat i)]\<rparr>)
      else Inl Oob)"

definition tty_register :: "tty_t \<Rightarrow> 'z ttystate_scheme \<Rightarrow> (u16, 'z ttystate_scheme) result" where
  "tty_register tty s =
     (if next_tty_id s = MAX_TTYS then Inr (0, s)
      else
        let s = (if next_tty_id s = 0 then s\<lparr>tty_initialized := True\<rparr> else s) in
        then_do (upd_tty (next_tty_id s) (\<lambda>_. tty) s) (\<lambda>_ s.
          let s = s\<lparr>next_tty_id := next_tty_id s + 1\<rparr> in Inr (next_tty_id s - 1, s)))"

definition tty_unregister :: "u16 \<Rightarrow> 'z ttystate_scheme \<Rightarrow> (unit, 'z ttystate_scheme) result" where
  "tty_unregister ttyid = upd_tty ttyid (\<lambda>_. zero_tty)"

text \<open>\<open>tty_lock\<close> sets the lock of a copy of the terminal.\<close>

definition tty_lock :: "u16 \<Rightarrow> 'z ttystate_scheme \<Rightarrow> (bool, 'z ttystate_scheme) result" where
  "tty_lock ttyid s =
     (if unat ttyid < length (ttys s) then
        let tty = ttys s ! unat ttyid in
        if lock tty = 0 then let tty = tty\<lparr>lock := 1\<rparr> in Inr (True, s)
        else Inr (False, s)
      else Inl Oob)"

definition tty_unlock :: "u16 \<Rightarrow> 'z ttystate_scheme \<Rightarrow> (unit, 'z ttystate_scheme) result" where
  "tty_unlock ttyid = upd_tty ttyid (\<lambda>t. t\<lparr>lock := 0\<rparr>)"

definition tty_get_lock :: "u16 \<Rightarrow> 'z ttystate_scheme \<Rightarrow> (u8, 'z ttystate_scheme) result" where
  "tty_get_lock ttyid s =
     (if unat ttyid < length (ttys s) then Inr (lock (ttys s ! unat ttyid), s) else Inl Oob)"

text \<open>The loop over the bytes of a write to a serial line: \<open>i\<close> counts up to \<open>size\<close>.\<close>

primrec serial_loop :: "ptr \<Rightarrow> u8 \<Rightarrow> nat \<Rightarrow> u32 \<Rightarrow> 'z ttystate_scheme \<Rightarrow> 'z ttystate_scheme option" where
  "serial_loop buf port 0 i s = Some s"
| "serial_loop buf port (Suc n) i s =
     Option.bind (cereal_write (load8 s (buf + ucast i)) (ucast port) s) (serial_loop buf port n (i + 1))"

definition tty_write ::
    "u16 \<Rightarrow> ptr \<Rightarrow> u32 \<Rightarrow> 'z ttystate_scheme \<Rightarrow> (unit, 'z ttystate_scheme) result option" where
  "tty_write ttyid buf sz s =
     (if unat ttyid < length (ttys s) then
        let tty = ttys s ! unat ttyid in
        if out_type tty = TTY_TYPE_SERIAL then
          map_option (\<lambda>s. Inr ((), s)) (serial_loop buf (out_port tty) (unat sz) 0 s)
        else if out_type tty = TTY_TYPE_UTERUS then
          Some (Inr ((), s\<lparr>console := console s @ load_bytes s buf (unat sz)\<rparr>))
        else Some (Inr ((), s))
      else Some (Inl Oob))"

section \<open>Facts\<close>

text \<open>The ids handed out so far are the entries in use.\<close>

definition tty_ok :: "'z ttystate_scheme \<Rightarrow> bool" where
  "tty_ok s \<longleftrightarrow> length (ttys s) = 4 \<and> unat (next_tty_id s) \<le> 4 \<and> (tty_initialized s \<longleftrightarrow> next_tty_id s \<noteq> 0)"

lemma tty_register_ok:
  assumes "tty_ok s"
  shows "tty_register tty s =
    (if next_tty_id s = 4 then Inr (0, s)
     else Inr (next_tty_id s, s\<lparr>ttys := (ttys s)[unat (next_tty_id s) := tty],
            next_tty_id := next_tty_id s + 1, tty_initialized := True\<rparr>))"
proof (cases "next_tty_id s = 4")
  case False
  then have "unat (next_tty_id s) \<noteq> 4" by (simp add: word_unat_eq_iff)
  then have "unat (next_tty_id s) < 4" using assms by (simp add: tty_ok_def)
  then show ?thesis using assms False by (auto simp: tty_register_def upd_tty_def tty_ok_def Let_def)
qed (simp add: tty_register_def)

lemma tty_ok_register: "tty_ok s \<Longrightarrow> tty_register tty s = Inr (i, t) \<Longrightarrow> tty_ok t"
proof -
  assume ok: "tty_ok s" and r: "tty_register tty s = Inr (i, t)"
  show "tty_ok t"
  proof (cases "next_tty_id s = 4")
    case False
    then have "unat (next_tty_id s) < 4"
      using ok by (simp add: tty_ok_def word_unat_eq_iff)
    moreover have "unat (next_tty_id s + 1) = unat (next_tty_id s) + 1"
      using calculation by (simp add: unat_word_ariths)
    ultimately show ?thesis
      using ok r False tty_register_ok [OF ok, of tty] by (auto simp: tty_ok_def word_unat_eq_iff)
  qed (use ok r in \<open>simp add: tty_register_def\<close>)
qed

text \<open>A serial line whose transmitter is always empty.\<close>

definition idle_line :: "(port_access list \<Rightarrow> u16 \<Rightarrow> u32) \<Rightarrow> u32 \<Rightarrow> bool" where
  "idle_line dev port \<longleftrightarrow> (\<forall>log. (ucast (dev log (ucast (port + 5))) :: u8) AND 0x20 \<noteq> 0)"

lemma cereal_write_idle:
  assumes "idle_line (port_dev s) port"
  shows "cereal_write a port s = Some (s\<lparr>int_flag := True,
    port_log := port_log s @ [In8 (ucast (port + 5)), Out8 (ucast port) a]\<rparr>)"
proof -
  have "wait_transmit port (disable_interrupts s) =
      Some ((disable_interrupts s)\<lparr>port_log := port_log s @ replicate (Suc 0) (In8 (ucast (port + 5)))\<rparr>)"
    using wait_transmit_ready [of "disable_interrupts s" port 0] assms
    by (simp add: disable_interrupts_def idle_line_def)
  then show ?thesis by (simp add: cereal_write_def port_simps)
qed

text \<open>What the bytes of a write look like on the ports.\<close>

definition line_accesses :: "u32 \<Rightarrow> u8 list \<Rightarrow> port_access list" where
  "line_accesses port bs = concat (map (\<lambda>b. [In8 (ucast (port + 5)), Out8 (ucast port) b]) bs)"

lemma serial_loop_idle:
  assumes "idle_line (port_dev s) (ucast port)"
  shows "\<exists>f. serial_loop buf port n i s = Some (s\<lparr>int_flag := f,
    port_log := port_log s @ line_accesses (ucast port) (map (\<lambda>k. load8 s (buf + ucast (i + of_nat k))) [0..<n])\<rparr>)"
  using assms
proof (induction n arbitrary: i s)
  case 0
  then show ?case by (auto simp: line_accesses_def intro: exI [of _ "int_flag s"])
next
  case (Suc n)
  let ?a = "load8 s (buf + ucast i)"
  let ?s = "s\<lparr>int_flag := True, port_log := port_log s @ [In8 (ucast (ucast port + 5 :: u32)), Out8 (ucast (ucast port :: u32)) ?a]\<rparr>"
  have l: "load8 ?s x = load8 s x" for x by (simp add: load8_def)
  have "map (\<lambda>k. load8 s (buf + ucast (i + of_nat k))) [0..<Suc n] =
      ?a # map (\<lambda>k. load8 s (buf + ucast (i + 1 + of_nat k))) [0..<n]"
    by (subst upt_conv_Cons) (simp_all add: map_Suc_upt [symmetric] add.assoc del: upt_Suc)
  moreover have "serial_loop buf port (Suc n) i s = serial_loop buf port n (i + 1) ?s"
    using cereal_write_idle [OF Suc.prems, of ?a] by simp
  ultimately show ?case
    using Suc.IH [of ?s "i + 1"] Suc.prems
    by (auto simp: l line_accesses_def simp del: upt_Suc)
qed

section \<open>Properties\<close>

text \<open>
  A write to a terminal of serial type, on an idle line, returns and sends exactly the
  \<open>size\<close> bytes of the buffer, in order, to the port number the terminal names.
\<close>

theorem tty_write_spec:
  assumes "unat i < length (ttys s)" "out_type (ttys s ! unat i) = TTY_TYPE_SERIAL"
    "idle_line (port_dev s) (ucast (out_port (ttys s ! unat i)))"
  shows "\<exists>f. tty_write i buf sz s = Some (Inr ((), s\<lparr>int_flag := f, port_log := port_log s @
    line_accesses (ucast (out_port (ttys s ! unat i))) (load_bytes s buf (unat sz))\<rparr>))"
proof -
  have "(ucast (of_nat k :: u32) :: u64) = of_nat k" if "k < unat sz" for k
  proof -
    have "unat sz < 2 ^ 32" using unsigned_less [of sz, where 'a = nat] by simp
    with that have "k < 2 ^ 32" by linarith
    then show ?thesis by (simp add: unsigned_of_nat take_bit_nat_eq_self)
  qed
  then have "map (\<lambda>k. load8 s (buf + ucast (0 + of_nat k :: u32))) [0..<unat sz] = load_bytes s buf (unat sz)"
    by (simp add: load_bytes_map)
  then show ?thesis
    using serial_loop_idle [OF assms(3), of buf "unat sz" 0] assms(1,2)
    by (auto simp: tty_write_def Let_def)
qed

text \<open>One terminal on the serial type, as \<open>tty_register\<close> would set it.\<close>

definition sample_tty :: ttystate where
  "sample_tty = sample_io (\<lambda>log p. 0x20)
     \<lparr>ttys = replicate 4 (zero_tty\<lparr>out_type := 1\<rparr>), next_tty_id = 1, tty_initialized = True, console = []\<rparr>"

lemma sample_tty_fields [simp]:
  "ttys sample_tty = replicate 4 (zero_tty\<lparr>out_type := 1\<rparr>)" "next_tty_id sample_tty = 1"
  "tty_initialized sample_tty" "port_log sample_tty = []" "port_dev sample_tty = (\<lambda>log p. 0x20)"
  "pmem sample_tty = sample_mem 0x0F" "hhdm_off sample_tty = 0xFFFF800000000000"
  by (simp_all add: sample_tty_def sample_io_def)

theorem tty_write_spec_witness:
  "\<exists>f. tty_write 0 0x1000 2 sample_tty = Some (Inr ((), sample_tty\<lparr>int_flag := f,
     port_log := [In8 5, Out8 0 0x0F, In8 5, Out8 0 0]\<rparr>))"
proof -
  have "unat (0 :: u16) < length (ttys sample_tty)" "out_type (ttys sample_tty ! unat (0 :: u16)) = TTY_TYPE_SERIAL"
    "idle_line (port_dev sample_tty) (ucast (out_port (ttys sample_tty ! unat (0 :: u16))))"
    by (simp_all add: idle_line_def zero_tty_def)
  moreover have "load_bytes sample_tty 0x1000 (unat (2 :: u32)) = [0x0F, 0]"
    using load_bytes.simps(2) [of sample_tty "0x1000" "Suc 0"]
    by (simp add: load8_def v2p_def sample_mem_def numeral_2_eq_2 [symmetric])
  ultimately show ?thesis
    using tty_write_spec [of 0 sample_tty "0x1000" 2] by (simp add: zero_tty_def line_accesses_def)
qed

text \<open>
  \<open>tty_register\<close> hands out the ids 0 to 3 in turn and keeps the table's invariant; when the
  table is full it returns 0 and changes nothing, which the caller cannot tell from the first
  registration. \<open>tty_lock\<close> excludes nobody: after it succeeds, it succeeds again.
\<close>

theorem tty_register_spec:
  assumes "tty_ok s"
  shows "(\<exists>t. tty_register tty s = Inr (if next_tty_id s = 4 then 0 else next_tty_id s, t) \<and> tty_ok t \<and>
      (if next_tty_id s = 4 then t = s else ttys t = (ttys s)[unat (next_tty_id s) := tty])) \<and>
    (tty_lock i s = Inr (True, t) \<longrightarrow> tty_lock i t = Inr (True, t))"
proof -
  obtain j t where r: "tty_register tty s = Inr (j, t)" using tty_register_ok [OF assms] by (meson surj_pair)
  have "tty_lock i s = Inr (True, t) \<Longrightarrow> t = s" for t
    by (auto simp: tty_lock_def Let_def split: if_splits)
  then show ?thesis
    using r tty_ok_register [OF assms r] tty_register_ok [OF assms, of tty] by (auto split: if_splits)
qed

theorem tty_register_spec_witness:
  "\<exists>t. tty_register (zero_tty\<lparr>out_type := 2\<rparr>) sample_tty = Inr (1, t) \<and> tty_ok t \<and>
     ttys t = (ttys sample_tty)[1 := zero_tty\<lparr>out_type := 2\<rparr>]"
proof -
  have "tty_ok sample_tty" by (simp add: tty_ok_def)
  from tty_register_spec [OF this, of "zero_tty\<lparr>out_type := 2\<rparr>"] show ?thesis by simp
qed

end
