(* ===== verification/Interrupts.thy ===== *)
theory Interrupts
  imports Tty
begin

text \<open>
  The interrupt descriptor table (\<open>IDT.c\<close>), the table of handlers and its initialisation
  (\<open>ISR.c\<close>, \<open>interrupts.c\<close>). The addresses of the 256 entry stubs, which \<open>Entry\<close> models, are
  the argument \<open>ISR\<close> of the definitions that use them.
\<close>

section \<open>IDT.c\<close>

record IDT64 =
  offset_low :: u16
  selector :: u16
  ist :: u8
  types_attr :: u8
  offset_mid :: u16
  offset_high :: u32
  zero :: u32

text \<open>The functions that the kernel registers as handlers.\<close>

datatype ISRHandler = schedule_isr | syscall_handler_isr | keyboard_isr

record intstate = ttystate +
  g_IDT :: "IDT64 list"
  ISRHandlers :: "ISRHandler option list"
  idt_enabled :: bool

definition gate :: "u64 \<Rightarrow> u16 \<Rightarrow> u8 \<Rightarrow> IDT64" where
  "gate base_addr segmentDescriptor flags =
     \<lparr>offset_low = ucast (base_addr AND 0x000000000000ffff),
      selector = segmentDescriptor, ist = 0, types_attr = flags,
      offset_mid = ucast (drop_bit 16 (base_addr AND 0x00000000ffff0000)),
      offset_high = ucast (drop_bit 32 (base_addr AND 0xffffffff00000000)), zero = 0\<rparr>"

definition SetGate ::
    "nat \<Rightarrow> u64 \<Rightarrow> u16 \<Rightarrow> u8 \<Rightarrow> 'z intstate_scheme \<Rightarrow> (unit, 'z intstate_scheme) result" where
  "SetGate i base_addr segmentDescriptor flags s =
     (if i < length (g_IDT s)
      then Inr ((), s\<lparr>g_IDT := (g_IDT s)[i := gate base_addr segmentDescriptor flags]\<rparr>)
      else Inl Oob)"

section \<open>ISR.c\<close>

definition ISR_RegisterHandler ::
    "nat \<Rightarrow> ISRHandler \<Rightarrow> 'z intstate_scheme \<Rightarrow> (unit, 'z intstate_scheme) result" where
  "ISR_RegisterHandler irq h s =
     (if irq < length (ISRHandlers s) then Inr ((), s\<lparr>ISRHandlers := (ISRHandlers s)[irq := Some h]\<rparr>)
      else Inl Oob)"

definition register_ISR ::
    "nat \<Rightarrow> ISRHandler \<Rightarrow> 'z intstate_scheme \<Rightarrow> (unit, 'z intstate_scheme) result" where
  "register_ISR irq h = ISR_RegisterHandler irq h"

text \<open>One call of \<open>SetGate\<close> per stub, in the order of the source.\<close>

primrec set_gates ::
    "(nat \<Rightarrow> u64) \<Rightarrow> nat list \<Rightarrow> 'z intstate_scheme \<Rightarrow> (unit, 'z intstate_scheme) result" where
  "set_gates ISR [] s = Inr ((), s)"
| "set_gates ISR (i # is) s = then_do (SetGate i (ISR i) 8 0b10001110 s) (\<lambda>_. set_gates ISR is)"

text \<open>The vectors of processor exceptions, and the two halves of the rest.\<close>

definition exception_gates :: "(nat \<Rightarrow> u64) \<Rightarrow> 'z intstate_scheme \<Rightarrow> (unit, 'z intstate_scheme) result" where
  "exception_gates ISR = set_gates ISR [0..<32]"

definition irq_gates :: "(nat \<Rightarrow> u64) \<Rightarrow> 'z intstate_scheme \<Rightarrow> (unit, 'z intstate_scheme) result" where
  "irq_gates ISR = set_gates ISR [32..<128]"

definition upper_gates :: "(nat \<Rightarrow> u64) \<Rightarrow> 'z intstate_scheme \<Rightarrow> (unit, 'z intstate_scheme) result" where
  "upper_gates ISR = set_gates ISR [128..<256]"

definition init_ISR :: "(nat \<Rightarrow> u64) \<Rightarrow> 'z intstate_scheme \<Rightarrow> (unit, 'z intstate_scheme) result" where
  "init_ISR ISR s =
     then_do (exception_gates ISR s) (\<lambda>_ s. then_do (irq_gates ISR s) (\<lambda>_. upper_gates ISR))"

section \<open>interrupts.c\<close>

definition enable_IDT :: "'z intstate_scheme \<Rightarrow> 'z intstate_scheme" where
  "enable_IDT s = s\<lparr>idt_enabled := True\<rparr>"

definition initialize_interrupts ::
    "(nat \<Rightarrow> u64) \<Rightarrow> 'z intstate_scheme \<Rightarrow> (unit, 'z intstate_scheme) result" where
  "initialize_interrupts ISR s = then_do (init_ISR ISR s) (\<lambda>_ s. Inr ((), enable_IDT s))"

definition cisrs_register :: "'z intstate_scheme \<Rightarrow> (unit, 'z intstate_scheme) result" where
  "cisrs_register s =
     then_do (register_ISR 32 schedule_isr s) (\<lambda>_. register_ISR 0x80 syscall_handler_isr)"

section \<open>The gates the processor reads\<close>

text \<open>The handler address a gate holds.\<close>

definition gate_offset :: "IDT64 \<Rightarrow> u64" where
  "gate_offset g = ucast (offset_low g) OR push_bit 16 (ucast (offset_mid g)) OR push_bit 32 (ucast (offset_high g))"

lemma gate_offset_gate [simp]: "gate_offset (gate a sel f) = a"
proof -
  have m: "(0xffff :: u64) = mask 16" "(0xffff0000 :: u64) = push_bit 16 (mask 16)"
    "(0xffffffff00000000 :: u64) = push_bit 32 (mask 32)"
    by (simp_all add: mask_eq_exp_minus_1 push_bit_eq_mult)
  show ?thesis
  proof (rule bit_word_eqI)
    fix n assume "n < LENGTH(64)"
    then consider "n < 16" | "16 \<le> n" "n < 32" | "32 \<le> n" "n < 64" by fastforce
    then show "bit (gate_offset (gate a sel f)) n = bit a n"
      by cases (auto simp: gate_def gate_offset_def m bit_simps)
  qed
qed

lemma set_gates_run:
  assumes "\<forall>i \<in> set is. i < length (g_IDT s)" "distinct is"
  shows "set_gates ISR is s = Inr ((), s\<lparr>g_IDT :=
    map (\<lambda>i. if i \<in> set is then gate (ISR i) 8 0b10001110 else g_IDT s ! i) [0..<length (g_IDT s)]\<rparr>)"
  using assms
proof (induction "is" arbitrary: s)
  case Nil
  then show ?case by (simp add: map_nth)
next
  case (Cons i "is")
  let ?s = "s\<lparr>g_IDT := (g_IDT s)[i := gate (ISR i) 8 0b10001110]\<rparr>"
  have "set_gates ISR (i # is) s = set_gates ISR is ?s"
    using Cons.prems by (simp add: SetGate_def)
  also have "\<dots> = Inr ((), ?s\<lparr>g_IDT :=
      map (\<lambda>j. if j \<in> set is then gate (ISR j) 8 0b10001110 else g_IDT ?s ! j) [0..<length (g_IDT ?s)]\<rparr>)"
    using Cons.prems by (intro Cons.IH) auto
  also have "map (\<lambda>j. if j \<in> set is then gate (ISR j) 8 0b10001110 else g_IDT ?s ! j) [0..<length (g_IDT ?s)] =
      map (\<lambda>j. if j \<in> set (i # is) then gate (ISR j) 8 0b10001110 else g_IDT s ! j) [0..<length (g_IDT s)]"
    using Cons.prems by (intro nth_equalityI) auto
  finally show ?case by simp
qed

lemma set_gates_append:
  "set_gates ISR (is @ js) s = then_do (set_gates ISR is s) (\<lambda>_. set_gates ISR js)"
  by (induction "is" arbitrary: s) (auto simp: then_do_def split: sum.splits)

lemma set_gates_join:
  assumes "a \<le> b" "b \<le> c"
  shows "then_do (set_gates ISR [a..<b] s) (\<lambda>_. set_gates ISR [b..<c]) = set_gates ISR [a..<c] s"
proof -
  have "[a..<c] = [a..<b] @ [b..<c]" using upt_add_eq_append [OF assms(1), of "c - b"] assms(2) by simp
  then show ?thesis by (simp only: set_gates_append)
qed

lemma init_ISR_gates: "init_ISR ISR s = set_gates ISR [0..<256] s"
proof -
  have "(\<lambda>(_ :: unit) (s :: 'a intstate_scheme). then_do (set_gates ISR [32..<128] s) (\<lambda>_. set_gates ISR [128..<256])) =
      (\<lambda>_. set_gates ISR [32..<256])"
    by (intro ext set_gates_join; simp only: numeral_le_iff semiring_norm)
  then have "init_ISR ISR s = then_do (set_gates ISR [0..<32] s) (\<lambda>_. set_gates ISR [32..<256])"
    unfolding init_ISR_def exception_gates_def irq_gates_def upper_gates_def by (rule arg_cong)
  also have "\<dots> = set_gates ISR [0..<256] s"
    by (intro set_gates_join) (simp_all only: numeral_le_iff semiring_norm zero_le)
  finally show ?thesis .
qed

lemma set_gates_all:
  "set_gates ISR [0..<length (g_IDT s)] s = Inr ((), s\<lparr>g_IDT :=
    map (\<lambda>i. gate (ISR i) 8 0b10001110) [0..<length (g_IDT s)]\<rparr>)"
  by (subst set_gates_run) (auto intro!: map_cong)

lemma init_ISR_run:
  assumes "length (g_IDT s) = 256"
  shows "init_ISR ISR s = Inr ((), s\<lparr>g_IDT := map (\<lambda>i. gate (ISR i) 8 0b10001110) [0..<length (g_IDT s)]\<rparr>)"
  unfolding init_ISR_gates assms [symmetric] by (rule set_gates_all)

section \<open>Properties\<close>

text \<open>
  After \<open>initialize_interrupts\<close> every one of the 256 vectors has a present interrupt gate of
  ring 0 in the kernel code segment, at the address of its own stub, and the table is active.
\<close>

theorem init_ISR_spec:
  assumes "length (g_IDT s) = 256" "n < 256"
  shows "\<exists>t. initialize_interrupts ISR s = Inr ((), t) \<and> idt_enabled t \<and>
    gate_offset (g_IDT t ! n) = ISR n \<and> selector (g_IDT t ! n) = 8 \<and> types_attr (g_IDT t ! n) = 0x8E \<and>
    ISRHandlers t = ISRHandlers s"
proof -
  have "n < length (g_IDT s)" using assms by (simp only:)
  then show ?thesis
    unfolding initialize_interrupts_def init_ISR_run [OF assms(1), of ISR]
    by (simp add: enable_IDT_def) (simp add: gate_def)
qed

definition sample_int :: "'z \<Rightarrow> 'z intstate_scheme" where
  "sample_int x = sample_io (\<lambda>log p. 0x20)
     \<lparr>ttys = replicate 4 zero_tty, next_tty_id = 0, tty_initialized = False, console = [],
      g_IDT = replicate 256 (gate 0 0 0), ISRHandlers = replicate 255 None, idt_enabled = False, \<dots> = x\<rparr>"

lemma sample_int_fields [simp]:
  "length (g_IDT (sample_int x)) = 256" "ISRHandlers (sample_int x) = replicate 255 None"
  by (simp_all add: sample_int_def sample_io_def)

theorem init_ISR_spec_witness:
  "\<exists>t. initialize_interrupts (\<lambda>n. 0xFFFFFFFF80000000 + 16 * of_nat n) (sample_int ()) = Inr ((), t) \<and>
    gate_offset (g_IDT t ! 32) = 0xFFFFFFFF80000200"
proof -
  have "(32 :: nat) < 256" by simp
  then show ?thesis
    using init_ISR_spec [of "sample_int ()" 32 "\<lambda>n. 0xFFFFFFFF80000000 + 16 * of_nat n"] by auto
qed

end
