(* ===== verification/CString.thy ===== *)
theory CString
  imports Memory
begin

text \<open>
  The string functions of \<open>libk/string.c\<close> (\<open>strcat\<close> to \<open>strchr\<close>) and \<open>atoi\<close> of
  \<open>libk/stdlib.c\<close>, over the byte memory. A loop that looks for the terminating zero byte may
  not find one: such loops are partial functions, \<open>None\<close> is the loop that never ends. The
  abstraction \<open>cstr s p xs\<close> says that the bytes \<open>xs\<close>, none of them zero, and a zero byte lie
  at \<open>p\<close>; each function is then a function on lists.
\<close>

section \<open>The code\<close>

text \<open>The scan for the end, shared by \<open>strlen\<close>, \<open>strcat\<close> and \<open>strncat\<close>.\<close>

partial_function (option) strend :: "'z machine_scheme \<Rightarrow> ptr \<Rightarrow> ptr option" where
  "strend s sc = (if load8 s sc \<noteq> 0 then strend s (sc + 1) else Some sc)"

definition strlen :: "'z machine_scheme \<Rightarrow> ptr \<Rightarrow> usize option" where
  "strlen s p = map_option (\<lambda>sc. sc - p) (strend s p)"

text \<open>The copy up to and including the zero byte, shared by \<open>strcpy\<close> and \<open>strcat\<close>.\<close>

partial_function (option) strcopy ::
    "ptr \<Rightarrow> ptr \<Rightarrow> 'z machine_scheme \<Rightarrow> 'z machine_scheme option" where
  "strcopy d src s =
     (let s' = store8 d (load8 s src) s in
      if load8 s src \<noteq> 0 then strcopy (d + 1) (src + 1) s' else Some s')"

definition strcpy :: "ptr \<Rightarrow> ptr \<Rightarrow> 'z machine_scheme \<Rightarrow> (ptr \<times> 'z machine_scheme) option" where
  "strcpy s1 s2 s = map_option (\<lambda>s. (s1, s)) (strcopy s1 s2 s)"

definition strcat :: "ptr \<Rightarrow> ptr \<Rightarrow> 'z machine_scheme \<Rightarrow> (ptr \<times> 'z machine_scheme) option" where
  "strcat s1 s2 s =
     Option.bind (strend s s1) (\<lambda>e. map_option (\<lambda>s. (s1, s)) (strcopy e s2 s))"

partial_function (option) strcmp :: "'z machine_scheme \<Rightarrow> ptr \<Rightarrow> ptr \<Rightarrow> int option" where
  "strcmp s s1 s2 =
     (if load8 s s1 = load8 s s2 then
        if load8 s s1 = 0 then Some 0 else strcmp s (s1 + 1) (s2 + 1)
      else Some (if load8 s s1 < load8 s s2 then -1 else 1))"

text \<open>The inner loop of \<open>strcspn\<close> and \<open>strspn\<close>: does the set \<open>s2\<close> contain the character?\<close>

partial_function (option) char_in :: "'z machine_scheme \<Rightarrow> u8 \<Rightarrow> ptr \<Rightarrow> bool option" where
  "char_in s c sc2 =
     (if load8 s sc2 = 0 then Some False
      else if c = load8 s sc2 then Some True
      else char_in s c (sc2 + 1))"

partial_function (option) strcspn_loop :: "'z machine_scheme \<Rightarrow> ptr \<Rightarrow> ptr \<Rightarrow> ptr option" where
  "strcspn_loop s s2 sc1 =
     (if load8 s sc1 = 0 then Some sc1
      else Option.bind (char_in s (load8 s sc1) s2) (\<lambda>found.
        if found then Some sc1 else strcspn_loop s s2 (sc1 + 1)))"

definition strcspn :: "'z machine_scheme \<Rightarrow> ptr \<Rightarrow> ptr \<Rightarrow> usize option" where
  "strcspn s s1 s2 = map_option (\<lambda>sc1. sc1 - s1) (strcspn_loop s s2 s1)"

partial_function (option) strspn_loop :: "'z machine_scheme \<Rightarrow> ptr \<Rightarrow> ptr \<Rightarrow> ptr option" where
  "strspn_loop s s2 sc1 =
     (if load8 s sc1 = 0 then Some sc1
      else Option.bind (char_in s (load8 s sc1) s2) (\<lambda>found.
        if found then strspn_loop s s2 (sc1 + 1) else Some sc1))"

definition strspn :: "'z machine_scheme \<Rightarrow> ptr \<Rightarrow> ptr \<Rightarrow> usize option" where
  "strspn s s1 s2 = map_option (\<lambda>sc1. sc1 - s1) (strspn_loop s s2 s1)"

primrec strncmp_loop :: "'z machine_scheme \<Rightarrow> nat \<Rightarrow> ptr \<Rightarrow> ptr \<Rightarrow> int" where
  "strncmp_loop s 0 s1 s2 = 0"
| "strncmp_loop s (Suc n) s1 s2 =
     (if load8 s s1 \<noteq> load8 s s2 then (if load8 s s1 < load8 s s2 then -1 else 1)
      else if load8 s s1 = 0 then 0
      else strncmp_loop s n (s1 + 1) (s2 + 1))"

definition strncmp :: "'z machine_scheme \<Rightarrow> ptr \<Rightarrow> ptr \<Rightarrow> usize \<Rightarrow> int" where
  "strncmp s s1 s2 n = strncmp_loop s (unat n) s1 s2"

text \<open>
  The bounded copies of \<open>strncat\<close> and \<open>strncpy\<close>: the pointer after the last byte written and
  the rounds left are what the code goes on with.
\<close>

primrec strncopy ::
    "nat \<Rightarrow> ptr \<Rightarrow> ptr \<Rightarrow> 'z machine_scheme \<Rightarrow> nat \<times> ptr \<times> 'z machine_scheme" where
  "strncopy 0 d src s = (0, d, s)"
| "strncopy (Suc n) d src s =
     (if load8 s src \<noteq> 0 then strncopy n (d + 1) (src + 1) (store8 d (load8 s src) s)
      else (Suc n, d, s))"

definition strncat ::
    "ptr \<Rightarrow> ptr \<Rightarrow> usize \<Rightarrow> 'z machine_scheme \<Rightarrow> (ptr \<times> 'z machine_scheme) option" where
  "strncat s1 s2 n s =
     map_option (\<lambda>e. let (_, d, s) = strncopy (unat n) e s2 s in (s1, store8 d 0 s)) (strend s s1)"

definition strncpy :: "ptr \<Rightarrow> ptr \<Rightarrow> usize \<Rightarrow> 'z machine_scheme \<Rightarrow> ptr \<times> 'z machine_scheme" where
  "strncpy s1 s2 n s =
     (let (k, d, s) = strncopy (unat n) s1 s2 s in (s1, memset_loop k d 0 s))"

partial_function (option) strchr_loop :: "'z machine_scheme \<Rightarrow> u8 \<Rightarrow> ptr \<Rightarrow> ptr option" where
  "strchr_loop s c p =
     (if load8 s p \<noteq> 0 then if load8 s p = c then Some p else strchr_loop s c (p + 1)
      else Some NULL)"

definition strchr :: "'z machine_scheme \<Rightarrow> ptr \<Rightarrow> u32 \<Rightarrow> ptr option" where
  "strchr s p c = strchr_loop s (ucast c) p"

text \<open>
  \<open>strtok\<close> keeps its place in the static variable \<open>ssave\<close>, here an argument and a result.
  \<open>lit\<close> is the address of the string literal \<open>""\<close>.
\<close>

definition strtok ::
    "ptr \<Rightarrow> ptr \<Rightarrow> ptr \<Rightarrow> ptr \<Rightarrow> 'z machine_scheme \<Rightarrow> (ptr \<times> ptr \<times> 'z machine_scheme) option" where
  "strtok lit s1 s2 ssave s =
     (let sbegin = (if s1 \<noteq> NULL then s1 else ssave) in
      Option.bind (strspn s sbegin s2) (\<lambda>skip.
        let sbegin = sbegin + skip in
        if load8 s sbegin = 0 then Some (NULL, lit, s)
        else Option.bind (strcspn s sbegin s2) (\<lambda>len.
          let send = sbegin + len in
          if load8 s send \<noteq> 0 then Some (sbegin, send + 1, store8 send 0 s)
          else Some (sbegin, send, s))))"

text \<open>
  \<open>atoi\<close>: the sum is kept in an \<open>int\<close>; it is a 32-bit word here, so a number that does not
  fit wraps. \<open>i\<close> is an \<open>int\<close> index.
\<close>

partial_function (option) atoi_loop :: "'z machine_scheme \<Rightarrow> ptr \<Rightarrow> u32 \<Rightarrow> u32 \<Rightarrow> u32 option" where
  "atoi_loop s p i n =
     (let c = load8 s (p + scast i) in
      if c \<ge> 0x30 \<and> c \<le> 0x39 then atoi_loop s p (i + 1) (10 * n + (ucast c - 0x30)) else Some n)"

definition atoi :: "'z machine_scheme \<Rightarrow> ptr \<Rightarrow> u32 option" where
  "atoi s p = atoi_loop s p 0 0"

section \<open>Strings as lists\<close>

primrec cstr :: "'z machine_scheme \<Rightarrow> ptr \<Rightarrow> u8 list \<Rightarrow> bool" where
  "cstr s p [] \<longleftrightarrow> load8 s p = 0"
| "cstr s p (x # xs) \<longleftrightarrow> x \<noteq> 0 \<and> load8 s p = x \<and> cstr s (p + 1) xs"

lemma cstr_nonzero: "cstr s p xs \<Longrightarrow> 0 \<notin> set xs"
  by (induction xs arbitrary: p) auto

lemma cstr_end: "cstr s p xs \<Longrightarrow> load8 s (p + of_nat (length xs)) = 0"
  by (induction xs arbitrary: p) (auto simp flip: add.assoc)

lemma cstr_append:
  "cstr s p (xs @ ys) \<longleftrightarrow> load_bytes s p (length xs) = xs \<and> 0 \<notin> set xs \<and> cstr s (p + of_nat (length xs)) ys"
  by (induction xs arbitrary: p) (auto simp flip: add.assoc)

lemma cstr_bytes: "cstr s p xs \<Longrightarrow> load_bytes s p (length xs) = xs"
  using cstr_append [of s p xs "[]"] cstr_end [of s p xs] by (induction xs arbitrary: p) auto

lemma cstr_cong:
  assumes "cstr s p xs" "load_bytes t p (Suc (length xs)) = load_bytes s p (Suc (length xs))"
  shows "cstr t p xs"
  using assms by (induction xs arbitrary: p) auto

text \<open>One memory holds at most one string at an address.\<close>

lemma cstr_unique: "cstr s p xs \<Longrightarrow> cstr s p ys \<Longrightarrow> xs = ys"
proof (induction xs arbitrary: p ys)
  case Nil
  then show ?case by (cases ys) auto
next
  case (Cons x xs)
  then show ?case by (cases ys) auto
qed

section \<open>The functions on lists\<close>

lemma strend_cstr: "cstr s p xs \<Longrightarrow> strend s p = Some (p + of_nat (length xs))"
proof (induction xs arbitrary: p)
  case Nil
  then show ?case by (simp add: strend.simps [of s p])
next
  case (Cons x xs)
  then show ?case by (simp add: strend.simps [of s p] flip: add.assoc)
qed

lemma strlen_cstr: "cstr s p xs \<Longrightarrow> strlen s p = Some (of_nat (length xs))"
  by (simp add: strlen_def strend_cstr)

fun str_order :: "u8 list \<Rightarrow> u8 list \<Rightarrow> int" where
  "str_order [] [] = 0"
| "str_order [] (y # ys) = -1"
| "str_order (x # xs) [] = 1"
| "str_order (x # xs) (y # ys) = (if x = y then str_order xs ys else if x < y then -1 else 1)"

lemma str_order_eq_0 [simp]: "str_order xs ys = 0 \<longleftrightarrow> xs = ys"
  by (induction xs ys rule: str_order.induct) auto

lemma str_order_flip: "str_order ys xs = - str_order xs ys"
  by (induction xs ys rule: str_order.induct) auto

lemma strcmp_cstr:
  assumes "cstr s a xs" "cstr s b ys"
  shows "strcmp s a b = Some (str_order xs ys)"
  using assms
proof (induction xs ys arbitrary: a b rule: str_order.induct)
  case (2 y ys)
  then show ?case by (simp add: strcmp.simps [of s a b] word_less_nat_alt unat_gt_0)
next
  case (3 x xs)
  then show ?case by (simp add: strcmp.simps [of s a b])
next
  case (4 x xs y ys)
  then show ?case by (simp add: strcmp.simps [of s a b])
qed (simp add: strcmp.simps)

lemma strncmp_loop_cstr:
  assumes "cstr s a xs" "cstr s b ys"
  shows "strncmp_loop s n a b = str_order (take n xs) (take n ys)"
  using assms
proof (induction n arbitrary: a b xs ys)
  case (Suc n)
  then show ?case
    by (cases xs; cases ys) (auto simp: word_less_nat_alt unat_gt_0)
qed simp

lemma char_in_cstr: "cstr s p ds \<Longrightarrow> char_in s c p = Some (c \<in> set ds)"
proof (induction ds arbitrary: p)
  case Nil
  then show ?case by (simp add: char_in.simps [of s c p])
next
  case (Cons d ds)
  then show ?case by (auto simp: char_in.simps [of s c p])
qed

lemma strcspn_loop_cstr:
  assumes "cstr s p xs" "cstr s d ds"
  shows "strcspn_loop s d p = Some (p + of_nat (length (takeWhile (\<lambda>c. c \<notin> set ds) xs)))"
  using assms(1)
proof (induction xs arbitrary: p)
  case Nil
  then show ?case by (simp add: strcspn_loop.simps [of s d p])
next
  case (Cons x xs)
  then show ?case by (simp add: strcspn_loop.simps [of s d p] char_in_cstr [OF assms(2)] flip: add.assoc)
qed

lemma strspn_loop_cstr:
  assumes "cstr s p xs" "cstr s d ds"
  shows "strspn_loop s d p = Some (p + of_nat (length (takeWhile (\<lambda>c. c \<in> set ds) xs)))"
  using assms(1)
proof (induction xs arbitrary: p)
  case Nil
  then show ?case by (simp add: strspn_loop.simps [of s d p])
next
  case (Cons x xs)
  then show ?case by (simp add: strspn_loop.simps [of s d p] char_in_cstr [OF assms(2)] flip: add.assoc)
qed

lemma strcspn_cstr:
  "cstr s p xs \<Longrightarrow> cstr s d ds \<Longrightarrow>
   strcspn s p d = Some (of_nat (length (takeWhile (\<lambda>c. c \<notin> set ds) xs)))"
  by (simp add: strcspn_def strcspn_loop_cstr)

lemma strspn_cstr:
  "cstr s p xs \<Longrightarrow> cstr s d ds \<Longrightarrow>
   strspn s p d = Some (of_nat (length (takeWhile (\<lambda>c. c \<in> set ds) xs)))"
  by (simp add: strspn_def strspn_loop_cstr)


section \<open>Copies\<close>

text \<open>A string survives a store outside its bytes.\<close>

lemma cstr_store8:
  assumes "cstr s a xs" "span (hhdm_off s) a (Suc (length xs)) r" "v2p (hhdm_off s) d \<notin> prange r (Suc (length xs))"
  shows "cstr (store8 d b s) a xs"
  by (rule cstr_cong [OF assms(1)], rule load_bytes_cong [OF assms(2)])
     (use assms(3) in \<open>auto simp: pmem_store8\<close>)

text \<open>
  Copying a string is the \<open>memcpy\<close> of its bytes and the zero byte, unless the destination
  starts inside the source.
\<close>

lemma strcopy_cstr:
  assumes "cstr s src xs" "span (hhdm_off s) d (Suc (length xs)) p" "span (hhdm_off s) src (Suc (length xs)) r"
    and "unat p \<le> unat r \<or> unat r + Suc (length xs) \<le> unat p"
  shows "strcopy d src s = Some (memcpy_loop (Suc (length xs)) d src s)"
  using assms
proof (induction xs arbitrary: d src p r s)
  case Nil
  then show ?case by (simp add: strcopy.simps [of d src s])
next
  case (Cons x xs)
  let ?n = "Suc (length xs)" and ?t = "store8 d x s"
  note sp = span_Suc [OF Cons.prems(2) [unfolded list.size add_Suc_right add_0_right]]
    and sr = span_Suc [OF Cons.prems(3) [unfolded list.size add_Suc_right add_0_right]]
  have bp: "unat p + Suc ?n \<le> 2 ^ 64" and br: "unat r + Suc ?n \<le> 2 ^ 64"
    using span_bound [OF Cons.prems(2)] span_bound [OF Cons.prems(3)] by simp_all
  have p1: "unat (p + 1) = unat p + 1" and r1: "unat (r + 1) = unat r + 1"
    using bp br by (simp_all add: unat_add_no_wrap)
  have "p \<notin> prange (r + 1) ?n" using Cons.prems(4) r1 by (auto simp: prange_def)
  then have c: "cstr ?t (src + 1) xs" using Cons.prems(1) sr(2) sp(1) by (intro cstr_store8) auto
  have "strcopy (d + 1) (src + 1) ?t = Some (memcpy_loop ?n (d + 1) (src + 1) ?t)"
    using sp(2) sr(2) Cons.prems(4) p1 r1 by (intro Cons.IH [OF c]) auto
  then show ?case using Cons.prems(1) by (simp add: strcopy.simps [of d src s])
qed

text \<open>What a copy that delivers the bytes leaves at the destination.\<close>

lemma cstr_memcpy_loop:
  assumes "cstr s src xs" "span (hhdm_off s) d (Suc (length xs)) p" "span (hhdm_off s) src (Suc (length xs)) r"
    and "unat p \<le> unat r \<or> unat r + Suc (length xs) \<le> unat p"
  shows "cstr (memcpy_loop (Suc (length xs)) d src s) d xs"
proof -
  let ?n = "Suc (length xs)"
  let ?t = "memcpy_loop ?n d src s"
  have "pmem ?t (p + of_nat i) = pmem s (r + of_nat i)" if "i < ?n" for i
    using pmem_memcpy_loop [OF assms(2-4)] prange_offset [OF that span_bound [OF assms(2)]] by simp
  then have b: "load_bytes ?t d ?n = load_bytes s src ?n"
    using assms(2,3) by (simp add: load_bytes_span del: memcpy_loop.simps load_bytes.simps upt_Suc)
  have "load_bytes s src ?n = xs @ [0]"
    using cstr_bytes [OF assms(1)] cstr_end [OF assms(1)] load_bytes_append [of s src "length xs" 1] by simp
  moreover have "0 \<notin> set xs" by (rule cstr_nonzero [OF assms(1)])
  moreover have "cstr t a xs" if "load_bytes t a (Suc (length xs)) = xs @ [0]" "0 \<notin> set xs" for t :: "'a machine_scheme" and a xs
    using that by (induction xs arbitrary: a) auto
  ultimately show ?thesis using b by metis
qed

section \<open>Tokens\<close>

definition next_token :: "u8 list \<Rightarrow> u8 list \<Rightarrow> (u8 list \<times> u8 list) option" where
  "next_token ds xs =
     (let ys = dropWhile (\<lambda>c. c \<in> set ds) xs in
      if ys = [] then None
      else Some (takeWhile (\<lambda>c. c \<notin> set ds) ys, drop 1 (dropWhile (\<lambda>c. c \<notin> set ds) ys)))"

lemma cstr_drop: "cstr s p xs \<Longrightarrow> k \<le> length xs \<Longrightarrow> cstr s (p + of_nat k) (drop k xs)"
  using cstr_append [of s p "take k xs" "drop k xs"] by simp

text \<open>The cut \<open>strtok\<close> makes: the string in two, at the byte it overwrites.\<close>

lemma cstr_cut:
  assumes "cstr s p (xs @ c # ys)" "span (hhdm_off s) p (Suc (length xs + Suc (length ys))) r"
  shows "cstr (store8 (p + of_nat (length xs)) 0 s) p xs"
    "cstr (store8 (p + of_nat (length xs)) 0 s) (p + of_nat (length xs) + 1) ys"
proof -
  let ?k = "length xs" and ?l = "length ys"
  let ?t = "store8 (p + of_nat ?k) 0 s"
  have sp0: "v2p (hhdm_off s) (p + of_nat ?k) = r + of_nat ?k" using assms(2) by (simp add: span_def)
  have bd: "unat r + Suc (?k + Suc ?l) \<le> 2 ^ 64" using span_bound [OF assms(2)] .
  have uk: "unat (r + of_nat ?k) = unat r + ?k" "unat (r + of_nat (Suc ?k)) = unat r + Suc ?k"
    using bd by (intro unat_add_of_nat; simp)+
  have lo: "load_bytes ?t p ?k = load_bytes s p ?k"
    by (rule load_bytes_cong [OF span_mono [OF assms(2)]])
       (use uk in \<open>auto simp: pmem_store8 sp0 prange_def\<close>)
  show "cstr ?t p xs"
    using lo assms(1) cstr_append [of ?t p xs "[]"] by (simp add: cstr_append load8_def store8_def)
  have "span (hhdm_off s) (p + of_nat (Suc ?k)) (Suc ?l) (r + of_nat (Suc ?k))"
    by (rule span_shift [OF assms(2)]) simp
  moreover have "cstr s (p + of_nat (Suc ?k)) ys"
    using assms(1) by (simp add: cstr_append flip: add.assoc) (simp add: ac_simps)
  ultimately have "cstr ?t (p + of_nat (Suc ?k)) ys"
    by (intro cstr_store8 [of _ _ _ "r + of_nat (Suc ?k)"])
       (use uk in \<open>auto simp: sp0 prange_def simp del: of_nat_Suc\<close>)
  then show "cstr ?t (p + of_nat ?k + 1) ys" by (simp add: ac_simps)
qed

lemma strtok_cstr:
  assumes "cstr s (if s1 \<noteq> NULL then s1 else ssave) xs" "cstr s s2 ds"
    "span (hhdm_off s) (if s1 \<noteq> NULL then s1 else ssave) (Suc (length xs)) r"
  shows "case next_token ds xs of
      None \<Rightarrow> strtok lit s1 s2 ssave s = Some (NULL, lit, s)
    | Some (tok, rest) \<Rightarrow> \<exists>p save t. strtok lit s1 s2 ssave s = Some (p, save, t) \<and>
        cstr t p tok \<and> cstr t save rest \<and> (\<forall>q. q \<notin> prange r (length xs) \<longrightarrow> pmem t q = pmem s q)"
proof -
  define a where "a = (if s1 \<noteq> NULL then s1 else ssave)"
  note as = assms [folded a_def]
  let ?D = "\<lambda>c. c \<in> set ds"
  define k where "k = length (takeWhile ?D xs)"
  define ys where "ys = dropWhile ?D xs"
  have kx: "k \<le> length xs" by (simp add: k_def length_takeWhile_le)
  have dr: "drop k xs = ys" by (simp add: k_def ys_def dropWhile_eq_drop)
  define b where "b = a + of_nat k"
  have cy: "cstr s b ys" using cstr_drop [OF as(1) kx] dr by (simp add: b_def)
  have sk: "strspn s a s2 = Some (of_nat k)" using strspn_cstr [OF as(1,2)] by (simp add: k_def)
  have ly: "length ys = length xs - k" using dr by (metis length_drop)
  have sy: "span (hhdm_off s) b (Suc (length ys)) (r + of_nat k)"
    unfolding b_def by (rule span_shift [OF as(3)]) (use kx ly in simp)
  show ?thesis
  proof (cases "ys = []")
    case True
    then show ?thesis using cy sk
      by (simp add: strtok_def next_token_def a_def [symmetric] Let_def ys_def [symmetric] b_def)
  next
    case False
    then have nz: "load8 s b \<noteq> 0" using cy by (cases ys) auto
    define tok where "tok = takeWhile (\<lambda>c. \<not> ?D c) ys"
    define rest where "rest = dropWhile (\<lambda>c. \<not> ?D c) ys"
    have yr: "ys = tok @ rest" by (simp add: tok_def rest_def)
    have len: "strcspn s b s2 = Some (of_nat (length tok))"
      using strcspn_cstr [OF cy as(2)] by (simp add: tok_def)
    have nt: "next_token ds xs = Some (tok, drop 1 rest)"
      using False by (simp add: next_token_def ys_def [symmetric] tok_def rest_def)
    let ?e = "b + of_nat (length tok)"
    have run: "strtok lit s1 s2 ssave s =
        (if load8 s ?e \<noteq> 0 then Some (b, ?e + 1, store8 ?e 0 s) else Some (b, ?e, s))"
      using sk nz len by (simp add: strtok_def a_def [symmetric] b_def [symmetric] Let_def)
    have ce: "cstr s ?e rest" using cy yr by (metis cstr_append)
    show ?thesis
    proof (cases rest)
      case Nil
      then have "load8 s ?e = 0" using ce by simp
      moreover have "cstr s b tok" using cy yr Nil by simp
      ultimately show ?thesis using nt run ce Nil by simp
    next
      case (Cons c zs)
      then have "load8 s ?e \<noteq> 0" using ce by auto
      moreover have cut: "cstr (store8 ?e 0 s) b tok" "cstr (store8 ?e 0 s) (?e + 1) zs"
        using cstr_cut [of s b tok c zs "r + of_nat k"] cy sy yr Cons by auto
      moreover have "v2p (hhdm_off s) ?e \<in> prange r (length xs)"
      proof -
        have ll: "k + length tok < length xs"
          using kx ly yr Cons by simp
        have "?e = a + of_nat (k + length tok)" by (simp add: b_def)
        then have "v2p (hhdm_off s) ?e = r + of_nat (k + length tok)"
          using as(3) ll unfolding span_def by (metis less_SucI)
        moreover have "unat r + length xs \<le> 2 ^ 64" using span_bound [OF as(3)] by simp
        ultimately show ?thesis using prange_offset [OF ll] by simp
      qed
      ultimately show ?thesis
        using nt run Cons by (auto simp: pmem_store8)
    qed
  qed
qed


section \<open>strcat, strchr and atoi\<close>

lemma strcat_cstr:
  assumes "cstr s a xs" "cstr s b ys" "span (hhdm_off s) a (Suc (length xs + length ys)) p"
    "span (hhdm_off s) b (Suc (length ys)) r"
    "prange p (Suc (length xs + length ys)) \<inter> prange r (Suc (length ys)) = {}"
  shows "\<exists>t. strcat a b s = Some (a, t) \<and> cstr t a (xs @ ys) \<and>
    (\<forall>q. q \<notin> prange p (Suc (length xs + length ys)) \<longrightarrow> pmem t q = pmem s q)"
proof -
  let ?k = "length xs" and ?n = "Suc (length ys)"
  let ?t = "memcpy_loop ?n (a + of_nat ?k) b s"
  have bd: "unat p + Suc (?k + length ys) \<le> 2 ^ 64" and br: "unat r + ?n \<le> 2 ^ 64"
    using span_bound [OF assms(3)] span_bound [OF assms(4)] by simp_all
  have uk: "unat (p + of_nat ?k) = unat p + ?k" using bd by (intro unat_add_of_nat) simp
  have sd: "span (hhdm_off s) (a + of_nat ?k) ?n (p + of_nat ?k)"
    by (rule span_shift [OF assms(3)]) simp
  have ord: "unat (p + of_nat ?k) \<le> unat r \<or> unat r + ?n \<le> unat (p + of_nat ?k)"
  proof (rule ccontr)
    assume "\<not> ?thesis"
    then have "p + of_nat ?k \<in> prange r ?n" by (auto simp: prange_def)
    moreover have "p + of_nat ?k \<in> prange p (Suc (?k + length ys))"
      using uk by (auto simp: prange_def)
    ultimately show False using assms(5) by blast
  qed
  have run: "strcat a b s = Some (a, ?t)"
    by (simp add: strcat_def strend_cstr [OF assms(1)] strcopy_cstr [OF assms(2) sd assms(4) ord]
      del: memcpy_loop.simps)
  have hi: "cstr ?t (a + of_nat ?k) ys" by (rule cstr_memcpy_loop [OF assms(2) sd assms(4) ord])
  have oth: "q \<notin> prange (p + of_nat ?k) ?n \<Longrightarrow> pmem ?t q = pmem s q" for q
    by (rule pmem_memcpy_loop_other [OF sd])
  have lo: "load_bytes ?t a ?k = load_bytes s a ?k"
    by (rule load_bytes_cong [OF span_mono [OF assms(3)]])
       (use oth uk in \<open>auto simp: prange_def simp del: memcpy_loop.simps\<close>)
  have "cstr ?t a (xs @ ys)"
    using hi lo cstr_bytes [OF assms(1)] cstr_nonzero [OF assms(1)]
    by (simp add: cstr_append del: memcpy_loop.simps)
  moreover have "prange (p + of_nat ?k) ?n \<subseteq> prange p (Suc (?k + length ys))"
    by (rule prange_subset) (simp_all add: uk)
  ultimately show ?thesis using run oth by blast
qed

lemma strchr_loop_cstr:
  "cstr s p xs \<Longrightarrow> strchr_loop s c p =
     Some (if c \<in> set xs then p + of_nat (length (takeWhile (\<lambda>x. x \<noteq> c) xs)) else NULL)"
proof (induction xs arbitrary: p)
  case Nil
  then show ?case by (simp add: strchr_loop.simps [of s c p])
next
  case (Cons x xs)
  then show ?case by (auto simp: strchr_loop.simps [of s c p] simp flip: add.assoc)
qed

lemma strchr_cstr:
  "cstr s p xs \<Longrightarrow> strchr s p c =
     Some (if ucast c \<in> set xs then p + of_nat (length (takeWhile (\<lambda>x. x \<noteq> ucast c) xs)) else NULL)"
  by (simp add: strchr_def strchr_loop_cstr)

definition is_digit :: "u8 \<Rightarrow> bool" where "is_digit c \<longleftrightarrow> 0x30 \<le> c \<and> c \<le> 0x39"

text \<open>The value of a digit sequence, most significant first.\<close>

definition digits_value :: "nat \<Rightarrow> u8 list \<Rightarrow> nat" where
  "digits_value b = foldl (\<lambda>n c. b * n + (unat c - 48)) 0"

text \<open>The \<open>int\<close> index of \<open>atoi\<close> is not negative while it is below \<open>2 ^ 31\<close>.\<close>

lemma scast_small: "unat i < 2 ^ 31 \<Longrightarrow> (scast (i :: u32) :: u64) = ucast i"
proof -
  assume "unat i < 2 ^ 31"
  then have "\<not> bit (unat i) 31" by (simp add: bit_iff_odd)
  then have b: "\<not> bit i 31" by (simp add: bit_unsigned_iff)
  have small: "n < 31" if "bit i n" for n
    using bit_imp_le_length [OF that] that b by (cases "n = 31") auto
  with b show ?thesis by (intro bit_word_eqI) (auto simp: bit_simps min_def dest: small)
qed

lemma unat_u8_u32 [simp]: "unat (ucast (c :: u8) :: u32) = unat c"
  using unsigned_less [of c, where 'a = nat] by (simp add: unsigned_ucast_eq take_bit_nat_eq_self_iff)

lemma digit_word: "is_digit c \<Longrightarrow> (ucast c - 0x30 :: u32) = of_nat (unat c - 48)"
proof -
  assume "is_digit c"
  then have "48 \<le> unat c" by (simp add: is_digit_def word_le_nat_alt)
  then have "(of_nat (unat c - 48) :: u32) = of_nat (unat c) - of_nat 48" by (rule of_nat_diff)
  then show ?thesis by simp
qed

lemma atoi_loop_digits:
  assumes "load_bytes s (p + of_nat i) (length ds) = ds" "\<forall>c \<in> set ds. is_digit c"
    "\<not> is_digit (load8 s (p + of_nat (i + length ds)))" "i + length ds < 2 ^ 31"
  shows "atoi_loop s p (of_nat i) (of_nat n) = Some (of_nat (foldl (\<lambda>n c. 10 * n + (unat c - 48)) n ds))"
  using assms
proof (induction ds arbitrary: i n)
  case Nil
  have "(scast (of_nat i :: u32) :: u64) = of_nat i"
    using Nil.prems(4) by (subst scast_small) (simp_all add: unat_of_nat unsigned_of_nat take_bit_nat_eq_self)
  then show ?case using Nil.prems(3) by (auto simp: atoi_loop.simps [of s p "of_nat i"] is_digit_def Let_def)
next
  case (Cons d ds)
  have i: "(scast (of_nat i :: u32) :: u64) = of_nat i"
    using Cons.prems(4) by (subst scast_small) (simp_all add: unat_of_nat unsigned_of_nat take_bit_nat_eq_self)
  have l: "load8 s (p + of_nat i) = d" "is_digit d" using Cons.prems(1,2) by simp_all
  have "atoi_loop s p (of_nat (Suc i)) (of_nat (10 * n + (unat d - 48))) =
      Some (of_nat (foldl (\<lambda>n c. 10 * n + (unat c - 48)) (10 * n + (unat d - 48)) ds))"
    using Cons.prems by (intro Cons.IH) (simp_all add: ac_simps)
  then show ?case
    using l i digit_word [OF l(2)]
    by (simp add: atoi_loop.simps [of s p "of_nat i"] is_digit_def Let_def add.commute)
qed

lemma atoi_digits:
  assumes "load_bytes s p (length ds) = ds" "\<forall>c \<in> set ds. is_digit c"
    "\<not> is_digit (load8 s (p + of_nat (length ds)))" "length ds < 2 ^ 31"
  shows "atoi s p = Some (of_nat (digits_value 10 ds))"
  using atoi_loop_digits [of s p 0 ds 0] assms by (simp add: atoi_def digits_value_def)

section \<open>Properties\<close>

text \<open>Memories for the witnesses: the bytes of a list from an address on, zero elsewhere.\<close>

definition bytes_at :: "u64 \<Rightarrow> u8 list \<Rightarrow> (u64 \<Rightarrow> u8) \<Rightarrow> u64 \<Rightarrow> u8" where
  "bytes_at a bs m q = (if unat (q - a) < length bs then bs ! unat (q - a) else m q)"

definition sample_text :: machine where
  "sample_text = \<lparr>pmem = bytes_at 0x100 [97, 98, 44, 99] (bytes_at 0x200 [44] (\<lambda>_. 0)), hhdm_off = 0x8000\<rparr>"

lemma sample_text_strings:
  "cstr sample_text 0x100 [97, 98, 44, 99]" "cstr sample_text 0x103 [99]" "cstr sample_text 0x200 [44]"
  "hhdm_off sample_text = 0x8000"
  by (simp_all add: sample_text_def bytes_at_def load8_def v2p_def)

text \<open>
  \<open>strcmp\<close> returns on any two strings; the result is 0 exactly for equal strings, and
  swapping the arguments changes its sign.
\<close>

theorem strcmp_spec:
  assumes "cstr s a xs" "cstr s b ys"
  shows "\<exists>r. strcmp s a b = Some r \<and> strcmp s b a = Some (- r) \<and> (r = 0 \<longleftrightarrow> xs = ys) \<and>
    strncmp s a b n = str_order (take (unat n) xs) (take (unat n) ys)"
  using strcmp_cstr [OF assms] strcmp_cstr [OF assms(2,1)] str_order_flip [of ys xs]
    strncmp_loop_cstr [OF assms] by (simp add: strncmp_def)

theorem strcmp_spec_witness:
  "\<exists>r. strcmp sample_text 0x103 0x200 = Some r \<and> strcmp sample_text 0x200 0x103 = Some (- r) \<and>
    (r = 0 \<longleftrightarrow> [99] = [44 :: u8]) \<and>
    strncmp sample_text 0x103 0x200 1 = str_order (take (unat (1 :: u64)) [99]) (take (unat (1 :: u64)) [44])"
  by (rule strcmp_spec [of sample_text "0x103" "[99]" "0x200" "[44]"])
    (rule sample_text_strings)+

text \<open>
  \<open>strcat\<close>: for a destination with room for both strings, apart from the source, it returns
  the destination, which then holds the concatenation, and writes nothing else.
\<close>

theorem strcat_spec:
  assumes "cstr s a xs" "cstr s b ys" "span (hhdm_off s) a (Suc (length xs + length ys)) p"
    "span (hhdm_off s) b (Suc (length ys)) r"
    "prange p (Suc (length xs + length ys)) \<inter> prange r (Suc (length ys)) = {}"
  shows "\<exists>t. strcat a b s = Some (a, t) \<and> cstr t a (xs @ ys) \<and>
    (\<forall>q. q \<notin> prange p (Suc (length xs + length ys)) \<longrightarrow> pmem t q = pmem s q)"
  by (rule strcat_cstr [OF assms])

theorem strcat_spec_witness:
  "\<exists>t. strcat 0x103 0x200 sample_text = Some (0x103, t) \<and> cstr t 0x103 [99, 44]"
proof -
  have "span (hhdm_off sample_text) 0x103 (Suc (Suc (Suc 0))) 0x103"
    "span (hhdm_off sample_text) 0x200 (Suc (Suc 0)) 0x200"
    by (rule span_low; simp add: sample_text_strings)+
  then have "\<exists>t. strcat 0x103 0x200 sample_text = Some (0x103, t) \<and> cstr t 0x103 ([99] @ [44]) \<and>
      (\<forall>q. q \<notin> prange 0x103 (Suc (length [99 :: u8] + length [44 :: u8])) \<longrightarrow> pmem t q = pmem sample_text q)"
    by (intro strcat_spec [of sample_text "0x103" "[99]" "0x200" "[44]" "0x103" "0x200"] sample_text_strings)
       (auto simp: prange_def)
  then show ?thesis by (auto simp del: cstr.simps)
qed

text \<open>
  C31. \<open>strtok\<close> cuts the next token: it skips the delimiters, ends the token with a zero byte in
  place, and keeps the address of what follows; at the end of the string it returns no token.
  Nothing outside the string is written.
\<close>

theorem strtok_spec:
  assumes "cstr s (if s1 \<noteq> NULL then s1 else ssave) xs" "cstr s s2 ds"
    "span (hhdm_off s) (if s1 \<noteq> NULL then s1 else ssave) (Suc (length xs)) r"
  shows "case next_token ds xs of
      None \<Rightarrow> strtok lit s1 s2 ssave s = Some (NULL, lit, s)
    | Some (tok, rest) \<Rightarrow> \<exists>p save t. strtok lit s1 s2 ssave s = Some (p, save, t) \<and>
        cstr t p tok \<and> cstr t save rest \<and> (\<forall>q. q \<notin> prange r (length xs) \<longrightarrow> pmem t q = pmem s q)"
  by (rule strtok_cstr [OF assms])

theorem strtok_spec_witness:
  "\<exists>p save t. strtok 0x300 0x100 0x200 NULL sample_text = Some (p, save, t) \<and>
     cstr t p [97, 98] \<and> cstr t save [99]"
proof -
  have "span (hhdm_off sample_text) 0x100 (Suc (Suc (Suc (Suc (Suc 0))))) 0x100"
    by (rule span_low) (simp add: sample_text_strings)
  then show ?thesis
    using strtok_spec [of sample_text "0x100" 0 "[97, 98, 44, 99]" "0x200" "[44]" "0x100" "0x300"]
      sample_text_strings
    by (auto simp: next_token_def simp del: cstr.simps)
qed

end
