(* ===== verification/Layout.thy ===== *)
theory Layout
  imports CString
begin

text \<open>
  C structures that the kernel overlays on memory it did not write (firmware tables, archive
  headers, hive files) are described by their layouts: the fields in order, each with its size
  and alignment. The offset of a field is computed from them as the compiler does; in a packed
  structure every alignment is 1.
\<close>

type_synonym layout = "(string \<times> nat \<times> nat) list"

definition packed :: "(string \<times> nat) list \<Rightarrow> layout" where
  "packed fs = map (\<lambda>(f, sz). (f, sz, 1)) fs"

definition align_to :: "nat \<Rightarrow> nat \<Rightarrow> nat" where
  "align_to n a = (n + (a - 1)) div a * a"

primrec offset_from :: "nat \<Rightarrow> layout \<Rightarrow> string \<Rightarrow> nat" where
  "offset_from n [] f = n"
| "offset_from n (x # xs) f =
     (let (g, sz, al) = x; o' = align_to n al in
      if f = g then o' else offset_from (o' + sz) xs f)"

definition offset_of :: "layout \<Rightarrow> string \<Rightarrow> nat" where
  "offset_of l f = offset_from 0 l f"

text \<open>The end of the last field; for a packed structure this is \<open>sizeof\<close>.\<close>

definition size_of :: "layout \<Rightarrow> nat" where
  "size_of l = fold (\<lambda>(f, sz, al) n. align_to n al + sz) l 0"

lemmas layout_simps = packed_def align_to_def offset_of_def size_of_def

definition field :: "layout \<Rightarrow> string \<Rightarrow> ptr \<Rightarrow> ptr" where
  "field l f p = p + of_nat (offset_of l f)"

text \<open>
  Comparing with a string literal: \<open>strncmp(a, b, n) == 0\<close> on byte lists, where a list that ends
  early is continued by its zero byte.
\<close>

primrec strn_eq :: "nat \<Rightarrow> u8 list \<Rightarrow> u8 list \<Rightarrow> bool" where
  "strn_eq 0 xs ys = True"
| "strn_eq (Suc n) xs ys =
     (let x = (case xs of [] \<Rightarrow> 0 | c # _ \<Rightarrow> c); y = (case ys of [] \<Rightarrow> 0 | c # _ \<Rightarrow> c) in
      x = y \<and> (x = 0 \<or> strn_eq n (tl xs) (tl ys)))"

lemma strn_eq_strncmp:
  "cstr s b ys \<Longrightarrow> strn_eq n (load_bytes s a n) ys \<longleftrightarrow> strncmp_loop s n a b = 0"
proof (induction n arbitrary: a b ys)
  case (Suc n)
  then show ?case by (cases ys) auto
qed simp

lemma strn_eq_full: "length xs = n \<Longrightarrow> length ys = n \<Longrightarrow> 0 \<notin> set ys \<Longrightarrow> strn_eq n xs ys \<longleftrightarrow> xs = ys"
proof (induction n arbitrary: xs ys)
  case (Suc n)
  then obtain x xs' y ys' where "xs = x # xs'" "ys = y # ys'" by (metis length_Suc_conv)
  then show ?case using Suc by auto
qed auto

text \<open>Bytes of a literal.\<close>

definition lit :: "string \<Rightarrow> u8 list" where
  "lit cs = map (\<lambda>c. of_nat (of_char c)) cs"

end
