(* ===== verification/Acpi.thy ===== *)
theory Acpi
  imports Interrupts Layout
begin

text \<open>
  The ACPI tables: finding them (\<open>drivers/ACPI/SDT.c\<close>), the interrupt controllers of the MADT
  (\<open>arch/x86_64/ACPI/MADT.c\<close>) and PCI configuration space (\<open>drivers/ACPI/MCFG.c\<close>). The tables
  are firmware memory; configuration space is read and written as memory.
\<close>

section \<open>Layouts\<close>

definition sdt_header :: layout where
  "sdt_header = packed [(''signature'', 4), (''length'', 4), (''revision'', 1), (''checksum'', 1),
     (''OEM_ID'', 6), (''OEM_table_ID'', 8), (''OEM_revision'', 4), (''creator_ID'', 4), (''creator_revision'', 4)]"

text \<open>
  \<open>RSDT\<close> and \<open>XSDT\<close> are not packed: the array of 64-bit pointers starts at the next multiple
  of 8.
\<close>

definition RSDT :: layout where "RSDT = [(''h'', 36, 1), (''SDTs'', 0, 4)]"
definition XSDT :: layout where "XSDT = [(''h'', 36, 1), (''SDTs'', 0, 8)]"

definition XSDP :: layout where
  "XSDP = packed [(''signature'', 8), (''checksum'', 1), (''OEM_ID'', 6), (''revision'', 1),
     (''RSDT_address'', 4), (''length'', 4), (''XSDT_address'', 8), (''extended_checksum'', 1), (''reserved'', 3)]"

definition generic_address_t :: layout where
  "generic_address_t = packed [(''address_space'', 1), (''bit_width'', 1), (''bit_offset'', 1),
     (''access_size'', 1), (''address'', 8)]"

definition fadt_header :: layout where
  "fadt_header = packed
     [(''h'', size_of sdt_header), (''firmware_ctrl'', 4), (''dsdt'', 4), (''reserved'', 1),
      (''preferred_power_management_profile'', 1), (''SCI_interrupt'', 2), (''SMI_command_port'', 4),
      (''ACPI_enable'', 1), (''ACPI_disable'', 1), (''S4_BIOS_REQ'', 1), (''PSTATE_control'', 1),
      (''PM1a_event_block'', 4), (''PM1b_event_block'', 4), (''PM1a_control_block'', 4),
      (''PM1b_control_block'', 4), (''PM2_control_block'', 4), (''PM_timer_block'', 4),
      (''GPE0_block'', 4), (''GPE1_block'', 4), (''PM1_event_length'', 1), (''PM1_control_length'', 1),
      (''PM2_control_length'', 1), (''PM_timer_length'', 1), (''GPE0_length'', 1), (''GPE1_length'', 1),
      (''GPE1_base'', 1), (''C_state_control'', 1), (''worst_C2_latency'', 2), (''worst_C3_latency'', 2),
      (''flush_size'', 2), (''flush_stride'', 2), (''duty_offset'', 1), (''duty_width'', 1),
      (''day_alarm'', 1), (''month_alarm'', 1), (''century'', 1), (''boot_architecture_flags'', 2),
      (''reserved2'', 1), (''flags'', 4), (''reset_reg'', size_of generic_address_t), (''reset_value'', 1),
      (''Filler'', 3), (''X_Firmware_Control'', 8), (''X_Dsdt'', 8),
      (''X_PM1a_event_block'', size_of generic_address_t), (''X_PM1b_event_block'', size_of generic_address_t),
      (''X_PM1a_control_block'', size_of generic_address_t), (''X_PM1b_control_block'', size_of generic_address_t),
      (''X_PM2_control_block'', size_of generic_address_t), (''X_PM_timer_block'', size_of generic_address_t),
      (''X_GPE0_block'', size_of generic_address_t), (''X_GPE1_block'', size_of generic_address_t)]"

definition madt_header :: layout where
  "madt_header = packed [(''h'', size_of sdt_header), (''lapic_addr'', 4), (''flags'', 4)]"

text \<open>The variants of the union \<open>the_meat\<close> that the code reads; all start after \<open>h\<close>.\<close>

definition madt_ioapic :: layout where
  "madt_ioapic = packed [(''type'', 1), (''length'', 1), (''id'', 1), (''reserved'', 1), (''adress'', 4),
     (''GS_interrupt_base'', 4)]"

definition madt_override :: layout where
  "madt_override = packed [(''type'', 1), (''length'', 1), (''bus_source'', 1), (''IRQ_source'', 1),
     (''GS_interupt'', 1), (''flags'', 2)]"

definition mcfg_header :: layout where
  "mcfg_header = packed [(''h'', size_of sdt_header), (''reserved'', 8)]"

definition device_config :: layout where
  "device_config = packed [(''base_address'', 8), (''PCI_seg_group'', 2), (''start_bus'', 1), (''end_bus'', 1),
     (''reserved'', 4)]"

lemmas acpi_layouts = sdt_header_def RSDT_def XSDT_def XSDP_def generic_address_t_def fadt_header_def
  madt_header_def madt_ioapic_def madt_override_def mcfg_header_def device_config_def

lemma offsets:
  "size_of sdt_header = 36" "offset_of sdt_header ''signature'' = 0" "offset_of sdt_header ''length'' = 4"
  "offset_of RSDT ''SDTs'' = 36" "offset_of XSDT ''SDTs'' = 40"
  "offset_of XSDP ''revision'' = 15" "offset_of XSDP ''RSDT_address'' = 16" "offset_of XSDP ''XSDT_address'' = 24"
  "offset_of fadt_header ''dsdt'' = 40" "offset_of fadt_header ''X_Dsdt'' = 140"
  "size_of madt_header = 44" "offset_of madt_header ''lapic_addr'' = 36"
  "size_of mcfg_header = 44" "size_of device_config = 16"
  "offset_of device_config ''base_address'' = 0" "offset_of device_config ''start_bus'' = 10"
  "offset_of device_config ''end_bus'' = 11"
  by (simp_all add: acpi_layouts layout_simps)

section \<open>State\<close>

datatype mmio_access = W64 u64 u64 | R64 u64 | R32 u64

text \<open>
  \<open>mmio_dev\<close> answers a read of a device register from the writes of 32-bit registers in \<open>mmio\<close>
  and the other accesses in \<open>mmio_log\<close>, oldest first.
\<close>

record acpistate = intstate +
  ACPI_ver :: u32
  rsdt :: ptr
  xsdt :: ptr
  use_xsdt :: bool
  end_addr :: ptr
  num_madt_entries :: u16
  entry_ptrs :: "ptr list"
  num_mcfg_entries :: u32
  mcfg_entries :: ptr
  hpet_regs :: ptr
  ioapicaddr :: ptr
  vector_count :: u8
  mmio_log :: "mmio_access list"
  mmio_dev :: "(u64 \<times> u32) list \<Rightarrow> mmio_access list \<Rightarrow> u64 \<Rightarrow> u64"

section \<open>SDT.c\<close>

definition sdt_length :: "'z machine_scheme \<Rightarrow> ptr \<Rightarrow> u32" where
  "sdt_length s h = load32 s (field sdt_header ''length'' h)"

primrec checksum_loop :: "'z machine_scheme \<Rightarrow> ptr \<Rightarrow> nat \<Rightarrow> u32 \<Rightarrow> u8 \<Rightarrow> u8" where
  "checksum_loop s h 0 i acc = acc"
| "checksum_loop s h (Suc n) i acc = checksum_loop s h n (i + 1) (acc + load8 s (h + ucast i))"

definition do_checksum :: "'z machine_scheme \<Rightarrow> ptr \<Rightarrow> bool" where
  "do_checksum s h = (if checksum_loop s h (unat (sdt_length s h)) 0 0 \<noteq> 0 then False else True)"

definition find_rsdt :: "ptr \<Rightarrow> 'z acpistate_scheme \<Rightarrow> bool \<times> 'z acpistate_scheme" where
  "find_rsdt rsdp s =
     (let rev = load8 s (field XSDP ''revision'' rsdp);
          s = s\<lparr>ACPI_ver := ucast rev\<rparr> in
      if rev \<ge> 2 then
        let s = s\<lparr>use_xsdt := True\<rparr>;
            s = s\<lparr>xsdt := PHYS_TO_VIRT s (load64 s (field XSDP ''XSDT_address'' rsdp))\<rparr>
        in (do_checksum s (xsdt s), s)
      else
        let s = s\<lparr>rsdt := PHYS_TO_VIRT s (ucast (load32 s (field XSDP ''RSDT_address'' rsdp)))\<rparr>
        in (do_checksum s (rsdt s), s))"

text \<open>
  The loop over the pointers of the root table: \<open>esz\<close> is 8 or 4, \<open>k\<close> the rounds left, \<open>n\<close> the
  matches passed.
\<close>

definition sdt_entry :: "'z machine_scheme \<Rightarrow> nat \<Rightarrow> ptr \<Rightarrow> u64 \<Rightarrow> ptr" where
  "sdt_entry s esz arr i =
     PHYS_TO_VIRT s (if esz = 8 then load64 s (arr + 8 * i) else ucast (load32 s (arr + 4 * i)))"

primrec sdt_scan ::
    "'z machine_scheme \<Rightarrow> nat \<Rightarrow> ptr \<Rightarrow> u8 list \<Rightarrow> usize \<Rightarrow> nat \<Rightarrow> u64 \<Rightarrow> usize \<Rightarrow> ptr" where
  "sdt_scan s esz arr sig index 0 i n = NULL"
| "sdt_scan s esz arr sig index (Suc k) i n =
     (let h = sdt_entry s esz arr i in
      if strn_eq 4 (load_bytes s h 4) sig then
        if n = index then h else sdt_scan s esz arr sig index k (i + 1) (n + 1)
      else sdt_scan s esz arr sig index k (i + 1) n)"

text \<open>
  The number of entries is an \<open>int\<close>: a negative one ends the loop at once. The subtraction and
  the division are of type \<open>size_t\<close>.
\<close>

definition num_entries :: "u32 \<Rightarrow> u64 \<Rightarrow> nat" where
  "num_entries len esz = nat (sint (ucast ((ucast len - 36) div esz :: u64) :: u32))"

definition find_table :: "'z acpistate_scheme \<Rightarrow> u8 list \<Rightarrow> usize \<Rightarrow> ptr" where
  "find_table s sig index =
     (if use_xsdt s then
        sdt_scan s 8 (field XSDT ''SDTs'' (xsdt s)) sig index (num_entries (sdt_length s (xsdt s)) 8) 0 0
      else
        sdt_scan s 4 (field RSDT ''SDTs'' (rsdt s)) sig index (num_entries (sdt_length s (rsdt s)) 4) 0 0)"

text \<open>The recursive call asks for another signature, so it goes to the scan at once.\<close>

definition find_nth_SDT :: "'z acpistate_scheme \<Rightarrow> u8 list \<Rightarrow> usize \<Rightarrow> ptr" where
  "find_nth_SDT s sig index =
     (if strn_eq 4 (lit ''DSDT'') sig then
        let fadt = find_table s (lit ''FACP'') 0 in
        if use_xsdt s then PHYS_TO_VIRT s (load64 s (field fadt_header ''X_Dsdt'' fadt))
        else PHYS_TO_VIRT s (ucast (load32 s (field fadt_header ''dsdt'' fadt)))
      else find_table s sig index)"

definition find_SDT :: "'z acpistate_scheme \<Rightarrow> u8 list \<Rightarrow> ptr" where
  "find_SDT s sig = find_nth_SDT s sig 0"

section \<open>MADT.c\<close>

abbreviation (input) MADT_ENTRY_TYPE_IOAPIC :: u8 where "MADT_ENTRY_TYPE_IOAPIC \<equiv> 1"
abbreviation (input) MADT_ENTRY_TYPE_IOLAPIC_OVERRIDE :: u8 where "MADT_ENTRY_TYPE_IOLAPIC_OVERRIDE \<equiv> 2"
abbreviation (input) MAX_ENTRIES :: u16 where "MAX_ENTRIES \<equiv> 64"

text \<open>
  The array has \<open>MAX_ENTRIES\<close> elements but the guard lets one more through.
\<close>

function recurse_table :: "ptr \<Rightarrow> 'z acpistate_scheme \<Rightarrow> (unit, 'z acpistate_scheme) result" where
  "recurse_table p s =
     (if p \<ge> end_addr s \<or> num_madt_entries s > MAX_ENTRIES then Inr ((), s)
      else if \<not> unat (num_madt_entries s) < length (entry_ptrs s) then Inl Oob
      else recurse_table (p + ucast (load8 s (p + 1)))
             (s\<lparr>entry_ptrs := (entry_ptrs s)[unat (num_madt_entries s) := p],
                num_madt_entries := num_madt_entries s + 1\<rparr>))"
  by pat_completeness auto
termination
proof (relation "measure (\<lambda>(p, s). 65 - unat (num_madt_entries s))")
  fix p and s :: "'z acpistate_scheme"
  assume "\<not> (p \<ge> end_addr s \<or> num_madt_entries s > MAX_ENTRIES)"
  then have "unat (num_madt_entries s) < 65" by (simp add: not_less word_le_nat_alt)
  moreover from this have "unat (num_madt_entries s + 1) = unat (num_madt_entries s) + 1"
    by (simp add: unat_word_ariths)
  ultimately show "((p + ucast (load8 s (p + 1)), s\<lparr>entry_ptrs := (entry_ptrs s)[unat (num_madt_entries s) := p],
      num_madt_entries := num_madt_entries s + 1\<rparr>), p, s) \<in> measure (\<lambda>(p, s). 65 - unat (num_madt_entries s))"
    by simp
qed simp

declare recurse_table.simps [simp del]

definition madt_init :: "'z acpistate_scheme \<Rightarrow> (bool, 'z acpistate_scheme) result" where
  "madt_init s =
     (let h = find_SDT s (lit ''APIC'');
          s = s\<lparr>lapic_base := load32 s (field madt_header ''lapic_addr'' h)\<rparr>;
          s = s\<lparr>end_addr := h + ucast (sdt_length s h)\<rparr>
      in then_do (recurse_table (h + of_nat (size_of madt_header)) s) (\<lambda>_ s. Inr (True, s)))"

section \<open>MCFG.c\<close>

definition mcfg_init :: "'z acpistate_scheme \<Rightarrow> bool \<times> 'z acpistate_scheme" where
  "mcfg_init s =
     (let h = find_SDT s (lit ''MCFG'') in
      if h = NULL then (False, s)
      else (True, s\<lparr>num_mcfg_entries := ucast ((ucast (sdt_length s h) - of_nat (size_of mcfg_header)) div
                      of_nat (size_of device_config) :: u64),
                    mcfg_entries := h + of_nat (size_of mcfg_header)\<rparr>))"

primrec pcie_scan :: "'z acpistate_scheme \<Rightarrow> u8 \<Rightarrow> nat \<Rightarrow> usize \<Rightarrow> ptr option" where
  "pcie_scan s bus 0 i = None"
| "pcie_scan s bus (Suc k) i =
     (let e = mcfg_entries s + 16 * i in
      if bus \<ge> load8 s (field device_config ''start_bus'' e) \<and> bus \<le> load8 s (field device_config ''end_bus'' e)
      then Some e else pcie_scan s bus k (i + 1))"

definition pcie_getaddr :: "'z acpistate_scheme \<Rightarrow> u8 \<Rightarrow> u8 \<Rightarrow> u8 \<Rightarrow> u8 \<Rightarrow> ptr" where
  "pcie_getaddr s bus dev func off =
     (case pcie_scan s bus (unat (num_mcfg_entries s)) 0 of
        None \<Rightarrow> NULL
      | Some e \<Rightarrow> load64 s (field device_config ''base_address'' e) + push_bit 20 (ucast bus) +
          push_bit 15 (ucast dev) + push_bit 12 (ucast func) + ucast off)"

definition pcie_read :: "'z acpistate_scheme \<Rightarrow> u8 \<Rightarrow> u8 \<Rightarrow> u8 \<Rightarrow> u8 \<Rightarrow> u32" where
  "pcie_read s bus dev func off = load32 s (pcie_getaddr s bus dev func off)"

definition pcie_write :: "u8 \<Rightarrow> u8 \<Rightarrow> u8 \<Rightarrow> u8 \<Rightarrow> u32 \<Rightarrow> 'z acpistate_scheme \<Rightarrow> 'z acpistate_scheme" where
  "pcie_write bus dev func off v s = store32 (pcie_getaddr s bus dev func off) v s"

text \<open>\<open>iterate_pci\<close> only reports: the vendor and device numbers it logs, in order.\<close>

definition pci_functions :: "'z acpistate_scheme \<Rightarrow> u8 \<Rightarrow> u8 \<Rightarrow> nat" where
  "pci_functions s bus device = (if pcie_read s bus device 0 0x0E AND push_bit 7 1 \<noteq> 0 then 8 else 1)"

definition iterate_pci :: "'z acpistate_scheme \<Rightarrow> (u16 \<times> u16) list" where
  "iterate_pci s = concat (map (\<lambda>bus. concat (map (\<lambda>device.
     concat (map (\<lambda>function.
       let vendor_id = ucast (pcie_read s (of_nat bus) (of_nat device) (of_nat function) 0x00) :: u16;
           device_id = ucast (pcie_read s (of_nat bus) (of_nat device) (of_nat function) 0x02) :: u16
       in if vendor_id = 0x0000 \<or> vendor_id = 0xFFFF \<or> device_id = 0x0000 then [] else [(vendor_id, device_id)])
     [0..<pci_functions s (of_nat bus) (of_nat device)])) [0..<32])) [0..<8])"

section \<open>Checksums\<close>

lemma unat_u32_u64: "unat (ucast (x :: u32) :: u64) = unat x"
proof -
  have "unat x < 2 ^ 32" using unsigned_less [of x, where 'a = nat] by simp
  then have "unat x < 2 ^ 64" by (rule less_trans) simp
  then show ?thesis by (simp add: unsigned_ucast_eq take_bit_nat_eq_self_iff)
qed

lemma checksum_loop_sum:
  assumes "unat i + n < 2 ^ 32"
  shows "checksum_loop s h n i acc = acc + sum_list (load_bytes s (h + ucast i) n)"
  using assms
proof (induction n arbitrary: i acc)
  case (Suc n)
  have "unat (i + 1) = unat i + 1" using Suc.prems by (simp add: unat_word_ariths)
  moreover have "ucast (i + 1) = (ucast i + 1 :: u64)"
    using calculation Suc.prems by (simp add: word_unat_eq_iff unat_u32_u64 unat_word_ariths)
  ultimately show ?case using Suc by (simp add: add.assoc)
qed simp

lemma do_checksum_sum:
  "do_checksum s h \<longleftrightarrow> sum_list (load_bytes s h (unat (sdt_length s h))) = 0"
proof -
  have "unat (sdt_length s h) < 2 ^ 32" using unsigned_less [of "sdt_length s h", where 'a = nat] by simp
  then show ?thesis by (simp add: do_checksum_def checksum_loop_sum)
qed

section \<open>The search\<close>

definition matches :: "'z machine_scheme \<Rightarrow> u8 list \<Rightarrow> ptr \<Rightarrow> bool" where
  "matches s sig h \<longleftrightarrow> strn_eq 4 (load_bytes s h 4) sig"

definition nth_or_null :: "ptr list \<Rightarrow> nat \<Rightarrow> ptr" where
  "nth_or_null hs k = (if k < length hs then hs ! k else NULL)"

lemma sdt_scan_filter:
  assumes "unat n \<le> unat index"
  shows "sdt_scan s esz arr sig index k i n =
    nth_or_null (filter (matches s sig) (map (\<lambda>j. sdt_entry s esz arr (i + of_nat j)) [0..<k])) (unat index - unat n)"
  using assms
proof (induction k arbitrary: i n)
  case 0
  then show ?case by (simp add: nth_or_null_def)
next
  case (Suc k)
  have up: "map (\<lambda>j. sdt_entry s esz arr (i + of_nat j)) [0..<Suc k] =
      sdt_entry s esz arr i # map (\<lambda>j. sdt_entry s esz arr (i + 1 + of_nat j)) [0..<k]"
    by (subst upt_conv_Cons) (simp_all add: map_Suc_upt [symmetric] add.assoc del: upt_Suc)
  show ?case
  proof (cases "matches s sig (sdt_entry s esz arr i)")
    case False
    then show ?thesis using Suc by (simp add: up matches_def Let_def del: upt_Suc)
  next
    case True
    show ?thesis
    proof (cases "n = index")
      case True': True
      then show ?thesis using True by (simp add: up matches_def Let_def nth_or_null_def del: upt_Suc)
    next
      case False
      then have lt: "unat n < unat index" using Suc.prems by (simp add: word_unat_eq_iff)
      moreover have "unat index < 18446744073709551616" by simp
      ultimately have "unat n + 1 < 18446744073709551616" by linarith
      then have n1: "unat (n + 1) = unat n + 1" by (intro unat_add_no_wrap [THEN trans]) simp_all
      have "sdt_scan s esz arr sig index (Suc k) i n = sdt_scan s esz arr sig index k (i + 1) (n + 1)"
        using True False by (simp add: matches_def Let_def)
      also have "\<dots> = nth_or_null (filter (matches s sig) (map (\<lambda>j. sdt_entry s esz arr (i + 1 + of_nat j)) [0..<k]))
          (unat index - unat (n + 1))"
        using lt n1 by (intro Suc.IH) simp
      finally show ?thesis
        using True lt n1 by (auto simp: up nth_or_null_def nth_Cons' simp del: upt_Suc)
    qed
  qed
qed

text \<open>The tables the root table points to, in order, as the code reads the pointers.\<close>

definition root_tables :: "'z acpistate_scheme \<Rightarrow> ptr list" where
  "root_tables s =
     (if use_xsdt s
      then map (\<lambda>j. PHYS_TO_VIRT s (load64 s (xsdt s + 40 + 8 * of_nat j))) [0..<num_entries (sdt_length s (xsdt s)) 8]
      else map (\<lambda>j. PHYS_TO_VIRT s (ucast (load32 s (rsdt s + 36 + 4 * of_nat j))))
             [0..<num_entries (sdt_length s (rsdt s)) 4])"

lemma find_table_root:
  "find_table s sig index = nth_or_null (filter (matches s sig) (root_tables s)) (unat index)"
  by (simp add: find_table_def sdt_scan_filter root_tables_def sdt_entry_def field_def offsets)

section \<open>The entries of the MADT\<close>

text \<open>\<open>chain s p e as\<close>: following the length bytes from \<open>p\<close> visits \<open>as\<close> and then reaches \<open>e\<close>.\<close>

primrec chain :: "'z machine_scheme \<Rightarrow> ptr \<Rightarrow> ptr \<Rightarrow> ptr list \<Rightarrow> bool" where
  "chain s p e [] \<longleftrightarrow> e \<le> p"
| "chain s p e (a # as) \<longleftrightarrow> a = p \<and> p < e \<and> chain s (p + ucast (load8 s (p + 1))) e as"

lemma chain_upd: "chain (s\<lparr>entry_ptrs := x, num_madt_entries := n\<rparr>) p e as = chain s p e as"
  by (induction as arbitrary: p) (simp_all add: load8_def)

lemma recurse_table_chain:
  assumes "chain s p (end_addr s) as" "length (entry_ptrs s) = 64" "unat (num_madt_entries s) + length as \<le> 64"
  shows "recurse_table p s = Inr ((), s\<lparr>entry_ptrs := take (unat (num_madt_entries s)) (entry_ptrs s) @ as @
      drop (unat (num_madt_entries s) + length as) (entry_ptrs s),
    num_madt_entries := num_madt_entries s + of_nat (length as)\<rparr>)"
  using assms
proof (induction as arbitrary: p s)
  case Nil
  then show ?case by (simp add: recurse_table.simps [of p s])
next
  case (Cons a as)
  let ?k = "unat (num_madt_entries s)"
  let ?s = "s\<lparr>entry_ptrs := (entry_ptrs s)[?k := p], num_madt_entries := num_madt_entries s + 1\<rparr>"
  have k: "?k < 64" using Cons.prems(3) by simp
  then have k1: "unat (num_madt_entries s + 1) = Suc ?k" by (simp add: unat_word_ariths)
  have "\<not> (p \<ge> end_addr s \<or> num_madt_entries s > MAX_ENTRIES)"
    using Cons.prems(1) k by (auto simp: word_less_nat_alt word_le_nat_alt)
  then have "recurse_table p s = recurse_table (p + ucast (load8 s (p + 1))) ?s"
    using Cons.prems(2) k by (subst recurse_table.simps) simp
  also have "\<dots> = Inr ((), ?s\<lparr>entry_ptrs := take (Suc ?k) (entry_ptrs ?s) @ as @
      drop (Suc ?k + length as) (entry_ptrs ?s), num_madt_entries := num_madt_entries ?s + of_nat (length as)\<rparr>)"
    using Cons.IH [of ?s "p + ucast (load8 s (p + 1))"] Cons.prems k1 by (simp add: chain_upd)
  also have "take (Suc ?k) (entry_ptrs ?s) = take ?k (entry_ptrs s) @ [p]"
    using k Cons.prems(2) by (simp add: take_Suc_conv_app_nth)
  finally show ?case using Cons.prems(1) by (simp add: add.assoc)
qed

section \<open>Properties\<close>

text \<open>
  C35. Finding a table: \<open>find_nth_SDT\<close> returns the table with the given number among those of the
  signature, in the order of the root table, or \<open>NULL\<close>; for the root table of ACPI 1 the
  pointers are the 32-bit words from offset 36 on, where the specification puts them, but for
  that of ACPI 2 they are read from offset 40, because \<open>XSDT\<close> is not packed. A table passes
  \<open>do_checksum\<close> exactly if its bytes add up to 0 modulo 256.
\<close>

theorem find_nth_SDT_spec:
  assumes "\<not> strn_eq 4 (lit ''DSDT'') sig"
  shows "find_nth_SDT s sig index = nth_or_null (filter (matches s sig)
      (if use_xsdt s
       then map (\<lambda>j. PHYS_TO_VIRT s (load64 s (xsdt s + 40 + 8 * of_nat j))) [0..<num_entries (sdt_length s (xsdt s)) 8]
       else map (\<lambda>j. PHYS_TO_VIRT s (ucast (load32 s (rsdt s + 36 + 4 * of_nat j))))
              [0..<num_entries (sdt_length s (rsdt s)) 4])) (unat index) \<and>
    (do_checksum s h \<longleftrightarrow> sum_list (load_bytes s h (unat (sdt_length s h))) = 0)"
  using assms find_table_root [of s sig index]
  by (simp add: find_nth_SDT_def root_tables_def do_checksum_sum)

text \<open>A root table of ACPI 1 at 0x5000 with two entries, the second a MADT with an I/O APIC entry.\<close>

definition sample_tables :: "u64 \<Rightarrow> u8" where
  "sample_tables = bytes_at 0x5000 [82, 83, 68, 84, 44, 0, 0, 0]
     (bytes_at 0x5024 [0, 0x60, 0, 0, 0, 0x70, 0, 0]
     (bytes_at 0x6000 [70, 65, 67, 80]
     (bytes_at 0x7000 [65, 80, 73, 67, 56, 0, 0, 0]
     (bytes_at 0x7024 [0, 0, 0xE0, 0xFE]
     (bytes_at 0x702C [1, 12, 0, 0, 0, 0, 0xC0, 0xFE, 0, 0, 0, 0] (\<lambda>_. 0))))))"

definition sample_acpi :: "'z \<Rightarrow> 'z acpistate_scheme" where
  "sample_acpi x = (sample_int
     \<lparr>ACPI_ver = 0, rsdt = 0xFFFF800000005000, xsdt = NULL, use_xsdt = False, end_addr = NULL,
      num_madt_entries = 0, entry_ptrs = replicate 64 NULL, num_mcfg_entries = 0, mcfg_entries = NULL,
      hpet_regs = NULL, ioapicaddr = NULL, vector_count = 0, mmio_log = [], mmio_dev = (\<lambda>w l a. 0), \<dots> = x\<rparr>)
     \<lparr>pmem := sample_tables\<rparr>"

lemma sample_acpi_fields [simp]:
  "pmem (sample_acpi x) = sample_tables" "hhdm_off (sample_acpi x) = 0xFFFF800000000000"
  "use_xsdt (sample_acpi x) = False" "rsdt (sample_acpi x) = 0xFFFF800000005000"
  "num_madt_entries (sample_acpi x) = 0" "entry_ptrs (sample_acpi x) = replicate 64 NULL"
  by (simp_all add: sample_acpi_def sample_int_def sample_io_def)

lemmas sample_tables_simps = load8_def v2p_def sample_tables_def bytes_at_def

lemma load_bytes_4: "load_bytes s a 4 = [load8 s a, load8 s (a + 1), load8 s (a + 2), load8 s (a + 3)]"
proof -
  have "(4 :: nat) = Suc (Suc (Suc (Suc 0)))" by simp
  then show ?thesis by (simp only: load_bytes.simps) (simp add: add.assoc)
qed

lemma sample_root:
  "sdt_length (sample_acpi x) 0xFFFF800000005000 = 44"
  "load32 (sample_acpi x) 0xFFFF800000005024 = 0x6000" "load32 (sample_acpi x) 0xFFFF800000005028 = 0x7000"
  by (simp_all add: sdt_length_def field_def offsets load32_def load_bytes_4 sample_tables_simps)

lemma strn_eq_4:
  "strn_eq 4 [a, b, c, d] [x, y, z, w] \<longleftrightarrow> a = x \<and> (a = 0 \<or> b = y \<and> (b = 0 \<or> c = z \<and> (c = 0 \<or> d = w)))"
proof -
  have "(4 :: nat) = Suc (Suc (Suc (Suc 0)))" by simp
  then show ?thesis by (simp only: strn_eq.simps) auto
qed

lemma sample_lits: "lit ''DSDT'' = [68, 83, 68, 84]" "lit ''APIC'' = [65, 80, 73, 67]"
  by (simp_all add: lit_def)

lemma sample_search:
  "\<not> strn_eq 4 (lit ''DSDT'') (lit ''APIC'')"
  "\<not> matches (sample_acpi x) (lit ''APIC'') 0xFFFF800000006000"
  "matches (sample_acpi x) (lit ''APIC'') 0xFFFF800000007000"
  "num_entries 44 4 = 2" "[0..<2] = [0, 1 :: nat]"
  by (simp_all add: matches_def load_bytes_4 sample_lits strn_eq_4 sample_tables_simps num_entries_def upt_rec)

theorem find_nth_SDT_spec_witness:
  "find_nth_SDT (sample_acpi ()) (lit ''APIC'') 0 = 0xFFFF800000007000"
  using find_nth_SDT_spec [OF sample_search(1), of "sample_acpi ()" 0]
    sample_search(2,3) [of "()"] sample_search(4,5) sample_root [of "()"]
  by (simp add: PHYS_TO_VIRT_def nth_or_null_def)

text \<open>
  C36. \<open>madt_init\<close>, when the entries of the MADT, at most 64, end exactly where the table does:
  it succeeds, and the array then holds the addresses of the entries, in order, together with
  their number and the address of the local APIC.
\<close>

theorem madt_init_spec:
  assumes "find_SDT s (lit ''APIC'') = h" "chain s (h + 44) (h + ucast (sdt_length s h)) as"
    "length (entry_ptrs s) = 64" "num_madt_entries s = 0" "length as \<le> 64"
  shows "\<exists>t. madt_init s = Inr (True, t) \<and> lapic_base t = load32 s (h + 36) \<and>
    num_madt_entries t = of_nat (length as) \<and> take (length as) (entry_ptrs t) = as \<and> pmem t = pmem s"
proof -
  let ?s = "s\<lparr>lapic_base := load32 s (h + 36), end_addr := h + ucast (sdt_length s h)\<rparr>"
  have l: "sdt_length (s\<lparr>lapic_base := x\<rparr>) h = sdt_length s h" for x
  proof -
    have "load_bytes (s\<lparr>lapic_base := x\<rparr>) a n = load_bytes s a n" for a n
      by (induction n arbitrary: a) (simp_all add: load8_def)
    then show ?thesis by (simp add: sdt_length_def load32_def)
  qed
  have "chain ?s p e as = chain s p e as" for p e as
    by (induction as arbitrary: p) (simp_all add: load8_def)
  then have "recurse_table (h + 44) ?s = Inr ((), ?s\<lparr>entry_ptrs := as @ drop (length as) (entry_ptrs s),
      num_madt_entries := of_nat (length as)\<rparr>)"
    using recurse_table_chain [of ?s "h + 44" as] assms(2-5) by simp
  then show ?thesis
    using assms(1) by (simp add: madt_init_def Let_def field_def offsets l)
qed

theorem madt_init_spec_witness:
  "\<exists>t. madt_init (sample_acpi ()) = Inr (True, t) \<and> lapic_base t = 0xFEE00000 \<and>
    num_madt_entries t = 1 \<and> take 1 (entry_ptrs t) = [0xFFFF80000000702C]"
proof -
  let ?s = "sample_acpi ()"
  have f: "find_SDT ?s (lit ''APIC'') = 0xFFFF800000007000"
    using sample_search(2,3) [of "()"] sample_search(1,4,5) sample_root [of "()"]
    by (simp add: find_SDT_def find_nth_SDT_def find_table_root root_tables_def PHYS_TO_VIRT_def nth_or_null_def)
  have l: "sdt_length ?s 0xFFFF800000007000 = 56" "load32 ?s 0xFFFF800000007024 = 0xFEE00000"
    by (simp_all add: sdt_length_def field_def offsets load32_def load_bytes_4 sample_tables_simps)
  have "chain ?s (0xFFFF800000007000 + 44) (0xFFFF800000007000 + ucast (sdt_length ?s 0xFFFF800000007000)) [0xFFFF80000000702C]"
    unfolding l by (simp add: sample_tables_simps)
  from madt_init_spec [OF f this] show ?thesis using l by auto
qed

end
