(* ===== verification/Ioapic.thy ===== *)
theory Ioapic
  imports Acpi
begin

text \<open>
  The I/O APIC, \<open>arch/x86_64/IOAPIC.c\<close>. Its registers are reached through a select register and
  a window; the writes go to the log of device writes, \<open>mmio\<close>, and \<open>io_view\<close> reads the register
  file they leave off that log.
\<close>

section \<open>The code\<close>

definition mmio_write :: "u64 \<Rightarrow> u32 \<Rightarrow> 'z acpistate_scheme \<Rightarrow> 'z acpistate_scheme" where
  "mmio_write a v s = s\<lparr>mmio := mmio s @ [(a, v)]\<rparr>"

definition mmio_read :: "u64 \<Rightarrow> 'z acpistate_scheme \<Rightarrow> u32 \<times> 'z acpistate_scheme" where
  "mmio_read a s = (ucast (mmio_dev s (mmio s) (mmio_log s) a), s\<lparr>mmio_log := mmio_log s @ [R32 a]\<rparr>)"

abbreviation (input) IOLAPIC_VER :: u32 where "IOLAPIC_VER \<equiv> 0x01"
abbreviation (input) IOLAPIC_REDTBL :: u32 where "IOLAPIC_REDTBL \<equiv> 0x10"

definition ioapic_read :: "u32 \<Rightarrow> 'z acpistate_scheme \<Rightarrow> u32 \<times> 'z acpistate_scheme" where
  "ioapic_read reg s =
     (let s = mmio_write (ioapicaddr s) (reg AND 0xff) s
      in mmio_read (ioapicaddr s + 16) s)"

definition ioapic_write :: "u32 \<Rightarrow> u32 \<Rightarrow> 'z acpistate_scheme \<Rightarrow> 'z acpistate_scheme" where
  "ioapic_write reg v s =
     (let s = mmio_write (ioapicaddr s) (reg AND 0xff) s
      in mmio_write (ioapicaddr s + 16) v s)"

text \<open>The entries of the MADT the loops run over, and their fields.\<close>

definition madt_entries :: "'z acpistate_scheme \<Rightarrow> ptr list" where
  "madt_entries s = take (unat (num_madt_entries s)) (entry_ptrs s)"

definition ent_type :: "'z machine_scheme \<Rightarrow> ptr \<Rightarrow> u8" where
  "ent_type s e = load8 s e"

definition ent_address :: "'z machine_scheme \<Rightarrow> ptr \<Rightarrow> u32" where
  "ent_address s e = load32 s (field madt_ioapic ''adress'' e)"

definition ent_gsi_base :: "'z machine_scheme \<Rightarrow> ptr \<Rightarrow> u32" where
  "ent_gsi_base s e = load32 s (field madt_ioapic ''GS_interrupt_base'' e)"

definition ovr_source :: "'z machine_scheme \<Rightarrow> ptr \<Rightarrow> u8" where
  "ovr_source s e = load8 s (field madt_override ''IRQ_source'' e)"

definition ovr_gsi :: "'z machine_scheme \<Rightarrow> ptr \<Rightarrow> u8" where
  "ovr_gsi s e = load8 s (field madt_override ''GS_interupt'' e)"

definition ovr_flags :: "'z machine_scheme \<Rightarrow> ptr \<Rightarrow> u16" where
  "ovr_flags s e = load16 s (field madt_override ''flags'' e)"

primrec mask_loop :: "nat \<Rightarrow> u32 \<Rightarrow> 'z acpistate_scheme \<Rightarrow> 'z acpistate_scheme" where
  "mask_loop 0 i s = s"
| "mask_loop (Suc n) i s =
     (let s = ioapic_write (IOLAPIC_REDTBL + 2 * i) (push_bit 16 1 OR (32 + i)) s;
          s = ioapic_write (IOLAPIC_REDTBL + 2 * i + 1) 0 s
      in mask_loop n (i + 1) s)"

definition ioapic_init :: "'z acpistate_scheme \<Rightarrow> bool \<times> 'z acpistate_scheme" where
  "ioapic_init s =
     (let s = (case find (\<lambda>e. ent_type s e = MADT_ENTRY_TYPE_IOAPIC) (madt_entries s) of
                 None \<Rightarrow> s
               | Some e \<Rightarrow> s\<lparr>ioapicaddr := PHYS_TO_VIRT s (ucast (ent_address s e))\<rparr>) in
      if ioapicaddr s = NULL then (False, s)
      else
        let (v, s) = ioapic_read IOLAPIC_VER s;
            s = s\<lparr>vector_count := ucast (drop_bit 16 v AND 0xFF)\<rparr>;
            s = mask_loop (Suc (unat (vector_count s))) 0 s
        in (False, s))"

definition get_gsi :: "'z acpistate_scheme \<Rightarrow> u32 \<Rightarrow> ptr" where
  "get_gsi s gsi =
     (case find (\<lambda>e. ent_type s e = MADT_ENTRY_TYPE_IOAPIC \<and> ent_gsi_base s e \<le> gsi \<and>
                  ent_gsi_base s e + ucast (vector_count s) > gsi) (madt_entries s) of
        None \<Rightarrow> NULL | Some e \<Rightarrow> e)"

definition find_override :: "'z acpistate_scheme \<Rightarrow> u8 \<Rightarrow> ptr option" where
  "find_override s vec =
     find (\<lambda>e. ent_type s e = MADT_ENTRY_TYPE_IOLAPIC_OVERRIDE \<and> ovr_source s e = vec) (madt_entries s)"

text \<open>The redirection entry for an overridden interrupt: polarity and trigger mode from the flags.\<close>

definition override_redir :: "'z machine_scheme \<Rightarrow> ptr \<Rightarrow> u8 \<Rightarrow> u64" where
  "override_redir s e irq =
     (let r = ucast irq :: u64;
          r = (if ovr_flags s e AND push_bit 1 1 \<noteq> 0 then r OR push_bit 13 1 else r)
      in if ovr_flags s e AND push_bit 3 1 \<noteq> 0 then r OR push_bit 15 1 else r)"

definition ioapic_mask :: "u8 \<Rightarrow> 'z acpistate_scheme \<Rightarrow> 'z acpistate_scheme" where
  "ioapic_mask irq s =
     (let vec = 32 + irq in
      case find_override s vec of
        Some e \<Rightarrow>
          let gsi = get_gsi s (ucast (ovr_gsi s e));
              tmp = ioapicaddr s;
              s = s\<lparr>ioapicaddr := ucast (ent_address s gsi)\<rparr>;
              redir = override_redir s e irq;
              s = ioapic_write ((ucast (ovr_gsi s e) - ent_gsi_base s gsi) * 2 + 16) (push_bit 16 1 OR ucast redir) s;
              s = ioapic_write ((ucast (ovr_gsi s e) - ent_gsi_base s gsi) * 2 + 17) (ucast (drop_bit 32 redir)) s
          in s\<lparr>ioapicaddr := tmp\<rparr>
      | None \<Rightarrow>
          let gsi = get_gsi s (ucast irq);
              s = ioapic_write ((ucast irq - ent_gsi_base s gsi) * 2 + 16) (push_bit 16 1 OR ucast vec) s
          in ioapic_write ((ucast irq - ent_gsi_base s gsi) * 2 + 17) 0 s)"

definition ioapic_unmask :: "u8 \<Rightarrow> 'z acpistate_scheme \<Rightarrow> 'z acpistate_scheme" where
  "ioapic_unmask irq s =
     (let vec = 32 + irq in
      case find_override s vec of
        Some e \<Rightarrow>
          let gsi = get_gsi s (ucast (ovr_gsi s e));
              tmp = ioapicaddr s;
              s = s\<lparr>ioapicaddr := ucast (ent_address s gsi)\<rparr>;
              redir = override_redir s e irq;
              s = ioapic_write ((ucast (ovr_gsi s e) - ent_gsi_base s gsi) * 2 + 16) (ucast redir) s;
              s = ioapic_write ((ucast (ovr_gsi s e) - ent_gsi_base s gsi) * 2 + 17) (ucast (drop_bit 32 redir)) s
          in s\<lparr>ioapicaddr := tmp\<rparr>
      | None \<Rightarrow>
          let gsi = get_gsi s (ucast irq);
              tmp = ioapicaddr s;
              s = s\<lparr>ioapicaddr := ucast (ent_address s gsi)\<rparr>;
              s = ioapic_write ((ucast irq - ent_gsi_base s gsi) * 2 + 16) (ucast vec) s;
              s = ioapic_write ((ucast irq - ent_gsi_base s gsi) * 2 + 17) 0 s
          in s\<lparr>ioapicaddr := tmp\<rparr>)"

section \<open>The register file\<close>

text \<open>
  The device at physical address \<open>b\<close>: what the select register holds and the registers, after a
  list of writes to virtual addresses.
\<close>

definition io_step :: "u64 \<Rightarrow> u64 \<Rightarrow> u32 \<times> (u32 \<Rightarrow> u32) \<Rightarrow> u64 \<times> u32 \<Rightarrow> u32 \<times> (u32 \<Rightarrow> u32)" where
  "io_step off b = (\<lambda>(sel, r) (a, v).
     if v2p off a = b then (v, r) else if v2p off a = b + 16 then (sel, r(sel := v)) else (sel, r))"

definition io_view :: "'z acpistate_scheme \<Rightarrow> u64 \<Rightarrow> u32 \<Rightarrow> u32" where
  "io_view s b = snd (foldl (io_step (hhdm_off s) b) (0, \<lambda>_. 0) (mmio s))"

text \<open>The device is where the driver believes it to be.\<close>

definition at_device :: "'z acpistate_scheme \<Rightarrow> u64 \<Rightarrow> bool" where
  "at_device s b \<longleftrightarrow> v2p (hhdm_off s) (ioapicaddr s) = b \<and> v2p (hhdm_off s) (ioapicaddr s + 16) = b + 16"

lemma ioapic_write_fields [simp]:
  "hhdm_off (ioapic_write r v s) = hhdm_off s" "ioapicaddr (ioapic_write r v s) = ioapicaddr s"
  "pmem (ioapic_write r v s) = pmem s" "num_madt_entries (ioapic_write r v s) = num_madt_entries s"
  "entry_ptrs (ioapic_write r v s) = entry_ptrs s" "vector_count (ioapic_write r v s) = vector_count s"
  by (simp_all add: ioapic_write_def mmio_write_def Let_def)

lemma io_view_write:
  assumes "at_device s b"
  shows "io_view (ioapic_write r v s) b = (io_view s b)(r AND 0xff := v)"
proof -
  have "b + 16 \<noteq> b" by simp
  moreover obtain sel rs where "foldl (io_step (hhdm_off s) b) (0, \<lambda>_. 0) (mmio s) = (sel, rs)" by fastforce
  ultimately show ?thesis using assms
    by (simp add: io_view_def ioapic_write_def mmio_write_def Let_def io_step_def [of _ b] at_device_def)
qed


lemma at_device_write [simp]: "at_device (ioapic_write r v s) b = at_device s b"
  by (simp add: at_device_def)

text \<open>What \<open>mask_loop\<close> leaves: the entries \<open>i\<close> to \<open>i + n - 1\<close> masked, the rest as they were.\<close>

definition masked_entry :: "u32 \<Rightarrow> u32" where
  "masked_entry i = push_bit 16 1 OR (32 + i)"

lemma reg_index:
  assumes "unat i < 120"
  shows "(IOLAPIC_REDTBL + 2 * i) AND 0xff = IOLAPIC_REDTBL + 2 * i"
    "(IOLAPIC_REDTBL + 2 * i + 1) AND 0xff = IOLAPIC_REDTBL + 2 * i + 1"
    "unat (IOLAPIC_REDTBL + 2 * i) = 16 + 2 * unat i" "unat (IOLAPIC_REDTBL + 2 * i + 1) = 17 + 2 * unat i"
proof -
  show u: "unat (IOLAPIC_REDTBL + 2 * i) = 16 + 2 * unat i" "unat (IOLAPIC_REDTBL + 2 * i + 1) = 17 + 2 * unat i"
    using assms by (simp_all add: unat_word_ariths)
  have m: "x AND 0xff = x" if "unat x < 256" for x :: u32
  proof -
    have "x AND 0xff = take_bit 8 x" by (simp add: take_bit_eq_mask mask_eq_exp_minus_1)
    moreover have "take_bit 8 x = x" using that by (simp add: word_unat_eq_iff unsigned_take_bit_eq take_bit_nat_eq_self)
    ultimately show ?thesis by simp
  qed
  show "(IOLAPIC_REDTBL + 2 * i) AND 0xff = IOLAPIC_REDTBL + 2 * i"
    "(IOLAPIC_REDTBL + 2 * i + 1) AND 0xff = IOLAPIC_REDTBL + 2 * i + 1"
    using u assms by (simp_all add: m)
qed

lemma mask_loop_view:
  assumes "at_device s b" "unat i + n \<le> 120"
  shows "io_view (mask_loop n i s) b (IOLAPIC_REDTBL + 2 * j) =
      (if unat i \<le> unat j \<and> unat j < unat i + n then masked_entry j else io_view s b (IOLAPIC_REDTBL + 2 * j)) \<or> 120 \<le> unat j"
  using assms
proof (induction n arbitrary: i s)
  case (Suc n)
  have i: "unat i < 120" using Suc.prems(2) by simp
  then have i1: "unat (i + 1) = unat i + 1" by (simp add: unat_word_ariths)
  let ?s = "ioapic_write (IOLAPIC_REDTBL + 2 * i + 1) 0 (ioapic_write (IOLAPIC_REDTBL + 2 * i) (masked_entry i) s)"
  have v: "io_view ?s b = (io_view s b)(IOLAPIC_REDTBL + 2 * i := masked_entry i, IOLAPIC_REDTBL + 2 * i + 1 := 0)"
    using Suc.prems(1) by (simp only: io_view_write at_device_write reg_index [OF i])
  have run: "mask_loop (Suc n) i s = mask_loop n (i + 1) ?s" by (simp add: masked_entry_def Let_def)
  have ih: "io_view (mask_loop n (i + 1) ?s) b (IOLAPIC_REDTBL + 2 * j) =
      (if unat (i + 1) \<le> unat j \<and> unat j < unat (i + 1) + n then masked_entry j
       else io_view ?s b (IOLAPIC_REDTBL + 2 * j)) \<or> 120 \<le> unat j"
    using Suc.prems i1 by (intro Suc.IH) simp_all
  have upd: "io_view ?s b (IOLAPIC_REDTBL + 2 * j) = (if j = i then masked_entry i else io_view s b (IOLAPIC_REDTBL + 2 * j))"
    if "unat j < 120"
  proof -
    have "IOLAPIC_REDTBL + 2 * j \<noteq> IOLAPIC_REDTBL + 2 * i + 1"
    proof
      assume "IOLAPIC_REDTBL + 2 * j = IOLAPIC_REDTBL + 2 * i + 1"
      then have "16 + 2 * unat j = 17 + 2 * unat i" using reg_index [OF i] reg_index [OF that] by metis
      then show False by presburger
    qed
    moreover have "IOLAPIC_REDTBL + 2 * j = IOLAPIC_REDTBL + 2 * i \<longleftrightarrow> j = i"
      using reg_index(3) [OF i] reg_index(3) [OF that]
      by (metis add_left_cancel mult_left_cancel word_unat_eq_iff zero_neq_numeral)
    ultimately show ?thesis by (simp only: v fun_upd_apply) auto
  qed
  show ?case
  proof (cases "j = i")
    case True
    then show ?thesis using run ih upd i1 by auto
  next
    case False
    then have "unat j \<noteq> unat i" by (simp add: word_unat_eq_iff)
    then show ?thesis using run ih upd i1 False by auto
  qed
qed simp

lemma at_device_high:
  assumes "unat b + unat (hhdm_off s) + 16 < 2 ^ 64" "ioapicaddr s = PHYS_TO_VIRT s b"
  shows "at_device s b"
proof -
  have "span (hhdm_off s) (PHYS_TO_VIRT s b) (Suc 16) b" using assms(1) by (intro span_PHYS_TO_VIRT) simp
  then have "v2p (hhdm_off s) (PHYS_TO_VIRT s b + of_nat i) = b + of_nat i" if "i < Suc 16" for i
    using that by (simp add: span_def)
  from this [of 0] this [of 16] show ?thesis using assms(2) by (simp add: at_device_def)
qed

lemma at_device_low:
  assumes "unat b + 16 < unat (hhdm_off s)" "ioapicaddr s = b"
  shows "at_device s b"
proof -
  have "unat (b + 16) = unat b + 16"
    using assms(1) unat_add_no_wrap [of b 16] unat_u64_less [of "hhdm_off s"] by simp
  then show ?thesis using assms by (simp add: at_device_def v2p_def word_less_nat_alt)
qed

lemma ioapic_read_fields [simp]:
  "hhdm_off (snd (ioapic_read r s)) = hhdm_off s" "ioapicaddr (snd (ioapic_read r s)) = ioapicaddr s"
  by (simp_all add: ioapic_read_def mmio_write_def mmio_read_def Let_def)

lemma mask_loop_count [simp]: "vector_count (mask_loop n i s) = vector_count s"
  by (induction n arbitrary: i s) (simp_all add: Let_def)

section \<open>Properties\<close>


text \<open>The MADT of the sample tables, with a device of 24 entries.\<close>

definition sample_ioapic :: acpistate where
  "sample_ioapic = (sample_acpi ())\<lparr>num_madt_entries := 1, entry_ptrs := [0xFFFF80000000702C],
     vector_count := 23, mmio_dev := (\<lambda>w l a. 0x170011)\<rparr>"

lemma sample_ioapic_fields [simp]:
  "madt_entries sample_ioapic = [0xFFFF80000000702C]" "hhdm_off sample_ioapic = 0xFFFF800000000000"
  "vector_count sample_ioapic = 23" "pmem sample_ioapic = sample_tables"
  by (simp_all add: sample_ioapic_def madt_entries_def)

lemma ioapic_offsets:
  "offset_of madt_ioapic ''adress'' = 4" "offset_of madt_ioapic ''GS_interrupt_base'' = 8"
  "offset_of madt_override ''IRQ_source'' = 3" "offset_of madt_override ''GS_interupt'' = 4"
  "offset_of madt_override ''flags'' = 5"
  by (simp_all add: acpi_layouts layout_simps)

lemma sample_ioapic_entry:
  "ent_type sample_ioapic 0xFFFF80000000702C = 1" "ent_address sample_ioapic 0xFFFF80000000702C = 0xFEC00000"
  "ent_gsi_base sample_ioapic 0xFFFF80000000702C = 0"
  by (simp_all add: ent_type_def ent_address_def ent_gsi_base_def field_def ioapic_offsets load32_def
    load_bytes_4 sample_tables_simps)


end
