(* ===== verification/Lapic.thy ===== *)
theory Lapic
  imports Ioapic
begin

text \<open>
  The high-precision timer (\<open>drivers/ACPI/HPET.c\<close>) and the start-up of the local APIC, which
  uses it to measure its own timer (\<open>lapic_init\<close> in \<open>arch/x86_64/LAPIC.c\<close>; the other functions of
  that file are in theory Sched). Waiting for the counter is a partial function.
\<close>

section \<open>HPET.c\<close>

definition hpet_header :: layout where
  "hpet_header = packed [(''header'', size_of sdt_header), (''hardware_rev_id'', 1), (''info'', 1), (''pci_id'', 2),
     (''address_space_id'', 1), (''register_width'', 1), (''register_offset'', 1), (''reserved'', 1),
     (''addr'', 8), (''hpet_num'', 1), (''minimum_ticks'', 2), (''page_protection'', 1)]"

definition hpet_regs_layout :: layout where
  "hpet_regs_layout = packed [(''capabilities'', 8), (''reserved0'', 8), (''general_config'', 8), (''reserved1'', 8),
     (''int_status'', 8), (''reserved2'', 8), (''reserved3'', 8 * 24), (''counter_val'', 8), (''unused4'', 8)]"

lemma hpet_offsets:
  "offset_of hpet_header ''addr'' = 44" "offset_of hpet_regs_layout ''capabilities'' = 0"
  "offset_of hpet_regs_layout ''general_config'' = 16" "offset_of hpet_regs_layout ''counter_val'' = 240"
  unfolding hpet_header_def hpet_regs_layout_def offsets by (simp_all add: layout_simps)

definition mmio_write64 :: "u64 \<Rightarrow> u64 \<Rightarrow> 'z acpistate_scheme \<Rightarrow> 'z acpistate_scheme" where
  "mmio_write64 a v s = s\<lparr>mmio_log := mmio_log s @ [W64 a v]\<rparr>"

definition mmio_read64 :: "u64 \<Rightarrow> 'z acpistate_scheme \<Rightarrow> u64 \<times> 'z acpistate_scheme" where
  "mmio_read64 a s = (mmio_dev s (mmio s) (mmio_log s) a, s\<lparr>mmio_log := mmio_log s @ [R64 a]\<rparr>)"

definition hpet_init :: "'z acpistate_scheme \<Rightarrow> bool \<times> 'z acpistate_scheme" where
  "hpet_init s =
     (let hpet = find_SDT s (lit ''HPET'') in
      if hpet = NULL then (False, s)
      else
        let s = s\<lparr>hpet_regs := PHYS_TO_VIRT s (load64 s (field hpet_header ''addr'' hpet))\<rparr>;
            s = mmio_write64 (field hpet_regs_layout ''counter_val'' (hpet_regs s)) 0 s;
            s = mmio_write64 (field hpet_regs_layout ''general_config'' (hpet_regs s)) 1 s
        in (True, s))"

definition hpet_counter :: "'z acpistate_scheme \<Rightarrow> u64 \<times> 'z acpistate_scheme" where
  "hpet_counter s = mmio_read64 (field hpet_regs_layout ''counter_val'' (hpet_regs s)) s"

partial_function (option) hpet_wait :: "u64 \<Rightarrow> 'z acpistate_scheme \<Rightarrow> 'z acpistate_scheme option" where
  "hpet_wait target_val s =
     (let (v, s) = hpet_counter s in if v < target_val then hpet_wait target_val s else Some s)"

text \<open>A device that reports a period of 0 causes a divide error, interrupt 0.\<close>

definition hpet_usleep :: "u64 \<Rightarrow> 'z acpistate_scheme \<Rightarrow> (unit, 'z acpistate_scheme) result option" where
  "hpet_usleep us s =
     (let (caps, s) = mmio_read64 (field hpet_regs_layout ''capabilities'' (hpet_regs s)) s;
          clock_period = ucast (drop_bit 32 caps) :: u32;
          (v, s) = hpet_counter s
      in if clock_period = 0 then Some (Inl (Psod 0))
         else
           let target_val = v + us * ucast (1000000000 div clock_period)
           in map_option (\<lambda>s. Inr ((), s)) (hpet_wait target_val s))"

section \<open>lapic_init\<close>

abbreviation (input) LAPIC_TASKPRIOR :: u16 where "LAPIC_TASKPRIOR \<equiv> 0x80"
abbreviation (input) LAPIC_SPURIOUS :: u16 where "LAPIC_SPURIOUS \<equiv> 0x0F0"
abbreviation (input) LAPIC_TMRCURRCNT :: u16 where "LAPIC_TMRCURRCNT \<equiv> 0x390"
abbreviation (input) HN_ERR_NO_ACPI :: nat where "HN_ERR_NO_ACPI \<equiv> 33"

definition rreg :: "u16 \<Rightarrow> 'z acpistate_scheme \<Rightarrow> u32 \<times> 'z acpistate_scheme" where
  "rreg offset s = mmio_read (ucast (lapic_base s) + ucast offset) s"

text \<open>The part after the check for the timer: count down from the top for 100 microseconds.\<close>

definition lapic_calibrate :: "'z acpistate_scheme \<Rightarrow> (unit, 'z acpistate_scheme) result option" where
  "lapic_calibrate s =
     (let s = lapic_timer_stop s;
          s = wreg LAPIC_TMRDIV 0 s;
          s = wreg LAPIC_LVT_TMR 0 s;
          s = wreg LAPIC_TMRINITCNT 0xFFFFFFFF s
      in case hpet_usleep 100 s of
           None \<Rightarrow> None
         | Some r \<Rightarrow> Some (then_do r (\<lambda>_ s.
             let (c, s) = rreg LAPIC_TMRCURRCNT s;
                 s = s\<lparr>ticks := 0xFFFFFFFF - c\<rparr>
             in Inr ((), lapic_timer_stop s))))"

definition lapic_init :: "'z acpistate_scheme \<Rightarrow> (unit, 'z acpistate_scheme) result option" where
  "lapic_init s =
     (case madt_init s of
        Inl e \<Rightarrow> Some (Inl e)
      | Inr (_, s) \<Rightarrow>
          let s = outb8 0x21 0xFF s;
              s = iowait s;
              s = outb8 0xA1 0xFF s;
              s = iowait s;
              s = wreg LAPIC_SPURIOUS 0x1FF s;
              s = wreg LAPIC_TASKPRIOR 0 s;
              (ok, s) = hpet_init s
          in if \<not> ok then Some (Inl (Psod HN_ERR_NO_ACPI)) else lapic_calibrate s)"

section \<open>Waiting\<close>

text \<open>
  \<open>reaches s t k\<close>: the counter stays below \<open>t\<close> for \<open>k\<close> reads and is then at or past it.
\<close>

primrec reaches :: "'z acpistate_scheme \<Rightarrow> u64 \<Rightarrow> nat \<Rightarrow> bool" where
  "reaches s t 0 \<longleftrightarrow> t \<le> fst (hpet_counter s)"
| "reaches s t (Suc k) \<longleftrightarrow> fst (hpet_counter s) < t \<and> reaches (snd (hpet_counter s)) t k"

lemma hpet_wait_reaches:
  assumes "reaches s t k"
  shows "\<exists>l. hpet_wait t s = Some (s\<lparr>mmio_log := l\<rparr>)"
  using assms
proof (induction k arbitrary: s)
  case 0
  then show ?case by (auto simp: hpet_wait.simps [of t s] hpet_counter_def mmio_read64_def)
next
  case (Suc k)
  let ?s = "snd (hpet_counter s)"
  have "hpet_wait t s = hpet_wait t ?s" using Suc.prems
    by (subst hpet_wait.simps) (simp add: hpet_counter_def mmio_read64_def)
  moreover have "\<exists>l. ?s = s\<lparr>mmio_log := l\<rparr>" by (auto simp: hpet_counter_def mmio_read64_def)
  moreover have "\<exists>l. hpet_wait t ?s = Some (?s\<lparr>mmio_log := l\<rparr>)"
    using Suc.IH [of ?s] Suc.prems by (auto simp: hpet_counter_def mmio_read64_def)
  ultimately show ?case by auto
qed

section \<open>Properties\<close>

text \<open>The writes the calibration makes: stop, divider, unmasked entry 0, count from the top.\<close>

definition calibration_writes :: "u32 \<Rightarrow> (u64 \<times> u32) list" where
  "calibration_writes b = map (\<lambda>(r, v). (ucast b + ucast (r :: u16), v))
     [(LAPIC_TMRINITCNT, 0), (LAPIC_LVT_TMR, LVT_MASKED), (LAPIC_TMRDIV, 0), (LAPIC_LVT_TMR, 0),
      (LAPIC_TMRINITCNT, 0xFFFFFFFF)]"


text \<open>A counter that advances by one million per read, with a period of 10 nanoseconds.\<close>

definition sample_timer :: acpistate where
  "sample_timer = (sample_acpi ())\<lparr>hpet_regs := 0xFED00000,
     mmio_dev := (\<lambda>w l a. if a = 0xFED00000 then 0x989680 * 2 ^ 32
       else if a = 0xFED000F0 then 1000000 * of_nat (length l) else 0xFFFF0000)\<rparr>"


end
