(* ===== verification/Keyboard.thy ===== *)
theory Keyboard
  imports Lapic
begin

text \<open>
  The PS/2 keyboard: the interrupt handler (\<open>arch/x86_64/io/PS2.c\<close>) turns a scan code into a key
  name in \<open>KB_STATE\<close>, and \<open>input_init\<close> (\<open>io/input.c\<close>) prints the character for it. The calls
  \<open>printf("%s", x)\<close> are kept in \<open>printed\<close>. \<open>KB_STATE\<close> is an array of two bytes: \<open>strcat\<close> onto
  the empty string fits a key name of one character, a longer one is written past its end
  (\<open>Oob\<close>).
\<close>

section \<open>Tables\<close>

text \<open>Strings of one character each.\<close>

definition singles :: "string \<Rightarrow> string list" where
  "singles = map (\<lambda>c. [c])"

definition KB_KEY :: "string list" where
  "KB_KEY = singles ''ABCDEFGHIJKLMNOPQRSTUVWXYZ`1234567890-=''"

text \<open>There is no comma between the literals for the percent sign and the caret: they are one.\<close>

definition KB_KEY_SHIFT :: "string list" where
  "KB_KEY_SHIFT = singles ''~!@#$'' @ [''%^''] @ singles ''&*()_+{}:\"<>?|''"

definition KB_SCANCODE :: "u8 list" where
  "KB_SCANCODE = [0x1e, 0x30, 0x2e, 0x20, 0x12, 0x21, 0x22,
    0x23, 0x17, 0x24, 0x25, 0x26, 0x32, 0x32,
    0x18, 0x19, 0x10, 0x13, 0x1f, 0x14, 0x16,
    0x2f, 0x11, 0x2d, 0x15, 0x2c, 0x29, 0x2,
    0x3, 0x4, 0x5, 0x6, 0x7, 0x8, 0x9,
    0xa, 0xb, 0xc, 0xd, 0x2a, 0x36, 0xaa,
    0x3a]"

definition CAPS_LETTERS :: "string list" where
  "CAPS_LETTERS = singles ''ABCDEFGHIJKLMNOPQRSTUVWXYZ''"

definition CHARS :: "string list" where
  "CHARS = singles ''abcdefghijklmnopqrstuvwxyz`1234567890-=-=''"

definition SHIFT_CHARS :: "string list" where
  "SHIFT_CHARS = singles ''~!@#$%^&*()_+{}:\"<>?|''"

definition IDS :: "string list" where
  "IDS = singles ''ABCDEFGHIJKLMNOPQRSTUVWXYZ`1234567890-=~!@#$%^&*()_+{}:\"<>?|''"

section \<open>State\<close>

record kb =
  shiftpoint :: int
  capspoint :: int
  KB_STATE :: string
  KB_CAPS_STATE :: int
  KB_SHIFT_STATE :: int
  printed :: "string list"

record kbstate = acpistate +
  keyboard :: kb

section \<open>The handler\<close>

text \<open>\<open>KB_STATE[0] = 0; strcat(KB_STATE, table[i])\<close>\<close>

definition set_key :: "string list \<Rightarrow> nat \<Rightarrow> int \<Rightarrow> int \<Rightarrow> kb \<Rightarrow> fault + kb" where
  "set_key table i caps shift k =
     (if i < length table \<and> length (table ! i) < 2
      then Inr (k\<lparr>KB_CAPS_STATE := caps, KB_SHIFT_STATE := shift, KB_STATE := table ! i\<rparr>)
      else Inl Oob)"

text \<open>The tests with \<open>||\<close> are written as in the source; they always hold.\<close>

definition not_modifier :: "u8 \<Rightarrow> bool" where
  "not_modifier sc \<longleftrightarrow> sc \<noteq> KB_SCANCODE ! 41 \<or> sc \<noteq> KB_SCANCODE ! 39 \<or> sc \<noteq> KB_SCANCODE ! 40"

definition key_step :: "u8 \<Rightarrow> nat \<Rightarrow> kb \<Rightarrow> fault + kb" where
  "key_step sc i k =
     (if sc = KB_SCANCODE ! i then
        if shiftpoint k = 1 then
          if i > 26 then
            if not_modifier sc then set_key KB_KEY_SHIFT (i - 26) 0 1 k else Inr k
          else if i < 26 then set_key KB_KEY i 1 0 k
          else Inr k
        else if not_modifier sc then
          if i > 38 then Inr (k\<lparr>KB_STATE := []\<rparr>)
          else if capspoint k = 1 then
            if i < 26 then set_key KB_KEY i 1 0 k else set_key KB_KEY i 0 0 k
          else set_key KB_KEY i 0 0 k
        else Inr k
      else if sc = KB_SCANCODE ! 39 \<or> sc = KB_SCANCODE ! 40 then Inr (k\<lparr>shiftpoint := 1\<rparr>)
      else if sc = KB_SCANCODE ! 41 then Inr (k\<lparr>shiftpoint := 0\<rparr>)
      else if sc = KB_SCANCODE ! 42 then
        Inr (k\<lparr>capspoint := (if capspoint k = 0 then 1 else 0)\<rparr>)
      else Inr k)"

primrec key_loop :: "u8 \<Rightarrow> nat list \<Rightarrow> kb \<Rightarrow> fault + kb" where
  "key_loop sc [] k = Inr k"
| "key_loop sc (i # is) k = (case key_step sc i k of Inl e \<Rightarrow> Inl e | Inr k \<Rightarrow> key_loop sc is k)"

text \<open>\<open>input_init\<close>: print the character of every id that equals \<open>KB_STATE\<close>.\<close>

definition print_from :: "string list \<Rightarrow> nat \<Rightarrow> kb \<Rightarrow> fault + kb" where
  "print_from table i k = (if i < length table then Inr (k\<lparr>printed := printed k @ [table ! i]\<rparr>) else Inl Oob)"

definition input_step :: "nat \<Rightarrow> kb \<Rightarrow> fault + kb" where
  "input_step i k =
     (if KB_STATE k = IDS ! i then
        if KB_CAPS_STATE k = 1 then print_from CAPS_LETTERS i k
        else if KB_SHIFT_STATE k = 1 then if i < 39 then Inl Oob else print_from SHIFT_CHARS (i - 39) k
        else print_from CHARS i k
      else Inr k)"

primrec input_loop :: "nat list \<Rightarrow> kb \<Rightarrow> fault + kb" where
  "input_loop [] k = Inr k"
| "input_loop (i # is) k = (case input_step i k of Inl e \<Rightarrow> Inl e | Inr k \<Rightarrow> input_loop is k)"

definition input_init :: "kb \<Rightarrow> fault + kb" where
  "input_init = input_loop [0..<59]"

definition key_event :: "u8 \<Rightarrow> kb \<Rightarrow> fault + kb" where
  "key_event sc k =
     (case key_loop sc [0..<42] k of
        Inl e \<Rightarrow> Inl e
      | Inr k \<Rightarrow> (case input_init k of Inl e \<Rightarrow> Inl e | Inr k \<Rightarrow> Inr (k\<lparr>KB_STATE := []\<rparr>)))"

abbreviation (input) PS2_COMMAND :: u16 where "PS2_COMMAND \<equiv> 0x64"
abbreviation (input) PS2_DATA :: u16 where "PS2_DATA \<equiv> 0x60"

definition handler :: "'z kbstate_scheme \<Rightarrow> (unit, 'z kbstate_scheme) result" where
  "handler s =
     (let (scancode, s) = inb8 PS2_DATA s in
      case key_event scancode (keyboard s) of
        Inl e \<Rightarrow> Inl e
      | Inr k \<Rightarrow> Inr ((), lapic_eoi (s\<lparr>keyboard := k\<rparr>)))"

definition ps2_init :: "'z kbstate_scheme \<Rightarrow> (unit, 'z kbstate_scheme) result" where
  "ps2_init s =
     then_do (register_ISR 33 keyboard_isr s) (\<lambda>_ s.
       let s = ioapic_unmask 1 s;
           (status, s) = inb8 PS2_COMMAND s;
           s = (if status AND 1 \<noteq> 0 then snd (inb8 PS2_DATA s) else s);
           s = outb8 PS2_COMMAND 0x60 s;
           s = outb8 PS2_DATA 0b01100101 s;
           s = outb8 PS2_COMMAND 0xAE s
       in Inr ((), outb8 PS2_DATA 0xf4 s))"

section \<open>Facts on the tables\<close>

lemma lengths [simp]:
  "length KB_KEY = 39" "length KB_KEY_SHIFT = 20" "length KB_SCANCODE = 43" "length CAPS_LETTERS = 26"
  "length CHARS = 41" "length SHIFT_CHARS = 21" "length IDS = 60"
  by (simp_all add: KB_KEY_def KB_KEY_SHIFT_def singles_def KB_SCANCODE_def CAPS_LETTERS_def CHARS_def SHIFT_CHARS_def IDS_def)

lemma modifiers [simp]:
  "KB_SCANCODE ! 39 = 0x2a" "KB_SCANCODE ! 40 = 0x36" "KB_SCANCODE ! 41 = 0xaa" "KB_SCANCODE ! 42 = 0x3a"
  by (simp_all add: KB_SCANCODE_def)

lemma not_modifier_True [simp]: "not_modifier sc"
  by (auto simp: not_modifier_def)

lemma KB_KEY_length: "i < 39 \<Longrightarrow> length (KB_KEY ! i) < 2"
proof -
  have "\<forall>x \<in> set KB_KEY. length x < 2" by (simp add: KB_KEY_def singles_def)
  then show "i < 39 \<Longrightarrow> length (KB_KEY ! i) < 2" by (metis lengths(1) nth_mem)
qed

lemma KB_KEY_IDS: "i < 39 \<Longrightarrow> KB_KEY ! i = IDS ! i"
proof -
  have "KB_KEY = take 39 IDS" by (simp add: KB_KEY_def IDS_def singles_def)
  then show "i < 39 \<Longrightarrow> KB_KEY ! i = IDS ! i" by (metis nth_take)
qed

lemma distinct_IDS: "distinct IDS"
  by (simp add: IDS_def singles_def)

lemma IDS_nonempty: "i < 60 \<Longrightarrow> IDS ! i \<noteq> []"
proof -
  have "[] \<notin> set IDS" by (simp add: IDS_def singles_def)
  then show "i < 60 \<Longrightarrow> IDS ! i \<noteq> []" by (metis lengths(7) nth_mem)
qed

lemma nth_take_neq: "x \<notin> set (take n xs) \<Longrightarrow> i < n \<Longrightarrow> i < length xs \<Longrightarrow> xs ! i \<noteq> x"
  by (auto simp: in_set_conv_nth)

lemma capslock_not_before: "i < 42 \<Longrightarrow> KB_SCANCODE ! i \<noteq> 0x3a"
  by (rule nth_take_neq [where n = 42]) (simp_all add: KB_SCANCODE_def)

lemma release_not_before: "i < 39 \<Longrightarrow> KB_SCANCODE ! i \<noteq> 0xaa"
  by (rule nth_take_neq [where n = 39]) (simp_all add: KB_SCANCODE_def)

lemma upt_split: "j < n \<Longrightarrow> [0..<n] = [0..<j] @ j # [Suc j..<n]"
  by (metis le_add_same_cancel1 less_imp_add_positive upt_add_eq_append upt_conv_Cons zero_le less_imp_le_nat)

lemma key_loop_append:
  "key_loop sc (xs @ ys) k = (case key_loop sc xs k of Inl e \<Rightarrow> Inl e | Inr k \<Rightarrow> key_loop sc ys k)"
  by (induction xs arbitrary: k) (auto split: sum.splits)

lemma key_loop_at:
  assumes "key_loop sc [0..<j] k = Inr k1" "j < n"
  shows "key_loop sc [0..<n] k = (case key_step sc j k1 of Inl e \<Rightarrow> Inl e | Inr k \<Rightarrow> key_loop sc [Suc j..<n] k)"
  by (simp add: upt_split [OF assms(2)] key_loop_append assms(1) del: upt.simps)

lemma input_loop_append:
  "input_loop (xs @ ys) k = (case input_loop xs k of Inl e \<Rightarrow> Inl e | Inr k \<Rightarrow> input_loop ys k)"
  by (induction xs arbitrary: k) (auto split: sum.splits)

lemma input_loop_no_match: "\<forall>i \<in> set is. IDS ! i \<noteq> KB_STATE k \<Longrightarrow> input_loop is k = Inr k"
  by (induction "is") (auto simp: input_step_def)

text \<open>A key name that is in the first 59 ids is printed once.\<close>

lemma input_init_at:
  assumes "j < 59" "KB_STATE k = IDS ! j" "input_step j k = Inr k'" "KB_STATE k' = KB_STATE k"
  shows "input_init k = Inr k'"
proof -
  have other: "IDS ! i \<noteq> IDS ! j" if "i < 59" "i \<noteq> j" for i
    using that assms(1) distinct_IDS by (simp add: nth_eq_iff_index_eq)
  have "input_loop [0..<j] k = Inr k"
    using other assms(1,2) by (intro input_loop_no_match) auto
  moreover have "input_loop [Suc j..<59] k' = Inr k'"
    using other assms by (intro input_loop_no_match) auto
  ultimately show ?thesis
    using assms(3) by (simp add: input_init_def upt_split [OF assms(1)] input_loop_append del: upt.simps)
qed

lemma input_init_nothing: "KB_STATE k = [] \<Longrightarrow> input_init k = Inr k"
  unfolding input_init_def by (rule input_loop_no_match) (use IDS_nonempty in force)

section \<open>The keyboard as a machine of two states\<close>

text \<open>
  What a press of a key does, as a function of whether shift is held: the next state and the
  characters printed, or \<open>None\<close> where the handler writes past \<open>KB_STATE\<close>.
\<close>

definition key_index :: "u8 \<Rightarrow> nat option" where
  "key_index sc = (case filter (\<lambda>j. KB_SCANCODE ! j = sc) [0..<39] of [] \<Rightarrow> None | js \<Rightarrow> Some (last js))"

definition press :: "bool \<Rightarrow> u8 \<Rightarrow> (bool \<times> string list) option" where
  "press shift sc =
     (if sc = 0x2a then Some (True, [''}''])
      else if sc = 0x36 then Some (True, ['':''])
      else if sc = 0xaa then Some (False, [])
      else case key_index sc of
        None \<Rightarrow> Some (shift, [])
      | Some j \<Rightarrow>
          if \<not> shift then Some (shift, [CHARS ! j])
          else if j < 26 then Some (shift, [CAPS_LETTERS ! j])
          else if j = 26 then Some (shift, [])
          else if j = 31 then None
          else Some (shift, [KB_KEY_SHIFT ! (j - 26)]))"

primrec presses :: "bool \<Rightarrow> u8 list \<Rightarrow> (bool \<times> string list) option" where
  "presses shift [] = Some (shift, [])"
| "presses shift (sc # scs) =
     (case press shift sc of
        None \<Rightarrow> None
      | Some (shift, xs) \<Rightarrow> map_option (\<lambda>(shift, ys). (shift, xs @ ys)) (presses shift scs))"

primrec key_events :: "u8 list \<Rightarrow> kb \<Rightarrow> fault + kb" where
  "key_events [] k = Inr k"
| "key_events (sc # scs) k = (case key_event sc k of Inl e \<Rightarrow> Inl e | Inr k \<Rightarrow> key_events scs k)"

text \<open>The variables of the handler in each of the two states; caps lock has no state.\<close>

definition in_state :: "bool \<Rightarrow> kb \<Rightarrow> bool" where
  "in_state shift k \<longleftrightarrow> shiftpoint k = (if shift then 1 else 0) \<and> capspoint k = 0 \<and> KB_STATE k = []"

lemma key_loop_no_match:
  assumes "sc \<notin> {0x2a, 0x36, 0xaa, 0x3a}" "\<forall>i \<in> set is. KB_SCANCODE ! i \<noteq> sc"
  shows "key_loop sc is k = Inr k"
  using assms(2) by (induction "is") (use assms(1) in \<open>auto simp: key_step_def\<close>)

lemma distinct_SCANCODE: "distinct (drop 13 KB_SCANCODE)" "distinct (take 13 KB_SCANCODE)"
  "set (take 12 KB_SCANCODE) \<inter> set (drop 13 KB_SCANCODE) = {}"
  by (simp_all add: KB_SCANCODE_def)

lemma SCANCODE_eq:
  assumes "KB_SCANCODE ! i = KB_SCANCODE ! j" "i < j" "j < 43"
  shows "i = 12 \<and> j = 13"
proof (rule ccontr)
  assume no: "\<not> ?thesis"
  consider "13 \<le> i" | "j < 13" | "i < 12" "13 \<le> j" | "i = 12" "14 \<le> j" using no assms(2) by linarith
  then show False
  proof cases
    case 1
    then have "drop 13 KB_SCANCODE ! (i - 13) = drop 13 KB_SCANCODE ! (j - 13)" using assms by simp
    then have "i - 13 = j - 13" using 1 assms distinct_SCANCODE(1) by (subst (asm) nth_eq_iff_index_eq) auto
    then show False using 1 assms by simp
  next
    case 2
    then have "take 13 KB_SCANCODE ! i = take 13 KB_SCANCODE ! j" using assms by simp
    then have "i = j" using 2 assms distinct_SCANCODE(2) by (subst (asm) nth_eq_iff_index_eq) auto
    then show False using assms by simp
  next
    case 3
    then have "KB_SCANCODE ! i \<in> set (take 12 KB_SCANCODE)" by (auto simp: in_set_conv_nth intro!: exI [of _ i])
    moreover have "KB_SCANCODE ! j \<in> set (drop 13 KB_SCANCODE)"
      using 3 assms(3) by (auto simp: in_set_conv_nth intro!: exI [of _ "j - 13"])
    ultimately show False using assms(1) distinct_SCANCODE(3) by auto
  next
    case 4
    have "KB_SCANCODE ! 12 = KB_SCANCODE ! 13" by (simp add: KB_SCANCODE_def)
    then have "drop 13 KB_SCANCODE ! 0 = drop 13 KB_SCANCODE ! (j - 13)" using 4 assms by simp
    then have "0 = j - 13" using 4 assms distinct_SCANCODE(1) by (subst (asm) nth_eq_iff_index_eq) auto
    then show False using 4 by simp
  qed
qed

lemma key_index_None: "key_index sc = None \<longleftrightarrow> (\<forall>i < 39. KB_SCANCODE ! i \<noteq> sc)"
proof -
  have "key_index sc = None \<longleftrightarrow> filter (\<lambda>j. KB_SCANCODE ! j = sc) [0..<39] = []"
    by (simp add: key_index_def split: list.splits del: upt.simps)
  also have "\<dots> \<longleftrightarrow> (\<forall>i < 39. KB_SCANCODE ! i \<noteq> sc)" by (auto simp: filter_empty_conv simp del: upt.simps)
  finally show ?thesis .
qed

lemma key_index_Some:
  assumes "key_index sc = Some j"
  shows "j < 39" "KB_SCANCODE ! j = sc" "j \<noteq> 12"
proof -
  let ?js = "filter (\<lambda>j. KB_SCANCODE ! j = sc) [0..<39]"
  have js: "?js \<noteq> []" "j = last ?js" using assms by (auto simp: key_index_def split: list.splits simp del: upt.simps)
  then have "j \<in> set ?js" using last_in_set by metis
  then show j: "j < 39" "KB_SCANCODE ! j = sc" by auto
  show "j \<noteq> 12"
  proof
    assume "j = 12"
    have "[0..<39] = [0..<13] @ 13 # [14..<(39::nat)]" by (subst upt_split [of 13]) simp_all
    moreover have "KB_SCANCODE ! 13 = sc" using j \<open>j = 12\<close> by (simp add: KB_SCANCODE_def)
    ultimately have "last ?js = last (13 # filter (\<lambda>j. KB_SCANCODE ! j = sc) [14..<39])"
      by (simp del: upt.simps)
    also have "\<dots> \<in> set (13 # filter (\<lambda>j. KB_SCANCODE ! j = sc) [14..<39])" by (rule last_in_set) simp
    finally have "j \<in> set (13 # filter (\<lambda>j. KB_SCANCODE ! j = sc) [14..<39])" using js(2) by simp
    then show False using \<open>j = 12\<close> by (simp only: set_simps set_filter set_upt) auto
  qed
qed


lemma key_loop_caps:
  assumes "capspoint k \<in> {0, 1}" "set is \<subseteq> {..<42}"
  shows "key_loop 0x3a is k = Inr (k\<lparr>capspoint := (if even (length is) then capspoint k else 1 - capspoint k)\<rparr>)"
  using assms
proof (induction "is" arbitrary: k)
  case (Cons i "is")
  have "key_step 0x3a i k = Inr (k\<lparr>capspoint := (if capspoint k = 0 then 1 else 0)\<rparr>)"
    using capslock_not_before [of i] Cons.prems(2) by (auto simp: key_step_def)
  then show ?case
    using Cons.IH [of "k\<lparr>capspoint := (if capspoint k = 0 then 1 else 0)\<rparr>"] Cons.prems by auto
qed simp

lemma key_loop_release:
  assumes "shiftpoint k = 0" "set is \<subseteq> {..<42}" "KB_STATE k = []"
  shows "key_loop 0xaa is k = Inr k"
  using assms
proof (induction "is" arbitrary: k)
  case (Cons i "is")
  have "KB_SCANCODE ! i = 0xaa \<Longrightarrow> 38 < i"
    using release_not_before [of i] by (cases "i < 39") auto
  then have "key_step 0xaa i k = Inr k" using Cons.prems by (auto simp: key_step_def)
  then show ?case using Cons by simp
qed simp

lemma key_loop_held:
  assumes "sc = 0x2a \<or> sc = 0x36" "shiftpoint k = 1" "\<forall>i \<in> set is. KB_SCANCODE ! i \<noteq> sc"
  shows "key_loop sc is k = Inr k"
proof -
  have "k\<lparr>shiftpoint := 1\<rparr> = k" using assms(2) by (cases k) simp
  then show ?thesis using assms(3) by (induction "is") (use assms(1) in \<open>auto simp: key_step_def\<close>)
qed

text \<open>The press of a shift key sets \<open>shiftpoint\<close> in the first round and is itself taken for a
  shifted key in round 39 or 40.\<close>

lemma key_loop_shift:
  assumes "(sc, j) \<in> {(0x2a, 39), (0x36, 40)}" "capspoint k = 0"
  shows "key_loop sc [0..<42] k =
    Inr (k\<lparr>shiftpoint := 1, KB_CAPS_STATE := 0, KB_SHIFT_STATE := 1, KB_STATE := KB_KEY_SHIFT ! (j - 26)\<rparr>)"
    (is "_ = Inr ?k")
proof -
  let ?k1 = "k\<lparr>shiftpoint := 1\<rparr>"
  have j: "KB_SCANCODE ! j = sc" "j = 39 \<or> j = 40" using assms(1) by auto
  have sc: "sc = 0x2a \<or> sc = 0x36" using assms(1) by auto
  have split: "[0..<42] = 0 # [1..<j] @ j # [Suc j..<42]"
    using upt_split [of j 42] upt_conv_Cons [of 0 j] j(2) by (auto simp del: upt.simps)
  have other: "KB_SCANCODE ! i \<noteq> sc" if "i < 42" "i \<noteq> j" for i
    using SCANCODE_eq [of i j] SCANCODE_eq [of j i] that j by (cases i j rule: linorder_cases) auto
  have "key_step sc 0 k = Inr ?k1"
    using other [of 0] j(2) sc by (auto simp: key_step_def)
  moreover have "key_loop sc [1..<j] ?k1 = Inr ?k1"
    by (intro key_loop_held [OF sc] ballI other) (use j(2) in auto)
  moreover have "key_step sc j ?k1 = Inr ?k"
    using j sc by (auto simp: key_step_def set_key_def KB_KEY_SHIFT_def singles_def)
  moreover have "key_loop sc [Suc j..<42] ?k = Inr ?k"
    by (intro key_loop_held [OF sc] ballI other) (use j(2) in auto)
  ultimately show ?thesis by (simp add: split key_loop_append del: upt.simps)
qed

text \<open>Any other key: the last round that matches decides.\<close>

lemma key_loop_key:
  assumes sc: "sc \<notin> {0x2a, 0x36, 0xaa, 0x3a}" and j: "key_index sc = Some j"
    and set: "\<And>k'. (k' = k \<or> j = 13 \<and> key_step sc 12 k = Inr k') \<Longrightarrow> key_step sc j k' = r"
    and twelve: "j = 13 \<Longrightarrow> \<exists>k'. key_step sc 12 k = Inr k'"
  shows "key_loop sc [0..<42] k = r"
proof -
  note at = key_index_Some [OF j]
  have after: "KB_SCANCODE ! i \<noteq> sc" if "j < i" "i < 42" for i
    using SCANCODE_eq [of j i] that at by auto
  have rest: "key_loop sc [Suc j..<42] k' = Inr k'" for k'
    using after by (intro key_loop_no_match [OF sc]) auto
  have end': "(case r of Inl e \<Rightarrow> Inl e | Inr k \<Rightarrow> key_loop sc [Suc j..<42] k) = r"
    by (simp add: rest split: sum.splits)
  have j42: "j < 42" using at by simp
  show ?thesis
  proof (cases "j = 13")
    case False
    have "KB_SCANCODE ! i \<noteq> sc" if "i < j" for i
      using SCANCODE_eq [of i j] that at False by auto
    then have "key_loop sc [0..<j] k = Inr k" by (intro key_loop_no_match [OF sc]) auto
    then show ?thesis using set [of k] end' by (simp add: key_loop_at [OF _ j42] del: upt.simps)
  next
    case True
    obtain k' where k': "key_step sc 12 k = Inr k'" using twelve True by auto
    have "KB_SCANCODE ! i \<noteq> sc" if "i < 12" for i
      using SCANCODE_eq [of i j] that at True by auto
    then have "key_loop sc [0..<12] k = Inr k" by (intro key_loop_no_match [OF sc]) auto
    then have "key_loop sc [0..<13] k = Inr k'"
      using k' key_loop_at [of sc 12 k k 13] by simp
    then have "key_loop sc [0..<j] k = Inr k'" by (simp only: True)
    moreover have "key_step sc j k' = r" using set [of k'] k' True by blast
    ultimately show ?thesis using end' by (simp add: key_loop_at [OF _ j42] del: upt.simps)
  qed
qed


lemma names:
  "j < 39 \<Longrightarrow> length (KB_KEY ! j) < 2" "j < 39 \<Longrightarrow> KB_KEY ! j = IDS ! j"
  by (rule KB_KEY_length KB_KEY_IDS, assumption)+

lemma all_less_16: "(\<forall>m < 16. P m) \<longleftrightarrow> (\<forall>m \<in> set [0..<16]. P m)"
  by (auto simp del: upt.simps)

lemma shifted_names:
  assumes "m < 16" "m \<noteq> 5"
  shows "length (KB_KEY_SHIFT ! m) < 2" "KB_KEY_SHIFT ! m \<in> set (take 20 SHIFT_CHARS)"
proof -
  have "\<forall>m < 16. m \<noteq> 5 \<longrightarrow> length (KB_KEY_SHIFT ! m) < 2 \<and> KB_KEY_SHIFT ! m \<in> set (take 20 SHIFT_CHARS)"
    unfolding all_less_16 by (simp add: upt_rec KB_KEY_SHIFT_def singles_def SHIFT_CHARS_def)
  then show "length (KB_KEY_SHIFT ! m) < 2" "KB_KEY_SHIFT ! m \<in> set (take 20 SHIFT_CHARS)" using assms by auto
qed

lemma SHIFT_CHARS_drop: "SHIFT_CHARS = drop 39 IDS"
  by (simp add: SHIFT_CHARS_def IDS_def singles_def)

lemma SHIFT_CHARS_IDS: "SHIFT_CHARS ! l = IDS ! (39 + l)"
  unfolding SHIFT_CHARS_drop by (rule nth_drop) simp

text \<open>What \<open>input_init\<close> prints for the name the handler stored.\<close>

lemma input_init_plain:
  assumes "j < 39" "KB_STATE k = KB_KEY ! j" "KB_CAPS_STATE k = 0" "KB_SHIFT_STATE k = 0"
  shows "input_init k = Inr (k\<lparr>printed := printed k @ [CHARS ! j]\<rparr>)"
  using assms by (intro input_init_at [of j]) (auto simp: input_step_def print_from_def names)

lemma input_init_caps:
  assumes "j < 26" "KB_STATE k = KB_KEY ! j" "KB_CAPS_STATE k = 1"
  shows "input_init k = Inr (k\<lparr>printed := printed k @ [CAPS_LETTERS ! j]\<rparr>)"
  using assms by (intro input_init_at [of j]) (auto simp: input_step_def print_from_def names)

lemma input_init_shift:
  assumes "m < 16" "m \<noteq> 5" "KB_STATE k = KB_KEY_SHIFT ! m" "KB_CAPS_STATE k = 0" "KB_SHIFT_STATE k = 1"
  shows "input_init k = Inr (k\<lparr>printed := printed k @ [KB_KEY_SHIFT ! m]\<rparr>)"
proof -
  obtain l where l: "l < 20" "KB_KEY_SHIFT ! m = SHIFT_CHARS ! l"
    using shifted_names(2) [OF assms(1,2)] by (auto simp: in_set_conv_nth)
  then show ?thesis
    using assms by (intro input_init_at [of "39 + l"]) (auto simp: input_step_def print_from_def SHIFT_CHARS_IDS)
qed


lemma key_event_shift:
  assumes "(sc, j) \<in> {(0x2a, 39), (0x36, 40)}" "in_state shift k"
  shows "\<exists>k'. key_event sc k = Inr k' \<and> in_state True k' \<and> printed k' = printed k @ [KB_KEY_SHIFT ! (j - 26)]"
proof -
  have "j - 26 < 16" "j - 26 \<noteq> 5" using assms(1) by auto
  note print = input_init_shift [OF this]
  show ?thesis
    unfolding key_event_def key_loop_shift [OF assms(1) assms(2) [unfolded in_state_def, THEN conjunct2, THEN conjunct1]]
    using assms(2) by (simp add: print in_state_def)
qed

lemma key_event_silent:
  assumes "key_loop sc [0..<42] k = Inr k'" "in_state shift k'" "printed k' = printed k"
  shows "\<exists>k'. key_event sc k = Inr k' \<and> in_state shift k' \<and> printed k' = printed k @ []"
  using assms by (simp add: key_event_def input_init_nothing in_state_def del: upt.simps)

lemma key_event_release:
  assumes "in_state shift k"
  shows "\<exists>k'. key_event 0xaa k = Inr k' \<and> in_state False k' \<and> printed k' = printed k @ []"
proof -
  have "[0..<42] = 0 # [Suc 0..<42]" using upt_split [of 0 42] by (simp del: upt.simps)
  moreover have "key_step 0xaa 0 k = Inr (k\<lparr>shiftpoint := 0\<rparr>)"
    using release_not_before [of 0] by (simp add: key_step_def)
  moreover have "key_loop 0xaa [Suc 0..<42] (k\<lparr>shiftpoint := 0\<rparr>) = Inr (k\<lparr>shiftpoint := 0\<rparr>)"
    using assms by (intro key_loop_release) (auto simp: in_state_def)
  ultimately show ?thesis
    using assms by (intro key_event_silent [where k' = "k\<lparr>shiftpoint := 0\<rparr>"]) (auto simp: in_state_def simp del: upt.simps)
qed

lemma key_event_caps:
  assumes "in_state shift k"
  shows "\<exists>k'. key_event 0x3a k = Inr k' \<and> in_state shift k' \<and> printed k' = printed k @ []"
proof (rule key_event_silent)
  have "capspoint k = 0" using assms by (simp add: in_state_def)
  moreover have "set [0..<42] \<subseteq> {..<42::nat}" by auto
  ultimately show "key_loop 0x3a [0..<42] k = Inr k"
    using key_loop_caps [of k "[0..<42]"] by (cases k) (simp del: upt.simps)
qed (use assms in simp_all)

lemma key_event_key:
  assumes sc: "sc \<notin> {0x2a, 0x36, 0xaa, 0x3a}" and j: "key_index sc = Some j" and k: "in_state shift k"
  shows "case press shift sc of
      None \<Rightarrow> key_event sc k = Inl Oob
    | Some (shift', xs) \<Rightarrow> \<exists>k'. key_event sc k = Inr k' \<and> in_state shift' k' \<and> printed k' = printed k @ xs"
proof -
  note at = key_index_Some [OF j]
  have sc_at: "KB_SCANCODE ! 12 = sc" if "j = 13" using that at by (simp add: KB_SCANCODE_def)
  show ?thesis
  proof (cases shift)
    case False
    let ?k = "k\<lparr>KB_CAPS_STATE := 0, KB_SHIFT_STATE := 0, KB_STATE := KB_KEY ! j\<rparr>"
    have "key_loop sc [0..<42] k = Inr ?k"
      using at sc_at k False by (intro key_loop_key [OF sc j]) (auto simp: key_step_def set_key_def names(1) in_state_def)
    then have "key_event sc k = Inr (?k\<lparr>printed := printed k @ [CHARS ! j], KB_STATE := []\<rparr>)"
      using input_init_plain [OF at(1), of ?k] by (simp add: key_event_def del: upt.simps)
    then show ?thesis using False sc j k by (simp add: press_def in_state_def)
  next
    case True
    consider "j < 26" | "j = 26" | "26 < j" "j \<noteq> 31" | "j = 31" by linarith
    then show ?thesis
    proof cases
      case 1
      let ?k = "k\<lparr>KB_CAPS_STATE := 1, KB_SHIFT_STATE := 0, KB_STATE := KB_KEY ! j\<rparr>"
      have "key_loop sc [0..<42] k = Inr ?k"
        using at 1 sc_at k True by (intro key_loop_key [OF sc j]) (auto simp: key_step_def set_key_def names(1) in_state_def)
      then have "key_event sc k = Inr (?k\<lparr>printed := printed k @ [CAPS_LETTERS ! j], KB_STATE := []\<rparr>)"
        using input_init_caps [OF 1, of ?k] by (simp add: key_event_def del: upt.simps)
      then show ?thesis using True 1 sc j k by (simp add: press_def in_state_def)
    next
      case 2
      have "key_loop sc [0..<42] k = Inr k"
        using at 2 k True by (intro key_loop_key [OF sc j]) (auto simp: key_step_def in_state_def)
      then show ?thesis
        using key_event_silent [of sc k k shift] True 2 sc j k by (simp add: press_def del: upt.simps)
    next
      case 3
      then have m: "j - 26 < 16" "j - 26 \<noteq> 5" using at by auto
      let ?k = "k\<lparr>KB_CAPS_STATE := 0, KB_SHIFT_STATE := 1, KB_STATE := KB_KEY_SHIFT ! (j - 26)\<rparr>"
      have "key_loop sc [0..<42] k = Inr ?k"
        using at 3 k True shifted_names(1) [OF m]
        by (intro key_loop_key [OF sc j]) (auto simp: key_step_def set_key_def in_state_def)
      then have "key_event sc k = Inr (?k\<lparr>printed := printed k @ [KB_KEY_SHIFT ! (j - 26)], KB_STATE := []\<rparr>)"
        using input_init_shift [OF m, of ?k] by (simp add: key_event_def del: upt.simps)
      then show ?thesis using True 3 sc j k by (simp add: press_def in_state_def)
    next
      case 4
      have "key_loop sc [0..<42] k = Inl Oob"
        using at 4 k True by (intro key_loop_key [OF sc j]) (auto simp: key_step_def set_key_def in_state_def KB_KEY_SHIFT_def singles_def)
      then show ?thesis using True 4 sc j by (simp add: key_event_def press_def del: upt.simps)
    qed
  qed
qed


lemma key_event_press:
  assumes "in_state shift k"
  shows "case press shift sc of
      None \<Rightarrow> key_event sc k = Inl Oob
    | Some (shift', xs) \<Rightarrow> \<exists>k'. key_event sc k = Inr k' \<and> in_state shift' k' \<and> printed k' = printed k @ xs"
proof -
  consider "sc = 0x2a" | "sc = 0x36" | "sc = 0xaa" | "sc = 0x3a"
    | "sc \<notin> {0x2a, 0x36, 0xaa, 0x3a}" by blast
  then show ?thesis
  proof cases
    case 1
    then show ?thesis using key_event_shift [of sc 39, OF _ assms] by (simp add: press_def KB_KEY_SHIFT_def singles_def)
  next
    case 2
    then show ?thesis using key_event_shift [of sc 40, OF _ assms] by (simp add: press_def KB_KEY_SHIFT_def singles_def)
  next
    case 3
    then show ?thesis using key_event_release [OF assms] by (simp add: press_def)
  next
    case 4
    have "key_index sc = None" unfolding 4 key_index_None by (simp add: capslock_not_before)
    then show ?thesis using key_event_caps [OF assms] 4 by (simp add: press_def)
  next
    case 5
    show ?thesis
    proof (cases "key_index sc")
      case (Some j)
      then show ?thesis by (rule key_event_key [OF 5 _ assms])
    next
      case None
      have "KB_SCANCODE ! i \<noteq> sc" if "i < 42" for i
      proof (cases "i < 39")
        case False
        then have "i = 39 \<or> i = 40 \<or> i = 41" using that by auto
        then show ?thesis using 5 by auto
      qed (use None key_index_None in blast)
      then have "key_loop sc [0..<42] k = Inr k" by (intro key_loop_no_match [OF 5]) simp
      then show ?thesis using key_event_silent [of sc k k shift] assms 5 None by (simp add: press_def del: upt.simps)
    qed
  qed
qed

text \<open>
  C21. Any sequence of scan codes: the handler refines the machine \<open>press\<close> of two states, shift held
  or not. As long as no press leaves the machine, the handler prints the characters the machine
  gives and is in its state; on the first press that leaves it (the key 5 with shift held: the two
  literals for the percent sign and the caret are one name of two characters), \<open>strcat\<close> writes past
  the end of \<open>KB_STATE\<close>. Caps lock is toggled 42 times, so it changes nothing.
\<close>

theorem key_events_refine_press:
  assumes "in_state shift k"
  shows "case presses shift scs of
      None \<Rightarrow> key_events scs k = Inl Oob
    | Some (shift', xs) \<Rightarrow> \<exists>k'. key_events scs k = Inr k' \<and> in_state shift' k' \<and> printed k' = printed k @ xs"
  using assms
proof (induction scs arbitrary: shift k)
  case (Cons sc scs)
  show ?case
  proof (cases "press shift sc")
    case None
    then show ?thesis using key_event_press [OF Cons.prems, of sc] by simp
  next
    case (Some r)
    obtain shift' xs where r: "r = (shift', xs)" by (cases r)
    then obtain k' where k': "key_event sc k = Inr k'" "in_state shift' k'" "printed k' = printed k @ xs"
      using key_event_press [OF Cons.prems, of sc] Some by auto
    show ?thesis
      using Cons.IH [OF k'(2)] Some r k' by (auto split: option.splits)
  qed
qed simp

definition sample_kb :: kb where
  "sample_kb = \<lparr>shiftpoint = 0, capspoint = 0, KB_STATE = [], KB_CAPS_STATE = 0, KB_SHIFT_STATE = 0, printed = []\<rparr>"

theorem key_events_refine_press_witness:
  "(\<exists>k'. key_events [0x1e, 0x32, 0x3a, 0x2a, 0x1e, 0xaa, 0x1e] sample_kb = Inr k' \<and> in_state False k'
      \<and> printed k' = [''a'', ''n'', ''}'', ''A'', ''a''])
    \<and> key_events [0x2a, 0x6] sample_kb = Inl Oob"
proof -
  have 0: "in_state False sample_kb" by (simp add: in_state_def sample_kb_def)
  have "presses False [0x1e, 0x32, 0x3a, 0x2a, 0x1e, 0xaa, 0x1e] = Some (False, [''a'', ''n'', ''}'', ''A'', ''a''])"
    by (simp add: press_def key_index_def KB_SCANCODE_def CHARS_def singles_def CAPS_LETTERS_def upt_rec)
  moreover have "presses False [0x2a, 0x6] = None"
    by (simp add: press_def key_index_def KB_SCANCODE_def upt_rec)
  ultimately show ?thesis
    using key_events_refine_press [OF 0, of "[0x1e, 0x32, 0x3a, 0x2a, 0x1e, 0xaa, 0x1e]"]
      key_events_refine_press [OF 0, of "[0x2a, 0x6]"]
    by (simp add: sample_kb_def del: key_events.simps presses.simps)
qed

end
