(* ===== verification/Tar.thy ===== *)
theory Tar
  imports Vector Layout
begin

text \<open>
  The archive of the initial RAM disk: \<open>libk/tar.c\<close>. \<open>parse_tar\<close> walks the headers and collects
  their addresses in a vector; \<open>find_file\<close> looks one up by name. The abstraction \<open>tar_at s h fs\<close>
  says that an archive of the files \<open>fs\<close>, each a name and its bytes, lies at \<open>h\<close>.
\<close>

section \<open>The code\<close>

definition tar_header :: layout where
  "tar_header = [(''filename'', 100, 1), (''mode'', 8, 1), (''UID'', 8, 1), (''GID'', 8, 1), (''size'', 12, 1),
     (''mtime'', 12, 1), (''chksum'', 8, 1), (''typeflag'', 1, 1)]"

record tar_contents =
  hdr_num :: u8
  headers :: ptr

text \<open>Eleven digits, the last one first. \<open>count\<close> and \<open>sz\<close> are of 32 bits.\<close>

primrec size_loop :: "'z machine_scheme \<Rightarrow> ptr \<Rightarrow> nat \<Rightarrow> u32 \<Rightarrow> u32 \<Rightarrow> u32" where
  "size_loop s inp 0 count sz = sz"
| "size_loop s inp (Suc j) count sz =
     size_loop s inp j (count * 8) (sz + (ucast (load8 s (inp + of_nat j)) - 0x30) * count)"

definition parse_size :: "'z machine_scheme \<Rightarrow> ptr \<Rightarrow> u32" where
  "parse_size s inp = size_loop s inp 11 1 0"

text \<open>The address of the header after \<open>h\<close>.\<close>

definition next_header :: "'z machine_scheme \<Rightarrow> ptr \<Rightarrow> ptr" where
  "next_header s h =
     (let sz = (ucast (parse_size s (field tar_header ''size'' h)) :: u64);
          h = h + (sz div 512 + 1) * 512
      in if sz mod 512 \<noteq> 0 then h + 512 else h)"

text \<open>The size of a header is read before the vector is written.\<close>

partial_function (option) parse_loop ::
    "ptr \<Rightarrow> u64 \<Rightarrow> ptr \<Rightarrow> u32 \<Rightarrow> vec \<Rightarrow> 'z pmm_scheme \<Rightarrow> (tar_contents \<times> vec, 'z pmm_scheme) result option" where
  "parse_loop header file_size h i v s =
     (let traversed_size = h - header in
      if load8 s (field tar_header ''filename'' h) = 0 \<or> traversed_size \<ge> file_size then
        Some (Inr ((\<lparr>hdr_num = ucast i, headers = v_data v\<rparr>, v), s))
      else
        let n = next_header s h in
        case vector_push_back h v s of
          Inl e \<Rightarrow> Some (Inl e)
        | Inr (v, s) \<Rightarrow> parse_loop header file_size n (i + 1) v s)"

definition parse_tar ::
    "ptr \<Rightarrow> u64 \<Rightarrow> 'z pmm_scheme \<Rightarrow> (tar_contents \<times> vec, 'z pmm_scheme) result option" where
  "parse_tar header file_size s =
     (case vector_init s of
        Inl e \<Rightarrow> Some (Inl e)
      | Inr (v, s) \<Rightarrow> parse_loop header file_size header 0 v s)"

primrec find_loop :: "'z machine_scheme \<Rightarrow> ptr \<Rightarrow> ptr \<Rightarrow> nat \<Rightarrow> usize \<Rightarrow> ptr option" where
  "find_loop s hdrs name 0 i = Some NULL"
| "find_loop s hdrs name (Suc k) i =
     (let hdr = load64 s (hdrs + 8 * i) in
      Option.bind (strcmp s (field tar_header ''filename'' hdr) name) (\<lambda>r.
        if r = 0 then Some hdr else find_loop s hdrs name k (i + 1)))"

definition find_file :: "'z machine_scheme \<Rightarrow> tar_contents \<Rightarrow> ptr \<Rightarrow> ptr option" where
  "find_file s findin name = find_loop s (headers findin) name (unat (hdr_num findin)) 0"

lemma tar_offsets [simp]:
  "offset_of tar_header ''filename'' = 0" "offset_of tar_header ''UID'' = 108" "offset_of tar_header ''GID'' = 116"
  "offset_of tar_header ''size'' = 124" "offset_of tar_header ''mtime'' = 136" "offset_of tar_header ''typeflag'' = 156"
  by (simp_all add: tar_header_def layout_simps)

section \<open>Octal numbers\<close>

definition is_octal :: "u8 \<Rightarrow> bool" where "is_octal c \<longleftrightarrow> 0x30 \<le> c \<and> c \<le> 0x37"

lemma octal_word: "is_octal c \<Longrightarrow> (ucast c - 0x30 :: u32) = of_nat (unat c - 48)"
  by (rule digit_word) (auto simp: is_octal_def is_digit_def word_le_nat_alt)

lemma digits_value_snoc: "digits_value b (ds @ [d]) = b * digits_value b ds + (unat d - 48)"
  by (simp add: digits_value_def)

lemma size_loop_value:
  "(\<forall>c \<in> set (load_bytes s p j). is_octal c) \<Longrightarrow>
   size_loop s p j count sz = sz + count * of_nat (digits_value 8 (load_bytes s p j))"
proof (induction j arbitrary: count sz)
  case 0
  then show ?case by (simp add: digits_value_def)
next
  case (Suc j)
  have snoc: "load_bytes s p (Suc j) = load_bytes s p j @ [load8 s (p + of_nat j)]"
    using load_bytes_append [of s p j 1] by simp
  have "\<forall>c \<in> set (load_bytes s p j). is_octal c" "is_octal (load8 s (p + of_nat j))"
    using Suc.prems unfolding snoc by auto
  then show ?case
    using Suc.IH [of "count * 8"] unfolding snoc digits_value_snoc
    by (simp add: octal_word algebra_simps)
qed

text \<open>\<open>size_field s p n\<close>: the eleven digits at \<open>p\<close> are the number \<open>n\<close>.\<close>

definition size_field :: "'z machine_scheme \<Rightarrow> ptr \<Rightarrow> nat \<Rightarrow> bool" where
  "size_field s p n \<longleftrightarrow> (\<forall>c \<in> set (load_bytes s p 11). is_octal c) \<and> digits_value 8 (load_bytes s p 11) = n \<and> n < 2 ^ 32"

lemma parse_size_field: "size_field s p n \<Longrightarrow> parse_size s p = of_nat n"
  by (simp add: parse_size_def size_loop_value size_field_def del: size_loop.simps)


section \<open>An archive in memory\<close>

text \<open>A file: its name and its bytes.\<close>

type_synonym tfile = "u8 list \<times> u8 list"

text \<open>The header and the data, both in blocks of 512 bytes.\<close>

definition file_span :: "tfile \<Rightarrow> nat" where
  "file_span f = 512 * (1 + (length (snd f) + 511) div 512)"

definition file_at :: "'z machine_scheme \<Rightarrow> ptr \<Rightarrow> tfile \<Rightarrow> bool" where
  "file_at s h f \<longleftrightarrow> fst f \<noteq> [] \<and> length (fst f) < 100 \<and> cstr s h (fst f) \<and>
     size_field s (h + 124) (length (snd f)) \<and> load_bytes s (h + 512) (length (snd f)) = snd f"

primrec tar_at :: "'z machine_scheme \<Rightarrow> ptr \<Rightarrow> tfile list \<Rightarrow> bool" where
  "tar_at s h [] \<longleftrightarrow> load8 s h = 0"
| "tar_at s h (f # fs) \<longleftrightarrow> file_at s h f \<and> tar_at s (h + of_nat (file_span f)) fs"

definition tar_len :: "tfile list \<Rightarrow> nat" where
  "tar_len fs = sum_list (map file_span fs)"

lemma tar_len_simps [simp]: "tar_len [] = 0" "tar_len (f # fs) = file_span f + tar_len fs"
  by (simp_all add: tar_len_def)

primrec positions :: "ptr \<Rightarrow> tfile list \<Rightarrow> ptr list" where
  "positions h [] = []"
| "positions h (f # fs) = h # positions (h + of_nat (file_span f)) fs"

lemma length_positions [simp]: "length (positions h fs) = length fs"
  by (induction fs arbitrary: h) simp_all

lemma file_span_bounds: "512 \<le> file_span f" "512 + length (snd f) \<le> file_span f"
proof -
  have "length (snd f) \<le> 512 * ((length (snd f) + 511) div 512)"
    using dividend_less_times_div [of 512 "length (snd f) + 511"] by simp
  then show "512 + length (snd f) \<le> file_span f" by (simp add: file_span_def)
  then show "512 \<le> file_span f" by simp
qed

text \<open>The step to the next header is the span of the file.\<close>

lemma blocks_ceil: "(n + 511) div 512 = n div 512 + (if n mod 512 = 0 then 0 else 1)" for n :: nat
proof -
  have lt: "n mod 512 < 512" by simp
  have "(n + 511) div 512 = n div 512 + (n mod 512 + 511) div 512"
    by (subst div_add1_eq) simp
  moreover have "(n mod 512 + 511) div 512 = (if n mod 512 = 0 then 0 else 1)"
    using lt by (auto intro!: div_nat_eqI)
  ultimately show ?thesis by (simp only:)
qed

lemma next_header_file:
  assumes "file_at s h f"
  shows "next_header s h = h + of_nat (file_span f)"
proof -
  let ?n = "length (snd f)"
  have n: "parse_size s (h + 124) = of_nat ?n" "?n < 2 ^ 32"
    using assms by (auto simp: file_at_def parse_size_field) (simp add: size_field_def)
  define w where "w = (ucast (of_nat ?n :: u32) :: u64)"
  have "unat (of_nat ?n :: u32) = ?n" using n(2) by (simp add: unat_of_nat take_bit_eq_mod)
  then have w: "unat w = ?n"
    using n(2) by (simp add: w_def unsigned_ucast_eq take_bit_eq_mod)
  have q: "(w div 512 + 1) * 512 = of_nat (512 * (1 + ?n div 512))"
  proof -
    have "unat (w div 512) = unat (of_nat (?n div 512) :: u64)"
      using n(2) by (subst unat_of_nat_u64) (simp_all add: unat_div_u64 w less_mult_imp_div_less)
    then have "w div 512 = of_nat (?n div 512)" by (simp only: word_unat_eq_iff)
    then show ?thesis by (simp add: algebra_simps)
  qed
  have r: "w mod 512 = 0 \<longleftrightarrow> ?n mod 512 = 0"
    by (simp add: word_unat_eq_iff unat_mod_u64 w)
  have "next_header s h = (if w mod 512 \<noteq> 0 then h + (w div 512 + 1) * 512 + 512 else h + (w div 512 + 1) * 512)"
    by (simp add: next_header_def field_def n(1) w_def Let_def)
  then show ?thesis unfolding q r file_span_def blocks_ceil by (simp add: algebra_simps)
qed


section \<open>Archives and memory changes\<close>

text \<open>Two states that agree on the bytes of an archive have the same archive.\<close>

definition agree :: "'z machine_scheme \<Rightarrow> 'z machine_scheme \<Rightarrow> ptr \<Rightarrow> nat \<Rightarrow> bool" where
  "agree s t a n \<longleftrightarrow> (\<forall>i < n. load8 t (a + of_nat i) = load8 s (a + of_nat i))"

lemma agree_load_bytes: "agree s t a n \<Longrightarrow> k + m \<le> n \<Longrightarrow> load_bytes t (a + of_nat k) m = load_bytes s (a + of_nat k) m"
  unfolding load_bytes_map agree_def
  by (rule map_cong [OF refl]) (simp del: of_nat_add add: add.assoc flip: of_nat_add)

lemma agree_mono: "agree s t a n \<Longrightarrow> m \<le> n \<Longrightarrow> agree s t a m"
  by (simp add: agree_def)

lemma agree_shift: "agree s t a n \<Longrightarrow> k + m \<le> n \<Longrightarrow> agree s t (a + of_nat k) m"
  unfolding agree_def by (simp add: add.assoc flip: of_nat_add)

lemma agree_trans: "agree s t a n \<Longrightarrow> agree t u a n \<Longrightarrow> agree s u a n"
  by (simp add: agree_def)

lemma file_at_agree:
  assumes "file_at s h f" "agree s t h (file_span f)"
  shows "file_at t h f"
proof -
  note b = file_span_bounds [of f]
  have l: "length (fst f) < 100" using assms(1) by (simp add: file_at_def)
  then have 0: "Suc (length (fst f)) \<le> file_span f" using b by simp
  have "load_bytes t h (Suc (length (fst f))) = load_bytes s h (Suc (length (fst f)))"
    using agree_load_bytes [OF assms(2), of 0] 0 by (simp del: load_bytes.simps)
  then have c: "cstr t h (fst f)" using assms(1) cstr_cong unfolding file_at_def by blast
  have "load_bytes t (h + of_nat 124) 11 = load_bytes s (h + of_nat 124) 11"
    using b by (intro agree_load_bytes [OF assms(2)]) simp
  then have sz: "load_bytes t (h + 124) 11 = load_bytes s (h + 124) 11" by simp
  have "load_bytes t (h + of_nat 512) (length (snd f)) = load_bytes s (h + of_nat 512) (length (snd f))"
    using b by (intro agree_load_bytes [OF assms(2)]) simp
  then have "load_bytes t (h + 512) (length (snd f)) = load_bytes s (h + 512) (length (snd f))" by simp
  then show ?thesis using assms(1) c by (simp add: file_at_def size_field_def sz)
qed

lemma tar_at_agree: "tar_at s h fs \<Longrightarrow> agree s t h (Suc (tar_len fs)) \<Longrightarrow> tar_at t h fs"
proof (induction fs arbitrary: h)
  case Nil
  then show ?case by (simp add: agree_def)
next
  case (Cons f fs)
  have "agree s t h (file_span f)" by (rule agree_mono [OF Cons.prems(2)]) simp
  moreover have "agree s t (h + of_nat (file_span f)) (Suc (tar_len fs))"
    by (rule agree_shift [OF Cons.prems(2)]) simp
  ultimately show ?case using Cons file_at_agree [of s h f t] by simp
qed

text \<open>The archive lies in used frames, away from the bitmap and the vector.\<close>

definition apart :: "'z pmm_scheme \<Rightarrow> vec \<Rightarrow> ptr \<Rightarrow> nat \<Rightarrow> bool" where
  "apart s v a n \<longleftrightarrow> (\<forall>i < n. bystander s v (v2p (hhdm_off s) (a + of_nat i)))"

definition in_used :: "'z pmm_scheme \<Rightarrow> ptr \<Rightarrow> nat \<Rightarrow> bool" where
  "in_used s a n \<longleftrightarrow> (\<forall>i < n. v2p (hhdm_off s) (a + of_nat i) \<notin> bmp_region (page_bmp s) s \<and>
     frame (v2p (hhdm_off s) (a + of_nat i)) \<in> used_frames s)"

lemma apart_kept:
  assumes "apart s v a n" "hhdm_off t = hhdm_off s"
    and "\<And>q. bystander s v q \<Longrightarrow> bystander t w q \<and> pmem t q = pmem s q"
  shows "apart t w a n" "agree s t a n"
  using assms by (auto simp: apart_def agree_def load8_def)

lemma parse_loop_archive:
  assumes "holds s v xs" "tar_at s h fs" "length xs + length fs \<le> 252" "h = header + of_nat d"
    "d + tar_len fs \<le> unat fsize" "apart s v header (Suc (d + tar_len fs))" "i = of_nat (length xs)"
  shows "\<exists>w t. parse_loop header fsize h i v s =
      Some (Inr ((\<lparr>hdr_num = of_nat (length xs + length fs), headers = v_data w\<rparr>, w), t)) \<and>
    holds t w (xs @ positions h fs) \<and> hhdm_off t = hhdm_off s \<and> pmm.more t = pmm.more s \<and>
    (\<forall>q. bystander s v q \<longrightarrow> bystander t w q \<and> pmem t q = pmem s q)"
  using assms
proof (induction fs arbitrary: h d xs v s i)
  case Nil
  then have "load8 s h = 0" by simp
  moreover have "(ucast (of_nat (length xs) :: u32) :: u8) = of_nat (length xs)"
    using Nil by (simp add: unsigned_of_nat take_bit_nat_eq_self)
  ultimately have "parse_loop header fsize h i v s =
      Some (Inr ((\<lparr>hdr_num = of_nat (length xs), headers = v_data v\<rparr>, v), s))"
    using Nil.prems(7) by (subst parse_loop.simps) (simp add: field_def)
  then show ?case using Nil.prems(1) by auto
next
  case (Cons f fs)
  note b = file_span_bounds [of f]
  have f: "file_at s h f" and fs: "tar_at s (h + of_nat (file_span f)) fs" using Cons.prems(2) by auto
  have first: "load8 s h \<noteq> 0" using f by (cases "fst f") (auto simp: file_at_def)
  have "d < unat fsize" using Cons.prems(5) b by simp
  moreover have "unat (of_nat d :: u64) = d"
    using calculation unat_u64_less [of fsize] by (intro unat_of_nat_u64) linarith
  ultimately have inside: "\<not> h - header \<ge> fsize" using Cons.prems(4) by (simp add: word_le_nat_alt)
  obtain v1 s1 where p: "vector_push_back h v s = Inr (v1, s1)" "holds s1 v1 (xs @ [h])"
    "pmm.more s1 = pmm.more s" "hhdm_off s1 = hhdm_off s"
    "\<And>q. bystander s v q \<Longrightarrow> bystander s1 v1 q \<and> pmem s1 q = pmem s q"
    using push_back_holds [OF Cons.prems(1), of h] Cons.prems(3) by auto
  note k = apart_kept [OF Cons.prems(6) p(4,5)]
  have room: "d + file_span f + Suc (tar_len fs) \<le> Suc (d + tar_len (f # fs))"
    unfolding tar_len_simps by linarith
  have "agree s s1 (header + of_nat (d + file_span f)) (Suc (tar_len fs))"
    by (rule agree_shift [OF k(2) room])
  then have fs1: "tar_at s1 (h + of_nat (file_span f)) fs"
    using tar_at_agree [OF fs] Cons.prems(4) by (simp add: add.assoc)
  have "\<exists>w t. parse_loop header fsize (h + of_nat (file_span f)) (i + 1) v1 s1 =
      Some (Inr ((\<lparr>hdr_num = of_nat (length (xs @ [h]) + length fs), headers = v_data w\<rparr>, w), t)) \<and>
    holds t w ((xs @ [h]) @ positions (h + of_nat (file_span f)) fs) \<and> hhdm_off t = hhdm_off s1 \<and>
    pmm.more t = pmm.more s1 \<and> (\<forall>q. bystander s1 v1 q \<longrightarrow> bystander t w q \<and> pmem t q = pmem s1 q)"
    using Cons.prems p(2) fs1 k(1)
    by (intro Cons.IH [where d = "d + file_span f"]) (simp_all add: ac_simps)
  moreover have "parse_loop header fsize h i v s = parse_loop header fsize (h + of_nat (file_span f)) (i + 1) v1 s1"
    using first inside next_header_file [OF f] p(1)
    by (subst parse_loop.simps) (simp add: field_def)
  ultimately show ?case using p(3-5) by auto
qed


section \<open>Looking up a name\<close>

text \<open>The first file with the name, and the address of its header.\<close>

primrec tar_find :: "ptr \<Rightarrow> tfile list \<Rightarrow> u8 list \<Rightarrow> (ptr \<times> u8 list) option" where
  "tar_find h [] nm = None"
| "tar_find h (f # fs) nm = (if fst f = nm then Some (h, snd f) else tar_find (h + of_nat (file_span f)) fs nm)"

lemma tar_find_map_of: "map_option snd (tar_find h fs nm) = map_of fs nm"
  by (induction fs arbitrary: h) auto

lemma tar_find_at:
  "tar_at s h fs \<Longrightarrow> tar_find h fs nm = Some (p, bs) \<Longrightarrow> file_at s p (nm, bs)"
  by (induction fs arbitrary: h) (auto split: if_splits)

lemma tar_find_offset:
  "tar_find h fs nm = Some (p, bs) \<Longrightarrow> \<exists>k. p = h + of_nat k \<and> k + file_span (nm, bs) \<le> tar_len fs"
proof (induction fs arbitrary: h)
  case (Cons f fs)
  show ?case
  proof (cases "fst f = nm")
    case True
    then show ?thesis using Cons.prems by (intro exI [of _ 0]) (auto simp: file_span_def)
  next
    case False
    then obtain k where "p = h + of_nat (file_span f) + of_nat k" "k + file_span (nm, bs) \<le> tar_len fs"
      using Cons.IH [of "h + of_nat (file_span f)"] Cons.prems by auto
    then show ?thesis by (intro exI [of _ "file_span f + k"]) (simp add: add.assoc)
  qed
qed simp

text \<open>\<open>find_file\<close> over the table of the addresses of the headers.\<close>

lemma find_loop_archive:
  assumes "\<forall>k < length fs. load64 s (hdrs + 8 * (i + of_nat k)) = positions h fs ! k"
    "tar_at s h fs" "cstr s name nm"
  shows "find_loop s hdrs name (length fs) i = Some (case tar_find h fs nm of None \<Rightarrow> NULL | Some (p, bs) \<Rightarrow> p)"
  using assms
proof (induction fs arbitrary: h i)
  case (Cons f fs)
  have hd: "load64 s (hdrs + 8 * i) = h" using Cons.prems(1) by auto
  have "strcmp s h name = Some (str_order (fst f) nm)"
    using Cons.prems(2,3) by (intro strcmp_cstr) (simp_all add: file_at_def)
  moreover have "\<forall>k < length fs. load64 s (hdrs + 8 * ((i + 1) + of_nat k)) = positions (h + of_nat (file_span f)) fs ! k"
  proof (intro allI impI)
    fix k assume "k < length fs"
    then show "load64 s (hdrs + 8 * ((i + 1) + of_nat k)) = positions (h + of_nat (file_span f)) fs ! k"
      using Cons.prems(1) [rule_format, of "Suc k"] by (simp add: add.assoc)
  qed
  ultimately show ?case
    using Cons.IH [of "i + 1" "h + of_nat (file_span f)"] Cons.prems(2,3) hd by (simp add: field_def Let_def)
qed simp

definition headers_ok :: "'z pmm_scheme \<Rightarrow> tar_contents \<Rightarrow> ptr list \<Rightarrow> bool" where
  "headers_ok s c ps \<longleftrightarrow> length ps \<le> 252 \<and> hdr_num c = of_nat (length ps) \<and>
     (\<forall>k < length ps. load64 s (headers c + 8 * of_nat k) = ps ! k)"

lemma find_file_archive:
  assumes "headers_ok s c (positions h fs)" "tar_at s h fs" "cstr s name nm"
  shows "find_file s c name = Some (case tar_find h fs nm of None \<Rightarrow> NULL | Some (p, bs) \<Rightarrow> p)"
proof -
  have "unat (hdr_num c) = length fs"
    using assms(1) by (simp add: headers_ok_def unat_of_nat take_bit_nat_eq_self)
  then show ?thesis
    using find_loop_archive [of fs s "headers c" 0 h name nm] assms by (simp add: find_file_def headers_ok_def)
qed


lemma holds_headers:
  assumes "holds s v ps"
  shows "headers_ok s \<lparr>hdr_num = of_nat (length ps), headers = v_data v\<rparr> ps"
  using holds_length [OF assms] vector_at_nth [OF assms] by (simp add: headers_ok_def vector_at_def)

section \<open>The bitmap stays where it is\<close>

lemma parse_loop_same:
  assumes "parse_loop h n x i v s = Some r" "pmm_ok s" "r = Inr (c, t)"
  shows "pmm_same s t"
  using assms
proof (induction arbitrary: c t rule: parse_loop.raw_induct [rotated, consumes 1, case_names step])
  case (step pl h n x i v s r)
  show ?case
  proof (cases "load8 s (field tar_header ''filename'' x) = 0 \<or> x - h \<ge> n")
    case True
    then show ?thesis using step.prems step.hyps by (auto simp: Let_def)
  next
    case False
    then obtain w u where p: "vector_push_back x v s = Inr (w, u)" "pl h n (next_header s x) (i + 1) w u = Some r"
      using step.prems step.hyps by (auto simp: Let_def split: sum.splits)
    note sm = vector_push_back_same [OF step.prems(1) p(1)]
    have "pmm_same u t" using step.IH [OF p(2) _ step.prems(2)] pmm_same_ok [OF sm] step.prems(1) by simp
    then show ?thesis by (rule pmm_same_trans [OF sm])
  qed
qed

lemma parse_tar_same:
  assumes "parse_tar h n s = Some (Inr (c, t))" "pmm_ok s"
  shows "pmm_same s t"
proof -
  obtain v u where v: "vector_init s = Inr (v, u)" "parse_loop h n h 0 v u = Some (Inr (c, t))"
    using assms(1) by (auto simp: parse_tar_def split: sum.splits)
  note sm = vector_init_same [OF assms(2) v(1)]
  have "pmm_same u t" using parse_loop_same [OF v(2) _ refl] pmm_same_ok [OF sm] assms(2) by simp
  then show ?thesis by (rule pmm_same_trans [OF sm])
qed

section \<open>Properties\<close>

text \<open>Used memory apart from the bitmap: no allocation touches it.\<close>

definition settled :: "'z pmm_scheme \<Rightarrow> u64 \<Rightarrow> bool" where
  "settled s q \<longleftrightarrow> q \<notin> bmp_region (page_bmp s) s \<and> frame q \<in> used_frames s"

lemma parse_tar_archive:
  assumes "heap_ok s" "first_free s \<noteq> None" "tar_at s header fs" "length fs \<le> 252" "tar_len fs \<le> unat fsize"
    "in_used s header (Suc (tar_len fs))"
  shows "\<exists>c v t. parse_tar header fsize s = Some (Inr ((c, v), t)) \<and> heap_ok t \<and> tar_at t header fs \<and>
    headers_ok t c (positions header fs) \<and> hdr_num c = of_nat (length fs) \<and>
    (\<exists>pt. span (hhdm_off t) (headers c) (8 * length fs) pt \<and>
       (\<forall>q \<in> prange pt (8 * length fs). settled t q \<and> \<not> settled s q)) \<and>
    hhdm_off t = hhdm_off s \<and> pmm.more t = pmm.more s \<and>
    (\<forall>q. settled s q \<longrightarrow> settled t q \<and> pmem t q = pmem s q)"
proof -
  obtain v s1 where i: "vector_init s = Inr (v, s1)" "holds s1 v []" "pmm.more s1 = pmm.more s" "hhdm_off s1 = hhdm_off s"
    and by_s1: "\<And>q. q \<notin> bmp_region (page_bmp s) s \<Longrightarrow> frame q \<in> used_frames s \<Longrightarrow> bystander s1 v q \<and> pmem s1 q = pmem s q"
    using vector_init_holds [OF assms(1,2)] by metis
  have ap: "apart s1 v header (Suc (tar_len fs))" and ag: "agree s s1 header (Suc (tar_len fs))"
    using assms(6) by_s1 i(4) by (auto simp: apart_def in_used_def agree_def load8_def)
  have "\<exists>w t. parse_loop header fsize header 0 v s1 =
      Some (Inr ((\<lparr>hdr_num = of_nat (length ([] :: ptr list) + length fs), headers = v_data w\<rparr>, w), t)) \<and>
    holds t w ([] @ positions header fs) \<and> hhdm_off t = hhdm_off s1 \<and> pmm.more t = pmm.more s1 \<and>
    (\<forall>q. bystander s1 v q \<longrightarrow> bystander t w q \<and> pmem t q = pmem s1 q)"
    by (rule parse_loop_archive [where d = 0]) (use i tar_at_agree [OF assms(3) ag] assms ap in simp_all)
  then obtain w t where r: "parse_loop header fsize header 0 v s1 =
      Some (Inr ((\<lparr>hdr_num = of_nat (length fs), headers = v_data w\<rparr>, w), t))"
    "holds t w (positions header fs)" "hhdm_off t = hhdm_off s1" "pmm.more t = pmm.more s1"
    "\<And>q. bystander s1 v q \<Longrightarrow> bystander t w q \<and> pmem t q = pmem s1 q" by auto
  have "agree s1 t header (Suc (tar_len fs))" by (rule apart_kept(2) [OF ap r(3,5)])
  then have "tar_at t header fs" using tar_at_agree [OF assms(3) agree_trans [OF ag]] by blast
  moreover have "headers_ok t \<lparr>hdr_num = of_nat (length fs), headers = v_data w\<rparr> (positions header fs)"
    using holds_headers [OF r(2)] by simp
  moreover have "\<exists>pt. span (hhdm_off t) (v_data w) (8 * length fs) pt \<and>
      (\<forall>q \<in> prange pt (8 * length fs). settled t q \<and> \<not> settled s q)"
  proof (intro exI conjI ballI)
    have h: "heap_ok t" "page_block t (v_data w) (unat (v_cap w))" "8 * length fs \<le> unat (v_cap w)"
      using r(2) by (auto simp: holds_def)
    show "span (hhdm_off t) (v_data w) (8 * length fs) (base t (v_data w) + 8)"
      by (rule span_mono [OF page_block_facts(4) [OF h(1,2)] h(3)])
    fix q assume "q \<in> prange (base t (v_data w) + 8) (8 * length fs)"
    then have "q \<in> prange (base t (v_data w) + 8) (unat (v_cap w))" using h(3) by (auto simp: prange_def)
    then have "frame q = page_of t (v_data w)" using frame_in_block [OF h(1,2)] by blast
    then have "\<not> bystander t w q" by (simp add: bystander_def)
    then show "\<not> settled s q" using by_s1 r(5) unfolding settled_def by blast
    note f = page_block_facts [OF h(1,2)]
    show "settled t q" using \<open>frame q = page_of t (v_data w)\<close> f(3) f(10) [of q] by (auto simp: settled_def)
  qed
  moreover have "settled t q \<and> pmem t q = pmem s q" if "settled s q" for q
    using that r(5) by_s1 by (simp add: settled_def bystander_def)
  ultimately show ?thesis using i r by (simp add: parse_tar_def holds_def)
qed

text \<open>
  C20. The archive of the initial RAM disk, with up to 252 files: \<open>parse_tar\<close> returns, however long
  the files are, leaves the archive as it is, counts the files, and afterwards \<open>find_file\<close> returns,
  for every name, the header of the first file with that name, or \<open>NULL\<close> if there is none.
\<close>

theorem parse_tar_spec:
  assumes "heap_ok s" "first_free s \<noteq> None" "tar_at s header fs" "length fs \<le> 252" "tar_len fs \<le> unat fsize"
    "in_used s header (Suc (tar_len fs))"
  shows "\<exists>c v t. parse_tar header fsize s = Some (Inr ((c, v), t)) \<and> heap_ok t \<and> tar_at t header fs \<and>
    hdr_num c = of_nat (length fs) \<and>
    (\<forall>name nm. cstr t name nm \<longrightarrow>
       find_file t c name = Some (case tar_find header fs nm of None \<Rightarrow> NULL | Some (p, bs) \<Rightarrow> p))"
  using parse_tar_archive [OF assms] find_file_archive by blast

text \<open>A machine with an archive of one file of two bytes in frame 3.\<close>

definition archive_mem :: "u64 \<Rightarrow> u8" where
  "archive_mem = bytes_at 0x3000 [97] (bytes_at 0x307C [48, 48, 48, 48, 48, 48, 48, 48, 48, 48, 50]
     (bytes_at 0x3200 [65, 66] (sample_mem 0x0F)))"

definition sample_archive :: "'z \<Rightarrow> 'z pmm_scheme" where
  "sample_archive x = (sample x)\<lparr>pmem := archive_mem\<rparr>"


lemma sample_archive_fields:
  "pmem (sample_archive x) = archive_mem" "hhdm_off (sample_archive x) = 0xFFFF800000000000"
  "page_bmp (sample_archive x) = \<lparr>bm_size = 4096, bm_buffer = 0x1000\<rparr>"
  by (simp_all add: sample_archive_def sample_def)

lemma sample_bmp_region: "bmp_region (page_bmp (sample x)) (sample x) = prange 0x1000 4096"
  using bmp_region_span [where s = "sample x" and bm = "page_bmp (sample x)" and p = "0x1000"]
    span_mono [OF sample_span [of "0x0F" x], of 4096] by (simp add: sample_def)

lemma archive_mem_other: "unat q < 0x3000 \<Longrightarrow> archive_mem q = sample_mem 0x0F q"
proof -
  assume q: "unat q < 0x3000"
  have far: "unat (q - of_nat a) \<ge> 2048" if "0x3000 \<le> a" "a < 0x4000" for a
  proof -
    have "unat (of_nat a :: u64) = a" using that by (intro unat_of_nat_u64) simp
    then have "unat (q - of_nat a) = 18446744073709551616 + unat q - a"
      using that q by (simp add: unat_sub_if_size word_size word_le_nat_alt)
    then show ?thesis using that by simp
  qed
  have "unat (q - 0x3000) \<ge> 2048" "unat (q - 0x307C) \<ge> 2048" "unat (q - 0x3200) \<ge> 2048"
    using far [of "0x3000"] far [of "0x307C"] far [of "0x3200"] by simp_all
  then show ?thesis by (simp add: archive_mem_def bytes_at_def)
qed

lemma sample_archive_data: "data_write (sample x) (sample_archive x)"
  unfolding data_write_def sample_bmp_region
  using archive_mem_other by (auto simp: sample_archive_def sample_def prange_def)

lemma sample_archive_heap:
  "heap_ok (sample_archive x)" "first_free (sample_archive x) = Some 4" "used_frames (sample_archive x) = {0, 1, 2, 3}"
proof -
  have "pmm_inv (sample x)" using sample_heap_ok [of x] by (simp add: heap_ok_def)
  from data_write_facts [OF sample_archive_data this]
  show "heap_ok (sample_archive x)" "first_free (sample_archive x) = Some 4" "used_frames (sample_archive x) = {0, 1, 2, 3}"
    by (simp_all add: sample_heap_ok sample_first_free sample_used_frames)
qed

lemma sample_archive_load: "unat a < 0x8000 \<Longrightarrow> load8 (sample_archive x) a = archive_mem a"
  by (simp add: load8_def sample_archive_fields v2p_def word_less_nat_alt)

lemma sample_archive_tar: "tar_at (sample_archive x) 0x3000 [([97], [65, 66])]"
proof -
  have "load_bytes (sample_archive x) 0x307C 11 = [48, 48, 48, 48, 48, 48, 48, 48, 48, 48, 50]"
  proof -
    have "(11 :: nat) = Suc (Suc (Suc (Suc (Suc (Suc (Suc (Suc (Suc (Suc (Suc 0))))))))))" by simp
    then show ?thesis
      by (simp only: load_bytes.simps) (simp add: sample_archive_load archive_mem_def bytes_at_def)
  qed
  then have "size_field (sample_archive x) 0x307C (Suc (Suc 0))"
    by (simp add: size_field_def is_octal_def digits_value_def)
  moreover have "load_bytes (sample_archive x) 0x3200 (Suc (Suc 0)) = [65, 66]"
    by (simp add: sample_archive_load archive_mem_def bytes_at_def)
  moreover have "cstr (sample_archive x) 0x3000 [97]" "load8 (sample_archive x) 0x3400 = 0"
    by (simp_all add: sample_archive_load archive_mem_def bytes_at_def sample_mem_def)
  ultimately show ?thesis by (simp add: file_at_def file_span_def)
qed

lemma sample_archive_used: "in_used (sample_archive x) 0x3000 (Suc (tar_len [([97], [65, 66])]))"
proof -
  have "v2p (hhdm_off (sample_archive x)) (0x3000 + of_nat i) \<notin> bmp_region (page_bmp (sample_archive x)) (sample_archive x) \<and>
      frame (v2p (hhdm_off (sample_archive x)) (0x3000 + of_nat i)) = 3" if "i < 1025" for i
  proof -
    have u: "unat (0x3000 + of_nat i :: u64) = 0x3000 + i" using that by (subst unat_add_of_nat) simp_all
    have "bmp_region (page_bmp (sample_archive x)) (sample_archive x) = prange 0x1000 4096"
      using sample_bmp_region [of x] bmp_region_cong [of "sample_archive x" "sample x"]
      by (simp add: sample_archive_def)
    then show ?thesis
      using u that by (simp add: sample_archive_fields v2p_def word_less_nat_alt prange_def frame_def div_nat_eqI)
  qed
  then show ?thesis
    unfolding in_used_def by (simp add: file_span_def sample_archive_heap)
qed

theorem parse_tar_spec_witness:
  "\<exists>c v t. parse_tar 0x3000 2048 (sample_archive ()) = Some (Inr ((c, v), t)) \<and> heap_ok t \<and>
    hdr_num c = 1 \<and> find_file t c 0x3000 = Some 0x3000"
proof -
  have "\<exists>c v t. parse_tar 0x3000 2048 (sample_archive ()) = Some (Inr ((c, v), t)) \<and> heap_ok t \<and>
      tar_at t 0x3000 [([97], [65, 66])] \<and> hdr_num c = of_nat (length [([97 :: u8], [65 :: u8, 66])]) \<and>
      (\<forall>name nm. cstr t name nm \<longrightarrow> find_file t c name =
         Some (case tar_find 0x3000 [([97], [65, 66])] nm of None \<Rightarrow> NULL | Some (p, bs) \<Rightarrow> p))"
    by (rule parse_tar_spec [OF sample_archive_heap(1) _ sample_archive_tar _ _ sample_archive_used])
      (simp_all add: sample_archive_heap file_span_def)
  then obtain c v t where r: "parse_tar 0x3000 2048 (sample_archive ()) = Some (Inr ((c, v), t))" "heap_ok t"
    "tar_at t 0x3000 [([97], [65, 66])]" "hdr_num c = 1"
    "\<And>name nm. cstr t name nm \<Longrightarrow> find_file t c name =
       Some (case tar_find 0x3000 [([97], [65, 66])] nm of None \<Rightarrow> NULL | Some (p, bs) \<Rightarrow> p)" by auto
  have "cstr t 0x3000 [97]" using r(3) by (simp add: file_at_def)
  then show ?thesis using r(1,2,4) r(5) [of "0x3000" "[97]"] by simp
qed

end
