(* ===== verification/Siv.thy ===== *)
theory Siv
  imports Keyboard Tar
begin

text \<open>
  Files: the drive and driver tables and the open files of \<open>core/sys/resman/SIV.c\<close>, and the one
  driver there is, \<open>drivers/filesys/tar.c\<close>. A \<open>block_driver_t\<close> is a structure of function
  pointers; the only values it has are all zero and the functions of the archive driver, which
  \<open>driver_ops\<close> names. A call through a null pointer is \<open>Oob\<close>. The outer option is the
  termination of the string loops.
\<close>

section \<open>State\<close>

record file_t =
  f_drive_id :: u16
  f_name :: ptr
  full_path :: ptr
  f_size :: u64
  isdir :: bool
  created :: u64
  last_modified :: u64
  last_accessed :: u64
  owner_id :: u64
  group_id :: u64
  perms :: u16

definition zero_file :: file_t where
  "zero_file = \<lparr>f_drive_id = 0, f_name = NULL, full_path = NULL, f_size = 0, isdir = False, created = 0,
     last_modified = 0, last_accessed = 0, owner_id = 0, group_id = 0, perms = 0\<rparr>"

datatype driver_ops = null_ops | tar_ops

record block_driver_t =
  is_virtual :: bool
  ops :: driver_ops

record siv_drive_t =
  sig :: "u8 list"
  driver_id :: u16
  driver_specific_data :: ptr

definition zero_driver :: block_driver_t where
  "zero_driver = \<lparr>is_virtual = False, ops = null_ops\<rparr>"

definition zero_drive :: siv_drive_t where
  "zero_drive = \<lparr>sig = [0, 0, 0, 0], driver_id = 0, driver_specific_data = NULL\<rparr>"

text \<open>
  \<open>empty_string\<close> is the address of the literal the archive driver uses as a name, \<open>initramfs\<close> the
  address and size of the module the boot loader passed.
\<close>

record fsstate = kbstate +
  siv_drives :: "siv_drive_t list"
  siv_num_drives :: u16
  siv_drivers :: "block_driver_t list"
  siv_num_drivers :: u16
  open_files :: "file_t list"
  open_file_contents :: "ptr list"
  siv_num_open_files :: u32
  tar_drive_id :: u16
  contents :: tar_contents
  tar_headers :: vec
  initramfs :: "(ptr \<times> u64) option"
  empty_string :: ptr

abbreviation (input) MAX_OPEN_FILES :: nat where "MAX_OPEN_FILES \<equiv> 64"
abbreviation (input) MAX_DRIVES :: nat where "MAX_DRIVES \<equiv> 64"
abbreviation (input) MAX_DRIVERS :: nat where "MAX_DRIVERS \<equiv> 8"
abbreviation (input) SIV_FLAGS_CACHE :: u8 where "SIV_FLAGS_CACHE \<equiv> 1"
abbreviation (input) SIV_FLAGS_FORCE_PRELOAD :: u8 where "SIV_FLAGS_FORCE_PRELOAD \<equiv> 2"

definition and_then :: "('a, 's) result option \<Rightarrow> ('a \<Rightarrow> 's \<Rightarrow> ('b, 't) result option) \<Rightarrow> ('b, 't) result option" where
  "and_then m f = (case m of None \<Rightarrow> None | Some (Inl e) \<Rightarrow> Some (Inl e) | Some (Inr (x, s)) \<Rightarrow> f x s)"

lemma and_then_simps [simp]:
  "and_then None f = None" "and_then (Some (Inl e)) f = Some (Inl e)" "and_then (Some (Inr (x, s))) f = f x s"
  by (simp_all add: and_then_def)

lemma and_then_Inr_iff: "and_then m f = Some (Inr r) \<longleftrightarrow> (\<exists>x s. m = Some (Inr (x, s)) \<and> f x s = Some (Inr r))"
  by (auto simp: and_then_def split: option.splits sum.splits prod.splits)

section \<open>The archive driver\<close>

definition tar_get_props :: "ptr \<Rightarrow> ptr \<Rightarrow> 'z fsstate_scheme \<Rightarrow> file_t option" where
  "tar_get_props dsd path s =
     map_option (\<lambda>header.
       if header = NULL then zero_file
       else \<lparr>f_drive_id = tar_drive_id s, f_name = empty_string s, full_path = path,
         f_size = ucast (parse_size s (field tar_header ''size'' header)),
         isdir = (load8 s (field tar_header ''typeflag'' header) = 0x35), created = 0,
         last_modified = ucast (parse_size s (field tar_header ''mtime'' header)), last_accessed = 0,
         owner_id = ucast (parse_size s (field tar_header ''UID'' header)),
         group_id = ucast (parse_size s (field tar_header ''GID'' header)),
         perms = 0b0000111111111111\<rparr>)
     (find_file s (contents s) path)"

text \<open>The byte count: no more than the file, whatever the offset.\<close>

definition tar_count :: "'z machine_scheme \<Rightarrow> ptr \<Rightarrow> u32 \<Rightarrow> usize" where
  "tar_count s thdr n =
     (let fsize = ucast (parse_size s (field tar_header ''size'' thdr)) in if ucast n > fsize then fsize else ucast n)"

definition tar_read :: "ptr \<Rightarrow> ptr \<Rightarrow> u32 \<Rightarrow> ptr \<Rightarrow> u32 \<Rightarrow> 'z fsstate_scheme \<Rightarrow> 'z fsstate_scheme option" where
  "tar_read dsd path offset buffer n s =
     map_option (\<lambda>thdr. memcpy buffer (thdr + 512 + ucast offset) (tar_count s thdr n) s)
       (find_file s (contents s) path)"

definition tar_write :: "ptr \<Rightarrow> ptr \<Rightarrow> u32 \<Rightarrow> ptr \<Rightarrow> u32 \<Rightarrow> 'z fsstate_scheme \<Rightarrow> 'z fsstate_scheme option" where
  "tar_write dsd path offset buffer n s =
     map_option (\<lambda>thdr. memcpy (thdr + 512 + ucast offset) buffer (tar_count s thdr n) s)
       (find_file s (contents s) path)"

text \<open>Calls through the pointers of a driver.\<close>

definition call_get_props :: "driver_ops \<Rightarrow> ptr \<Rightarrow> ptr \<Rightarrow> 'z fsstate_scheme \<Rightarrow> (file_t, 'z fsstate_scheme) result option" where
  "call_get_props d dsd path s =
     (case d of null_ops \<Rightarrow> Some (Inl Oob) | tar_ops \<Rightarrow> map_option (\<lambda>f. Inr (f, s)) (tar_get_props dsd path s))"

definition call_read ::
    "driver_ops \<Rightarrow> ptr \<Rightarrow> ptr \<Rightarrow> u32 \<Rightarrow> ptr \<Rightarrow> u32 \<Rightarrow> 'z fsstate_scheme \<Rightarrow> (unit, 'z fsstate_scheme) result option" where
  "call_read d dsd path offset buf n s =
     (case d of null_ops \<Rightarrow> Some (Inl Oob) | tar_ops \<Rightarrow> map_option (\<lambda>s. Inr ((), s)) (tar_read dsd path offset buf n s))"

definition call_write ::
    "driver_ops \<Rightarrow> ptr \<Rightarrow> ptr \<Rightarrow> u32 \<Rightarrow> ptr \<Rightarrow> u32 \<Rightarrow> 'z fsstate_scheme \<Rightarrow> (unit, 'z fsstate_scheme) result option" where
  "call_write d dsd path offset buf n s =
     (case d of null_ops \<Rightarrow> Some (Inl Oob) | tar_ops \<Rightarrow> map_option (\<lambda>s. Inr ((), s)) (tar_write dsd path offset buf n s))"

section \<open>SIV.c\<close>

definition siv_init :: "'z fsstate_scheme \<Rightarrow> 'z fsstate_scheme" where
  "siv_init s = s\<lparr>siv_drives := replicate MAX_DRIVES zero_drive, siv_drivers := replicate MAX_DRIVERS zero_driver\<rparr>"

definition siv_register_drive :: "siv_drive_t \<Rightarrow> 'z fsstate_scheme \<Rightarrow> (u16, 'z fsstate_scheme) result" where
  "siv_register_drive drive s =
     (if unat (siv_num_drives s) < length (siv_drives s) then
        let s = s\<lparr>siv_drives := (siv_drives s)[unat (siv_num_drives s) := drive]\<rparr>;
            s = s\<lparr>siv_num_drives := siv_num_drives s + 1\<rparr>
        in Inr (siv_num_drives s - 1, s)
      else Inl Oob)"

definition siv_register_driver :: "block_driver_t \<Rightarrow> 'z fsstate_scheme \<Rightarrow> (u16, 'z fsstate_scheme) result" where
  "siv_register_driver driver s =
     (if unat (siv_num_drivers s) < length (siv_drivers s) then
        let s = s\<lparr>siv_drivers := (siv_drivers s)[unat (siv_num_drivers s) := driver]\<rparr>;
            s = s\<lparr>siv_num_drivers := siv_num_drivers s + 1\<rparr>
        in Inr (siv_num_drivers s - 1, s)
      else Inl Oob)"

text \<open>Reading and writing the tables: outside them is \<open>Oob\<close>.\<close>

definition drive_driver :: "nat \<Rightarrow> 'z fsstate_scheme \<Rightarrow> (siv_drive_t \<times> block_driver_t) option" where
  "drive_driver i s =
     (if i < length (siv_drives s) \<and> unat (driver_id (siv_drives s ! i)) < length (siv_drivers s)
      then Some (siv_drives s ! i, siv_drivers s ! unat (driver_id (siv_drives s ! i))) else None)"

definition set_open_file :: "u32 \<Rightarrow> file_t \<Rightarrow> 'z fsstate_scheme \<Rightarrow> (unit, 'z fsstate_scheme) result" where
  "set_open_file fd f s =
     (if unat fd < length (open_files s) then Inr ((), s\<lparr>open_files := (open_files s)[unat fd := f]\<rparr>) else Inl Oob)"

definition set_contents :: "u32 \<Rightarrow> ptr \<Rightarrow> 'z fsstate_scheme \<Rightarrow> (unit, 'z fsstate_scheme) result" where
  "set_contents fd p s =
     (if unat fd < length (open_file_contents s)
      then Inr ((), s\<lparr>open_file_contents := (open_file_contents s)[unat fd := p]\<rparr>) else Inl Oob)"

definition siv_open :: "u32 \<Rightarrow> ptr \<Rightarrow> u8 \<Rightarrow> 'z fsstate_scheme \<Rightarrow> (u32, 'z fsstate_scheme) result option" where
  "siv_open drive_id path flags s =
     (case drive_driver (unat drive_id) s of
        None \<Rightarrow> Some (Inl Oob)
      | Some (drive, driver) \<Rightarrow>
          let file_desc = siv_num_open_files s;
              s = s\<lparr>siv_num_open_files := siv_num_open_files s + 1\<rparr> in
          and_then (call_get_props (ops driver) (driver_specific_data drive) path s) (\<lambda>f s.
          and_then (Some (set_open_file file_desc f s)) (\<lambda>_ s.
            if f_size f = 0 \<and> full_path f = NULL \<or> isdir f then
              Some (then_do (set_open_file file_desc zero_file s) (\<lambda>_ s. Inr (UINT32_MAX, s)))
            else if \<not> is_virtual driver \<and> flags AND SIV_FLAGS_CACHE \<noteq> 0 \<or> flags AND SIV_FLAGS_FORCE_PRELOAD \<noteq> 0 then
              and_then (Some (malloc (f_size f) s)) (\<lambda>p s.
              and_then (Some (set_contents file_desc p s)) (\<lambda>_ s.
              and_then (call_read (ops driver) (driver_specific_data drive) path 0 p (ucast (f_size f)) s) (\<lambda>_ s.
                Some (Inr (file_desc, s)))))
            else Some (Inr (file_desc, s)))))"

definition siv_close :: "u32 \<Rightarrow> 'z fsstate_scheme \<Rightarrow> (unit, 'z fsstate_scheme) result" where
  "siv_close fd s =
     (if unat fd < length (open_file_contents s) then
        then_do
          (if open_file_contents s ! unat fd \<noteq> NULL
           then set_contents fd NULL (free (open_file_contents s ! unat fd) s) else Inr ((), s))
          (\<lambda>_ s. set_open_file fd zero_file s)
      else Inl Oob)"

definition siv_get_file :: "u32 \<Rightarrow> 'z fsstate_scheme \<Rightarrow> file_t option" where
  "siv_get_file fd s = (if unat fd < length (open_files s) then Some (open_files s ! unat fd) else None)"

text \<open>An access through an open file that the contents are not kept of.\<close>

definition with_driver ::
    "(driver_ops \<Rightarrow> ptr \<Rightarrow> ptr \<Rightarrow> 'z fsstate_scheme \<Rightarrow> (unit, 'z fsstate_scheme) result option) \<Rightarrow>
     u32 \<Rightarrow> 'z fsstate_scheme \<Rightarrow> (unit, 'z fsstate_scheme) result option" where
  "with_driver access fd s =
     (case siv_get_file fd s of
        None \<Rightarrow> Some (Inl Oob)
      | Some f \<Rightarrow> (case drive_driver (unat (f_drive_id f)) s of
          None \<Rightarrow> Some (Inl Oob)
        | Some (drive, driver) \<Rightarrow> access (ops driver) (driver_specific_data drive) (full_path f) s))"

definition siv_read :: "u32 \<Rightarrow> u32 \<Rightarrow> ptr \<Rightarrow> u32 \<Rightarrow> 'z fsstate_scheme \<Rightarrow> (unit, 'z fsstate_scheme) result option" where
  "siv_read fd offset buf n s =
     (if \<not> unat fd < length (open_file_contents s) then Some (Inl Oob)
      else if open_file_contents s ! unat fd \<noteq> NULL
      then Some (Inr ((), memcpy buf (open_file_contents s ! unat fd + ucast offset) (ucast n) s))
      else with_driver (\<lambda>d dsd path. call_read d dsd path offset buf n) fd s)"

definition siv_write :: "u32 \<Rightarrow> u32 \<Rightarrow> ptr \<Rightarrow> u32 \<Rightarrow> 'z fsstate_scheme \<Rightarrow> (unit, 'z fsstate_scheme) result option" where
  "siv_write fd offset data n s = with_driver (\<lambda>d dsd path. call_write d dsd path offset data n) fd s"

section \<open>tar_init\<close>

definition tar_init :: "'z fsstate_scheme \<Rightarrow> (unit, 'z fsstate_scheme) result option" where
  "tar_init s =
     (case initramfs s of
        None \<Rightarrow> Some (Inr ((), s))
      | Some (address, n) \<Rightarrow>
          and_then (parse_tar address n s) (\<lambda>(c, v) s.
            let s = s\<lparr>contents := c, tar_headers := v\<rparr> in
            Some
              (then_do (siv_register_driver \<lparr>is_virtual = True, ops = tar_ops\<rparr> s) (\<lambda>id s.
               then_do (siv_register_drive \<lparr>sig = lit ''INRD'', driver_id = id, driver_specific_data = NULL\<rparr> s) (\<lambda>d s.
                 Inr ((), s\<lparr>tar_drive_id := d\<rparr>))))))"


section \<open>The archive driver as a source of files\<close>

text \<open>The archive \<open>fs\<close> at \<open>h\<close> is the one the driver's table describes.\<close>

definition mounted :: "ptr \<Rightarrow> u64 \<Rightarrow> u64 \<Rightarrow> tfile list \<Rightarrow> 'z fsstate_scheme \<Rightarrow> bool" where
  "mounted h ph pt fs s \<longleftrightarrow> tar_at s h fs \<and> span (hhdm_off s) h (Suc (tar_len fs)) ph \<and> h \<noteq> NULL \<and>
     unat h + tar_len fs < 2 ^ 64 \<and> headers_ok s (contents s) (positions h fs) \<and>
     span (hhdm_off s) (headers (contents s)) (8 * length fs) pt"

definition named :: "ptr \<Rightarrow> u64 \<Rightarrow> u8 list \<Rightarrow> 'z machine_scheme \<Rightarrow> bool" where
  "named path pp nm s \<longleftrightarrow> cstr s path nm \<and> span (hhdm_off s) path (Suc (length nm)) pp"

definition fs_bytes :: "u64 \<Rightarrow> u64 \<Rightarrow> tfile list \<Rightarrow> u64 \<Rightarrow> u8 list \<Rightarrow> u64 set" where
  "fs_bytes ph pt fs pp nm = prange ph (Suc (tar_len fs)) \<union> prange pt (8 * length fs) \<union> prange pp (Suc (length nm))"

definition fs_room :: "u64 \<Rightarrow> u64 \<Rightarrow> tfile list \<Rightarrow> u64 \<Rightarrow> u8 list \<Rightarrow> 'z machine_scheme \<Rightarrow> ptr \<Rightarrow> nat \<Rightarrow> bool" where
  "fs_room ph pt fs pp nm s b n \<longleftrightarrow>
     (\<exists>p. span (hhdm_off s) b n p \<and> prange p n \<inter> fs_bytes ph pt fs pp nm = {})"

definition tar_has :: "ptr \<Rightarrow> u64 \<Rightarrow> u64 \<Rightarrow> tfile list \<Rightarrow> ptr \<Rightarrow> u64 \<Rightarrow> u8 list \<Rightarrow> 'z fsstate_scheme \<Rightarrow> u8 list \<Rightarrow> bool" where
  "tar_has h ph pt fs path pp nm s bs \<longleftrightarrow> mounted h ph pt fs s \<and> named path pp nm s \<and> map_of fs nm = Some bs"

lemma span_agree:
  assumes "span (hhdm_off s) a n p" "hhdm_off t = hhdm_off s" "\<And>q. q \<in> prange p n \<Longrightarrow> pmem t q = pmem s q"
  shows "agree s t a n"
proof -
  have "pmem t (p + of_nat i) = pmem s (p + of_nat i)" if "i < n" for i
    using assms(3) prange_offset [OF that span_bound [OF assms(1)]] by blast
  then show ?thesis using assms(1,2) by (simp add: agree_def load8_def span_def)
qed

text \<open>A change of memory outside the bytes the driver uses.\<close>

lemma tar_has_keep:
  fixes s t :: "'z fsstate_scheme"
  assumes "tar_has h ph pt fs path pp nm s bs" "hhdm_off t = hhdm_off s" "contents t = contents s"
    and "\<And>q. q \<in> fs_bytes ph pt fs pp nm \<Longrightarrow> pmem t q = pmem s q"
  shows "tar_has h ph pt fs path pp nm t bs"
proof -
  have m: "tar_at s h fs" "span (hhdm_off s) h (Suc (tar_len fs)) ph" "headers_ok s (contents s) (positions h fs)"
    "span (hhdm_off s) (headers (contents s)) (8 * length fs) pt" "cstr s path nm"
    "span (hhdm_off s) path (Suc (length nm)) pp"
    using assms(1) by (auto simp: tar_has_def mounted_def named_def)
  have "tar_at t h fs"
    using tar_at_agree [OF m(1) span_agree [OF m(2) assms(2)]] assms(4) by (simp add: fs_bytes_def)
  moreover have "cstr t path nm"
    using agree_load_bytes [OF span_agree [OF m(6) assms(2)], of 0 "Suc (length nm)"] assms(4) cstr_cong [OF m(5)]
    by (simp add: fs_bytes_def del: load_bytes.simps)
  moreover have "load64 t (headers (contents s) + 8 * of_nat k) = load64 s (headers (contents s) + 8 * of_nat k)"
    if "k < length fs" for k
    using agree_load_bytes [OF span_agree [OF m(4) assms(2)], of "8 * k" 8] assms(4) that
    by (simp add: fs_bytes_def load64_def)
  ultimately show ?thesis
    using assms(1-3) m(3) by (auto simp: tar_has_def mounted_def named_def headers_ok_def)
qed

lemma tar_has_find:
  assumes "tar_has h ph pt fs path pp nm s bs"
  obtains k where "find_file s (contents s) path = Some (h + of_nat k)" "file_at s (h + of_nat k) (nm, bs)"
    "k + 512 + length bs \<le> tar_len fs" "h + of_nat k \<noteq> NULL" "tar_find h fs nm = Some (h + of_nat k, bs)"
proof -
  have m: "tar_at s h fs" "headers_ok s (contents s) (positions h fs)" "cstr s path nm" "map_of fs nm = Some bs"
    "h \<noteq> NULL" "unat h + tar_len fs < 2 ^ 64"
    using assms by (auto simp: tar_has_def mounted_def named_def)
  obtain p where p: "tar_find h fs nm = Some (p, bs)" using tar_find_map_of [of h fs nm] m(4) by auto
  obtain k where k: "p = h + of_nat k" "k + file_span (nm, bs) \<le> tar_len fs" using tar_find_offset [OF p] by blast
  have "unat (h + of_nat k) = unat h + k" using m(6) k(2) by (intro unat_add_of_nat) simp
  then have "h + of_nat k \<noteq> NULL" using m(5) by (metis add_is_0 unat_eq_zero)
  moreover have "find_file s (contents s) path = Some (h + of_nat k)"
    using find_file_archive [OF m(2,1,3)] p k(1) by simp
  moreover have "k + 512 + length bs \<le> tar_len fs" using k(2) file_span_bounds(2) [of "(nm, bs)"] by simp
  ultimately show thesis using that tar_find_at [OF m(1) p] p k(1) by blast
qed

lemma tar_count_inside:
  assumes "size_field s (p + 124) len" "n \<le> len"
  shows "tar_count s p (of_nat n) = of_nat n"
proof -
  have len: "len < 4294967296" using assms(1) by (simp add: size_field_def)
  have u: "unat (ucast (of_nat m :: u32) :: u64) = m" if "m \<le> len" for m
    using that len by (simp add: unsigned_ucast_eq unat_of_nat take_bit_eq_mod)
  have w: "(ucast (of_nat m :: u32) :: u64) = of_nat m" if "m \<le> len" for m
    using u [OF that] that len by (simp add: word_unat_eq_iff unat_of_nat_u64)
  show ?thesis
    using assms(2) u [of n] u [of len] w [of n]
    by (auto simp: tar_count_def field_def parse_size_field [OF assms(1)] word_less_nat_alt Let_def)
qed


lemma tar_read_facts:
  assumes has: "tar_has h ph pt fs path pp nm s bs" and sp: "span (hhdm_off s) b n p"
    and dis: "prange p n \<inter> fs_bytes ph pt fs pp nm = {}" and on: "off + n \<le> length bs"
  obtains t where "tar_read dsd path (of_nat off) b (of_nat n) s = Some t" "load_bytes t b n = take n (drop off bs)"
    "t = s\<lparr>pmem := pmem t\<rparr>" "\<And>q. q \<notin> prange p n \<Longrightarrow> pmem t q = pmem s q"
proof -
  obtain k where k: "find_file s (contents s) path = Some (h + of_nat k)" "file_at s (h + of_nat k) (nm, bs)"
    "k + 512 + length bs \<le> tar_len fs" "h + of_nat k \<noteq> NULL" by (rule tar_has_find [OF has])
  let ?p0 = "h + of_nat k"
  have sz: "size_field s (?p0 + 124) (length bs)" and data: "load_bytes s (?p0 + 512) (length bs) = bs"
    using k(2) by (simp_all add: file_at_def)
  have len: "length bs < 4294967296" using sz by (simp add: size_field_def)
  have un: "unat (of_nat n :: u64) = n" using on len by (intro unat_of_nat_u64) simp
  have uo: "(ucast (of_nat off :: u32) :: u64) = of_nat off"
    using on len by (simp add: word_unat_eq_iff unat_of_nat_u64 unsigned_ucast_eq unat_of_nat take_bit_eq_mod)
  define src where "src = ?p0 + 512 + of_nat off"
  have src: "src = h + of_nat (k + 512 + off)" by (simp add: src_def add.assoc)
  have hs: "span (hhdm_off s) h (Suc (tar_len fs)) ph" using has by (simp add: tar_has_def mounted_def)
  have ss: "span (hhdm_off s) src n (ph + of_nat (k + 512 + off))"
    unfolding src by (rule span_shift [OF hs]) (use k(3) on in simp)
  have us: "unat (ph + of_nat (k + 512 + off)) = unat ph + (k + 512 + off)"
    using span_bound [OF hs] k(3) on by (intro unat_add_of_nat) simp
  let ?t = "memcpy b src (of_nat n) s"
  have run: "tar_read dsd path (of_nat off) b (of_nat n) s = Some ?t"
    using k(1) tar_count_inside [OF sz, of n] on uo by (simp add: tar_read_def src_def)
  have order: "unat p \<le> unat (ph + of_nat (k + 512 + off)) \<or>
      unat (ph + of_nat (k + 512 + off)) + n \<le> unat p"
  proof (rule ccontr)
    assume no: "\<not> ?thesis"
    then have "p \<in> prange ph (Suc (tar_len fs))" using us k(3) on by (auto simp: prange_def)
    moreover have "p \<in> prange p n" using no by (auto simp: prange_def)
    ultimately show False using dis by (auto simp: fs_bytes_def)
  qed
  have "load_bytes ?t b n = load_bytes s src n"
    using memcpy_delivers [of s b "of_nat n" p src, unfolded un, OF sp ss order] .
  also have "\<dots> = take n (drop off (load_bytes s (?p0 + 512) (length bs)))"
    using on by (simp add: src_def drop_load_bytes take_load_bytes)
  finally have "load_bytes ?t b n = take n (drop off bs)" by (simp only: data)
  then show thesis
    using that [OF run _ memcpy_pmem_only] pmem_memcpy_other [of s b "of_nat n" p, unfolded un, OF sp] by blast
qed

lemma prange_part:
  assumes "span off b (k + n) p"
  shows "prange (p + of_nat k) n \<subseteq> prange p (k + n)" "prange p k \<inter> prange (p + of_nat k) n = {}"
proof -
  have "unat (p + of_nat k) = unat p + k" if "n \<noteq> 0"
    using span_bound [OF assms] that by (intro unat_add_of_nat) simp
  then show "prange (p + of_nat k) n \<subseteq> prange p (k + n)" "prange p k \<inter> prange (p + of_nat k) n = {}"
    by (cases "n = 0"; auto simp: prange_def)+
qed

lemma fs_room_part: "fs_room ph pt fs pp nm s b (k + n) \<Longrightarrow>
  fs_room ph pt fs pp nm s b k \<and> fs_room ph pt fs pp nm s (b + of_nat k) n"
proof -
  assume "fs_room ph pt fs pp nm s b (k + n)"
  then obtain p where p: "span (hhdm_off s) b (k + n) p" "prange p (k + n) \<inter> fs_bytes ph pt fs pp nm = {}"
    by (auto simp: fs_room_def)
  have "prange p k \<subseteq> prange p (k + n)" by (rule prange_subset) simp_all
  then have "span (hhdm_off s) b k p" "prange p k \<inter> fs_bytes ph pt fs pp nm = {}"
    using p span_mono [OF p(1), of k] by auto
  moreover have "span (hhdm_off s) (b + of_nat k) n (p + of_nat k)" "prange (p + of_nat k) n \<inter> fs_bytes ph pt fs pp nm = {}"
    using p prange_part(1) [OF p(1)] span_shift [OF p(1), of k n] by auto
  ultimately show ?thesis unfolding fs_room_def by blast
qed

lemma fs_room_cong: "hhdm_off t = hhdm_off s \<Longrightarrow> fs_room ph pt fs pp nm t b n = fs_room ph pt fs pp nm s b n"
  by (simp add: fs_room_def)

text \<open>Only memory differs.\<close>

definition mem_only :: "'z fsstate_scheme \<Rightarrow> 'z fsstate_scheme \<Rightarrow> bool" where
  "mem_only s t \<longleftrightarrow> t = s\<lparr>pmem := pmem t\<rparr>"

lemma mem_only_fields:
  assumes "mem_only s t"
  shows "hhdm_off t = hhdm_off s" "contents t = contents s" "siv_drives t = siv_drives s"
    "siv_drivers t = siv_drivers s" "open_files t = open_files s" "open_file_contents t = open_file_contents s"
proof -
  obtain m where "t = s\<lparr>pmem := m\<rparr>" using assms unfolding mem_only_def by blast
  then show "hhdm_off t = hhdm_off s" "contents t = contents s" "siv_drives t = siv_drives s"
    "siv_drivers t = siv_drivers s" "open_files t = open_files s" "open_file_contents t = open_file_contents s"
    by simp_all
qed

text \<open>What a source of files has to promise, from the facts on one read.\<close>

lemma file_source_intro:
  fixes has :: "'z fsstate_scheme \<Rightarrow> u8 list \<Rightarrow> bool"
  assumes read: "\<And>s bs b n p off. has s bs \<Longrightarrow> span (hhdm_off s) b n p \<Longrightarrow>
      prange p n \<inter> fs_bytes ph pt fs pp nm = {} \<Longrightarrow> off + n \<le> length bs \<Longrightarrow>
      \<exists>t. fetch (of_nat off) b (of_nat n) s = Some t \<and> load_bytes t b n = take n (drop off bs) \<and>
        mem_only s t \<and> (\<forall>q. q \<notin> prange p n \<longrightarrow> pmem t q = pmem s q)"
    and keep: "\<And>s t bs. has s bs \<Longrightarrow> mem_only s t \<Longrightarrow>
      (\<And>q. q \<in> fs_bytes ph pt fs pp nm \<Longrightarrow> pmem t q = pmem s q) \<Longrightarrow> has t bs"
  shows "file_source has (fs_room ph pt fs pp nm) load_bytes fetch"
proof unfold_locales
  fix s t :: "'z fsstate_scheme" and bs b n off k
  { assume h: "has s bs" "fs_room ph pt fs pp nm s b n" "off + n \<le> length bs"
    then obtain p where p: "span (hhdm_off s) b n p" "prange p n \<inter> fs_bytes ph pt fs pp nm = {}"
      by (auto simp: fs_room_def)
    obtain t' where r: "fetch (of_nat off) b (of_nat n) s = Some t'" "load_bytes t' b n = take n (drop off bs)"
      "mem_only s t'" "\<And>q. q \<notin> prange p n \<Longrightarrow> pmem t' q = pmem s q"
      using read [OF h(1) p h(3)] by blast
    then show "\<exists>t. fetch (of_nat off) b (of_nat n) s = Some t \<and> load_bytes t b n = take n (drop off bs)" by blast
    assume "fetch (of_nat off) b (of_nat n) s = Some t"
    then have tt: "t' = t" using r(1) by simp
    have "has t' bs" by (rule keep [OF h(1) r(3)]) (use r(4) p(2) in blast)
    moreover have "hhdm_off t' = hhdm_off s" by (rule mem_only_fields(1) [OF r(3)])
    ultimately show "has t bs \<and> (\<forall>c m. fs_room ph pt fs pp nm s c m \<longrightarrow> fs_room ph pt fs pp nm t c m)"
      unfolding tt using fs_room_cong [of t s] by simp }
  { assume h: "has s bs" "fs_room ph pt fs pp nm s b (k + n)" "off + n \<le> length bs"
      "fetch (of_nat off) (b + of_nat k) (of_nat n) s = Some t"
    then obtain p where p: "span (hhdm_off s) b (k + n) p" "prange p (k + n) \<inter> fs_bytes ph pt fs pp nm = {}"
      by (auto simp: fs_room_def)
    have "span (hhdm_off s) (b + of_nat k) n (p + of_nat k)" by (rule span_shift [OF p(1)]) simp
    moreover have "prange (p + of_nat k) n \<inter> fs_bytes ph pt fs pp nm = {}" using p(2) prange_part(1) [OF p(1)] by blast
    ultimately obtain t' where r: "fetch (of_nat off) (b + of_nat k) (of_nat n) s = Some t'" "mem_only s t'"
      "\<And>q. q \<notin> prange (p + of_nat k) n \<Longrightarrow> pmem t' q = pmem s q"
      using read [OF h(1) _ _ h(3)] by blast
    have "t' = t" using r(1) h(4) by simp
    moreover have "hhdm_off t' = hhdm_off s" by (rule mem_only_fields(1) [OF r(2)])
    then have "load_bytes t' b k = load_bytes s b k"
      by (rule load_bytes_cong [OF span_mono [OF p(1)], rotated]) (use r(3) prange_part(2) [OF p(1)] in auto)
    ultimately show "load_bytes t b k = load_bytes s b k" by simp }
  { assume "fs_room ph pt fs pp nm s b (k + n)"
    then show "fs_room ph pt fs pp nm s b k \<and> fs_room ph pt fs pp nm s (b + of_nat k) n" by (rule fs_room_part) }
  show "load_bytes s b (k + n) = load_bytes s b k @ load_bytes s (b + of_nat k) n" by (rule load_bytes_append)
qed


lemma tar_read_source:
  assumes "tar_has h ph pt fs path pp nm s bs" "span (hhdm_off s) b n p" "prange p n \<inter> fs_bytes ph pt fs pp nm = {}"
    "off + n \<le> length bs"
  shows "\<exists>t. tar_read dsd path (of_nat off) b (of_nat n) s = Some t \<and> load_bytes t b n = take n (drop off bs) \<and>
    mem_only s t \<and> (\<forall>q. q \<notin> prange p n \<longrightarrow> pmem t q = pmem s q)"
  unfolding mem_only_def by (rule tar_read_facts [OF assms]) blast

interpretation archive: file_source "tar_has h ph pt fs path pp nm" "fs_room ph pt fs pp nm" load_bytes "tar_read dsd path"
  for h ph pt fs path pp nm dsd
proof (rule file_source_intro)
  fix s t :: "'a fsstate_scheme" and bs
  assume "tar_has h ph pt fs path pp nm s bs" "mem_only s t" "\<And>q. q \<in> fs_bytes ph pt fs pp nm \<Longrightarrow> pmem t q = pmem s q"
  then show "tar_has h ph pt fs path pp nm t bs"
    using mem_only_fields(1,2) by (intro tar_has_keep [of h ph pt fs path pp nm s bs t]) auto
qed (rule tar_read_source)

section \<open>Open files as a source\<close>

text \<open>An open file of the archive, of which no copy is kept.\<close>

definition siv_has ::
    "ptr \<Rightarrow> u64 \<Rightarrow> u64 \<Rightarrow> tfile list \<Rightarrow> ptr \<Rightarrow> u64 \<Rightarrow> u8 list \<Rightarrow> u32 \<Rightarrow> 'z fsstate_scheme \<Rightarrow> u8 list \<Rightarrow> bool" where
  "siv_has h ph pt fs path pp nm fd s bs \<longleftrightarrow> tar_has h ph pt fs path pp nm s bs \<and>
     unat fd < length (open_file_contents s) \<and> open_file_contents s ! unat fd = NULL \<and>
     (\<exists>f drive driver. siv_get_file fd s = Some f \<and> full_path f = path \<and>
        drive_driver (unat (f_drive_id f)) s = Some (drive, driver) \<and> ops driver = tar_ops)"

definition siv_fetch :: "u32 \<Rightarrow> u32 \<Rightarrow> ptr \<Rightarrow> u32 \<Rightarrow> 'z fsstate_scheme \<Rightarrow> 'z fsstate_scheme option" where
  "siv_fetch fd off b n s = (case siv_read fd off b n s of Some (Inr (_, t)) \<Rightarrow> Some t | _ \<Rightarrow> None)"

lemma siv_fetch_read:
  assumes "siv_has h ph pt fs path pp nm fd s bs"
  obtains dsd where "\<And>off b n. siv_fetch fd off b n s = tar_read dsd path off b n s"
proof -
  obtain f drive driver where f: "siv_get_file fd s = Some f" "full_path f = path"
    "drive_driver (unat (f_drive_id f)) s = Some (drive, driver)" "ops driver = tar_ops"
    "unat fd < length (open_file_contents s)" "open_file_contents s ! unat fd = NULL"
    using assms by (auto simp: siv_has_def)
  then have "siv_fetch fd off b n s = tar_read (driver_specific_data drive) path off b n s" for off b n
    by (cases "tar_read (driver_specific_data drive) path off b n s")
      (simp_all add: siv_fetch_def siv_read_def with_driver_def call_read_def)
  then show thesis by (rule that)
qed

lemma siv_has_keep:
  assumes "siv_has h ph pt fs path pp nm fd s bs" "mem_only s t"
    "\<And>q. q \<in> fs_bytes ph pt fs pp nm \<Longrightarrow> pmem t q = pmem s q"
  shows "siv_has h ph pt fs path pp nm fd t bs"
proof -
  note m = mem_only_fields [OF assms(2)]
  have "tar_has h ph pt fs path pp nm t bs"
    using assms(1,3) m by (intro tar_has_keep [of h ph pt fs path pp nm s bs t]) (auto simp: siv_has_def)
  moreover have "siv_get_file fd t = siv_get_file fd s" "\<And>i. drive_driver i t = drive_driver i s"
    using m by (simp_all add: siv_get_file_def drive_driver_def)
  ultimately show ?thesis using assms(1) m(6) by (simp add: siv_has_def)
qed

interpretation opened: file_source "siv_has h ph pt fs path pp nm fd" "fs_room ph pt fs pp nm" load_bytes "siv_fetch fd"
  for h ph pt fs path pp nm fd
proof (rule file_source_intro)
  fix s :: "'a fsstate_scheme" and bs b n p off
  assume a: "siv_has h ph pt fs path pp nm fd s bs" "span (hhdm_off s) b n p"
    "prange p n \<inter> fs_bytes ph pt fs pp nm = {}" "off + n \<le> length bs"
  obtain dsd where "\<And>off b n. siv_fetch fd off b n s = tar_read dsd path off b n s"
    using siv_fetch_read [OF a(1)] by blast
  then show "\<exists>t. siv_fetch fd (of_nat off) b (of_nat n) s = Some t \<and> load_bytes t b n = take n (drop off bs) \<and>
      mem_only s t \<and> (\<forall>q. q \<notin> prange p n \<longrightarrow> pmem t q = pmem s q)"
    using tar_read_source [of h ph pt fs path pp nm s bs b n p off dsd] a by (simp add: siv_has_def)
qed (rule siv_has_keep)


section \<open>Opening\<close>

text \<open>A drive of the archive driver, and a slot for the next open file.\<close>

definition tar_drive :: "nat \<Rightarrow> 'z fsstate_scheme \<Rightarrow> bool" where
  "tar_drive d s \<longleftrightarrow> (\<exists>drive. drive_driver d s = Some (drive, \<lparr>is_virtual = True, ops = tar_ops\<rparr>))"

definition slot_free :: "'z fsstate_scheme \<Rightarrow> bool" where
  "slot_free s \<longleftrightarrow> unat (siv_num_open_files s) < length (open_files s) \<and>
     unat (siv_num_open_files s) < length (open_file_contents s) \<and>
     open_file_contents s ! unat (siv_num_open_files s) = NULL"

text \<open>The header does not say that it is a directory.\<close>

definition plain_file :: "ptr \<Rightarrow> tfile list \<Rightarrow> u8 list \<Rightarrow> 'z machine_scheme \<Rightarrow> bool" where
  "plain_file h fs nm s \<longleftrightarrow> (case tar_find h fs nm of None \<Rightarrow> False | Some (p, _) \<Rightarrow> load8 s (p + 156) \<noteq> 0x35)"

lemma tar_get_props_found:
  assumes "tar_has h ph pt fs path pp nm s bs" "plain_file h fs nm s"
  shows "\<exists>f. tar_get_props dsd path s = Some f \<and> f_size f = of_nat (length bs) \<and> full_path f = path \<and>
    \<not> isdir f \<and> f_drive_id f = tar_drive_id s"
proof -
  obtain k where k: "find_file s (contents s) path = Some (h + of_nat k)" "file_at s (h + of_nat k) (nm, bs)"
    "h + of_nat k \<noteq> NULL" "tar_find h fs nm = Some (h + of_nat k, bs)" by (rule tar_has_find [OF assms(1)])
  have "size_field s (h + of_nat k + 124) (length bs)" using k(2) by (simp add: file_at_def)
  then have "parse_size s (h + of_nat k + 124) = of_nat (length bs)" "length bs < 4294967296"
    by (auto simp: parse_size_field) (simp add: size_field_def)
  moreover from this have "(ucast (of_nat (length bs) :: u32) :: u64) = of_nat (length bs)"
    by (simp add: word_unat_eq_iff unat_of_nat_u64 unsigned_ucast_eq unat_of_nat take_bit_eq_mod)
  ultimately show ?thesis
    using k assms(2) by (simp add: tar_get_props_def field_def plain_file_def)
qed

lemma siv_open_found:
  assumes "tar_has h ph pt fs path pp nm s bs" "tar_drive (unat d) s" "tar_drive (unat (tar_drive_id s)) s"
    "slot_free s" "plain_file h fs nm s" "path \<noteq> NULL" "flags AND SIV_FLAGS_FORCE_PRELOAD = 0"
  obtains t where "siv_open d path flags s = Some (Inr (siv_num_open_files s, t))"
    "siv_has h ph pt fs path pp nm (siv_num_open_files s) t bs" "siv_num_open_files t = siv_num_open_files s + 1"
    "pmem t = pmem s" "hhdm_off t = hhdm_off s"
    "\<exists>f. siv_get_file (siv_num_open_files s) t = Some f \<and> f_size f = of_nat (length bs)"
    "heap_ok t = heap_ok s" "first_free t = first_free s" "used_frames t = used_frames s" "page_bmp t = page_bmp s"
    "length (open_files t) = length (open_files s)"
proof -
  let ?fd = "siv_num_open_files s"
  let ?s1 = "s\<lparr>siv_num_open_files := ?fd + 1\<rparr>"
  obtain drive where dr: "drive_driver (unat d) s = Some (drive, \<lparr>is_virtual = True, ops = tar_ops\<rparr>)"
    using assms(2) by (auto simp: tar_drive_def)
  have h1: "tar_has h ph pt fs path pp nm ?s1 bs" by (rule tar_has_keep [OF assms(1)]) simp_all
  have "plain_file h fs nm ?s1" using assms(5) by (auto simp: plain_file_def load8_def split: option.splits)
  from tar_get_props_found [OF h1 this] obtain f where f: "tar_get_props (driver_specific_data drive) path ?s1 = Some f"
    "f_size f = of_nat (length bs)" "full_path f = path" "\<not> isdir f" "f_drive_id f = tar_drive_id s" by auto
  let ?t = "?s1\<lparr>open_files := (open_files s)[unat ?fd := f]\<rparr>"
  have slot: "unat ?fd < length (open_files s)" "unat ?fd < length (open_file_contents s)"
    "open_file_contents s ! unat ?fd = NULL" using assms(4) by (auto simp: slot_free_def)
  have run: "siv_open d path flags s = Some (Inr (?fd, ?t))"
    using dr f slot assms(6,7) by (simp add: siv_open_def call_get_props_def set_open_file_def Let_def)
  have "tar_has h ph pt fs path pp nm ?t bs" by (rule tar_has_keep [OF assms(1)]) simp_all
  moreover have "siv_get_file ?fd ?t = Some f" using slot by (simp add: siv_get_file_def)
  moreover have "\<exists>drive. drive_driver (unat (f_drive_id f)) ?t = Some (drive, \<lparr>is_virtual = True, ops = tar_ops\<rparr>)"
    using assms(3) f(5) by (auto simp: tar_drive_def drive_driver_def split: if_splits)
  ultimately have "siv_has h ph pt fs path pp nm ?fd ?t bs"
    using slot f(3) by (auto simp: siv_has_def)
  moreover have "used_frames ?t = used_frames s" by (simp add: heap_state_defs v2p_def)
  moreover have "heap_ok ?t = heap_ok s" by (simp add: heap_state_defs v2p_def)
  moreover have "used ?t = used s" by (simp add: fun_eq_iff heap_state_defs v2p_def)
  then have "first_free ?t = first_free s" by (simp add: first_free_def nframes_def)
  ultimately show thesis using that [OF run] \<open>siv_get_file ?fd ?t = Some f\<close> f(2) by simp
qed

text \<open>A name the archive does not have.\<close>

lemma siv_open_missing:
  assumes "mounted h ph pt fs s" "named path pp nm s" "map_of fs nm = None" "tar_drive (unat d) s" "slot_free s"
  shows "\<exists>t. siv_open d path flags s = Some (Inr (UINT32_MAX, t)) \<and> siv_num_open_files t = siv_num_open_files s + 1 \<and>
    siv_get_file (siv_num_open_files s) t = Some zero_file"
proof -
  let ?fd = "siv_num_open_files s"
  let ?s1 = "s\<lparr>siv_num_open_files := ?fd + 1\<rparr>"
  obtain drive where dr: "drive_driver (unat d) s = Some (drive, \<lparr>is_virtual = True, ops = tar_ops\<rparr>)"
    using assms(4) by (auto simp: tar_drive_def)
  have ag: "agree s ?s1 a n" for a n by (simp add: agree_def load8_def)
  have "tar_at ?s1 h fs" using tar_at_agree [OF _ ag] assms(1) by (simp add: mounted_def)
  moreover have "cstr ?s1 path nm"
    using cstr_cong [of s path nm ?s1] agree_load_bytes [OF ag [of path "Suc (length nm)"], of 0 "Suc (length nm)"] assms(2)
    by (simp add: named_def del: load_bytes.simps)
  moreover have "headers_ok ?s1 (contents s) (positions h fs)"
  proof -
    have "load64 ?s1 a = load64 s a" for a
      using agree_load_bytes [OF ag [of a 8], of 0 8] by (simp add: load64_def)
    then show ?thesis using assms(1) by (simp add: mounted_def headers_ok_def)
  qed
  moreover have "tar_find h fs nm = None" using tar_find_map_of [of h fs nm] assms(3) by simp
  ultimately have "find_file ?s1 (contents s) path = Some NULL" using find_file_archive by fastforce
  then show ?thesis
    using dr assms(5)
    by (simp add: siv_open_def call_get_props_def tar_get_props_def set_open_file_def slot_free_def Let_def
        zero_file_def siv_get_file_def)
qed


section \<open>Mounting the archive\<close>

lemma fs_fields:
  fixes s t :: "'z fsstate_scheme"
  assumes "pmm.more t = pmm.more s"
  shows "siv_drives t = siv_drives s" "siv_num_drives t = siv_num_drives s" "siv_drivers t = siv_drivers s"
    "siv_num_drivers t = siv_num_drivers s" "open_files t = open_files s"
    "open_file_contents t = open_file_contents s" "siv_num_open_files t = siv_num_open_files s" "contents t = contents s"
  using assms by (cases s; cases t; simp)+

text \<open>
  What the boot loader leaves: the archive \<open>fs\<close> as a module in used memory, and room in the tables
  for a driver and a drive.
\<close>

definition boot_archive :: "ptr \<Rightarrow> u64 \<Rightarrow> u64 \<Rightarrow> tfile list \<Rightarrow> 'z fsstate_scheme \<Rightarrow> bool" where
  "boot_archive h n ph fs s \<longleftrightarrow> initramfs s = Some (h, n) \<and> heap_ok s \<and> first_free s \<noteq> None \<and>
     tar_at s h fs \<and> length fs \<le> 252 \<and> tar_len fs \<le> unat n \<and> in_used s h (Suc (tar_len fs)) \<and>
     span (hhdm_off s) h (Suc (tar_len fs)) ph \<and> h \<noteq> NULL \<and> unat h + tar_len fs < 2 ^ 64 \<and>
     unat (siv_num_drivers s) < length (siv_drivers s) \<and> unat (siv_num_drives s) < length (siv_drives s)"

lemma tar_init_mounts:
  assumes "boot_archive h n ph fs s"
  obtains t pt where "tar_init s = Some (Inr ((), t))" "mounted h ph pt fs t" "heap_ok t"
    "tar_drive (unat (tar_drive_id t)) t" "tar_drive_id t = siv_num_drives s" "siv_num_drives t = siv_num_drives s + 1" "hhdm_off t = hhdm_off s"
    "slot_free t = slot_free s" "siv_num_open_files t = siv_num_open_files s"
    "\<And>q. q \<in> prange pt (8 * length fs) \<Longrightarrow> settled t q \<and> \<not> settled s q"
    "\<And>q. settled s q \<Longrightarrow> settled t q \<and> pmem t q = pmem s q"
proof -
  have a: "initramfs s = Some (h, n)" "heap_ok s" "first_free s \<noteq> None" "tar_at s h fs" "length fs \<le> 252"
    "tar_len fs \<le> unat n" "in_used s h (Suc (tar_len fs))" "span (hhdm_off s) h (Suc (tar_len fs)) ph" "h \<noteq> NULL"
    "unat h + tar_len fs < 2 ^ 64"
    "unat (siv_num_drivers s) < length (siv_drivers s)" "unat (siv_num_drives s) < length (siv_drives s)"
    using assms by (auto simp: boot_archive_def)
  obtain c v s1 pt where p: "parse_tar h n s = Some (Inr ((c, v), s1))" "heap_ok s1" "tar_at s1 h fs"
    "headers_ok s1 c (positions h fs)" "span (hhdm_off s1) (headers c) (8 * length fs) pt"
    "\<And>q. q \<in> prange pt (8 * length fs) \<Longrightarrow> settled s1 q \<and> \<not> settled s q"
    "hhdm_off s1 = hhdm_off s" "pmm.more s1 = pmm.more s"
    "\<And>q. settled s q \<Longrightarrow> settled s1 q \<and> pmem s1 q = pmem s q"
    using parse_tar_archive [OF a(2-7)] by blast
  note ff = fs_fields [OF p(8)]
  let ?m = "unat (siv_num_drivers s)" and ?d = "unat (siv_num_drives s)"
  let ?drive = "\<lparr>sig = lit ''INRD'', driver_id = siv_num_drivers s, driver_specific_data = NULL\<rparr>"
  let ?driver = "\<lparr>is_virtual = True, ops = tar_ops\<rparr>"
  let ?t = "s1\<lparr>contents := c, tar_headers := v, siv_drivers := (siv_drivers s)[?m := ?driver],
    siv_num_drivers := siv_num_drivers s + 1, siv_drives := (siv_drives s)[?d := ?drive],
    siv_num_drives := siv_num_drives s + 1, tar_drive_id := siv_num_drives s\<rparr>"
  have run: "tar_init s = Some (Inr ((), ?t))"
    using a(1,11,12) p(1) ff by (simp add: tar_init_def siv_register_driver_def siv_register_drive_def Let_def)
  have ag: "agree s1 ?t x k" for x k by (simp add: agree_def load8_def)
  have "load64 ?t x = load64 s1 x" for x using agree_load_bytes [OF ag [of x 8], of 0 8] by (simp add: load64_def)
  then have m: "mounted h ph pt fs ?t"
    using a(8-10) p(4,5,7) tar_at_agree [OF p(3) ag] by (simp add: mounted_def headers_ok_def)
  have dr: "tar_drive ?d ?t" using a(11,12) by (simp add: tar_drive_def drive_driver_def)
  have hp: "heap_ok ?t" using p(2) by (simp add: heap_state_defs v2p_def)
  have "settled ?t q = settled s1 q" for q by (simp add: settled_def heap_state_defs v2p_def)
  then show thesis
    by (intro that [OF run m hp]) (use dr p(6,7,9) ff in \<open>simp_all add: slot_free_def\<close>)
qed


text \<open>Strings and headers in used memory survive the mount.\<close>

lemma in_used_agree:
  fixes s t :: "'z pmm_scheme"
  assumes "in_used s a k" "hhdm_off t = hhdm_off s"
    and "\<And>q. settled s q \<Longrightarrow> settled t q \<and> pmem t q = pmem s q"
  shows "agree s t a k"
  using assms by (auto simp: agree_def in_used_def load8_def settled_def)

lemma named_agree: "named path pp nm s \<Longrightarrow> agree s t path (Suc (length nm)) \<Longrightarrow> hhdm_off t = hhdm_off s \<Longrightarrow> named path pp nm t"
  using cstr_cong [of s path nm t] agree_load_bytes [of s t path "Suc (length nm)" 0 "Suc (length nm)"]
  by (simp add: named_def del: load_bytes.simps)

lemma plain_file_agree:
  assumes "plain_file h fs nm s" "agree s t h (Suc (tar_len fs))"
  shows "plain_file h fs nm t"
proof -
  obtain p bs where p: "tar_find h fs nm = Some (p, bs)" "load8 s (p + 156) \<noteq> 0x35"
    using assms(1) by (auto simp: plain_file_def split: option.splits)
  obtain k where k: "p = h + of_nat k" "k + file_span (nm, bs) \<le> tar_len fs" using tar_find_offset [OF p(1)] by blast
  have "p + 156 = h + of_nat (k + 156)" by (simp add: k(1) add.assoc)
  moreover have "k + 156 < Suc (tar_len fs)" using k(2) file_span_bounds(1) [of "(nm, bs)"] by simp
  ultimately have "load8 t (p + 156) = load8 s (p + 156)" using assms(2) unfolding agree_def by metis
  then show ?thesis using p by (simp add: plain_file_def)
qed

lemma in_used_prange:
  assumes "in_used s b k" "span (hhdm_off s) b k p" "q \<in> prange p k"
  shows "settled s q"
proof -
  obtain i where "i < k" "q = p + of_nat i" using prangeE [OF assms(3)] by blast
  then show ?thesis using assms(1,2) by (auto simp: in_used_def span_def settled_def)
qed

lemma unat_drive [simp]: "unat (ucast (d :: u16) :: u32) = unat d"
  using unsigned_less [of d, where 'a = nat] by (simp add: unsigned_ucast_eq take_bit_nat_eq_self_iff)

text \<open>What mounting the archive leaves alone: the bitmap, the processes, the events, the interrupt handlers, the keyboard.\<close>

definition same_kernel :: "'z kbstate_scheme \<Rightarrow> 'z kbstate_scheme \<Rightarrow> bool" where
  "same_kernel s t \<longleftrightarrow> page_bmp t = page_bmp s \<and> hhdm_off t = hhdm_off s \<and> hn_pagemap t = hn_pagemap s \<and>
     processes t = processes s \<and> sched_num_procs t = sched_num_procs s \<and> sched_current_pid t = sched_current_pid s \<and>
     sched_running t = sched_running s \<and> soft_ints t = soft_ints s \<and> ISRHandlers t = ISRHandlers s \<and>
     events t = events s \<and> num_events t = num_events s \<and> keyboard t = keyboard s \<and> g_IDT t = g_IDT s"

lemma same_kernel_trans: "same_kernel s t \<Longrightarrow> same_kernel t u \<Longrightarrow> same_kernel s u"
  by (simp add: same_kernel_def)

lemma same_kernel_more:
  assumes "pmm.more t = pmm.more s" "page_bmp t = page_bmp s" "hhdm_off t = hhdm_off s"
  shows "same_kernel s t"
  using assms unfolding same_kernel_def by (cases s; cases t; simp)

lemma tar_init_kernel:
  assumes "tar_init s = Some (Inr ((), t))" "pmm_ok s"
  shows "same_kernel s t"
proof (cases "initramfs s")
  case None
  then show ?thesis using assms(1) by (simp add: tar_init_def same_kernel_def)
next
  case (Some a)
  then obtain c v s1 where p: "parse_tar (fst a) (snd a) s = Some (Inr ((c, v), s1))"
    "t = s1\<lparr>contents := c, tar_headers := v, siv_drivers := siv_drivers t, siv_num_drivers := siv_num_drivers t,
       siv_drives := siv_drives t, siv_num_drives := siv_num_drives t, tar_drive_id := tar_drive_id t\<rparr>"
    using assms(1) Some
    by (auto simp: tar_init_def siv_register_driver_def siv_register_drive_def and_then_Inr_iff then_do_Inr_iff Let_def
        split: prod.splits if_splits)
  have "same_kernel s s1"
    using parse_tar_same [OF p(1) assms(2)] by (intro same_kernel_more) (simp_all add: pmm_same_def)
  moreover have "same_kernel s1 t" by (subst p(2)) (simp add: same_kernel_def)
  ultimately show ?thesis by (rule same_kernel_trans)
qed

section \<open>Properties\<close>

text \<open>
  C18. From the boot module to the bytes of a file: after \<open>tar_init\<close> on an archive of up to 252
  files, \<open>siv_open\<close> of a name in it returns a descriptor, and \<open>siv_read\<close> in chunks of any sizes,
  into a buffer apart from the archive and the name, delivers the bytes of the first file with that
  name, from any offset inside the file.
\<close>

theorem siv_file_spec:
  assumes "boot_archive h n ph fs s" "slot_free s" "named path pp nm s" "in_used s path (Suc (length nm))" "path \<noteq> NULL"
    and "map_of fs nm = Some bs" "plain_file h fs nm s" "off + sum_list ns \<le> length bs"
    and "span (hhdm_off s) b (sum_list ns) p" "in_used s b (sum_list ns)"
    and "prange p (sum_list ns) \<inter> (prange ph (Suc (tar_len fs)) \<union> prange pp (Suc (length nm))) = {}"
  shows "\<exists>t u v. tar_init s = Some (Inr ((), t)) \<and>
    siv_open (ucast (siv_num_drives s)) path 0 t = Some (Inr (siv_num_open_files s, u)) \<and>
    chunks (siv_fetch (siv_num_open_files s)) off b ns u = Some v \<and>
    load_bytes v b (sum_list ns) = take (sum_list ns) (drop off bs)"
proof -
  obtain t pt where t: "tar_init s = Some (Inr ((), t))" "mounted h ph pt fs t" "heap_ok t"
    "tar_drive (unat (tar_drive_id t)) t" "tar_drive_id t = siv_num_drives s" "hhdm_off t = hhdm_off s"
    "slot_free t = slot_free s" "siv_num_open_files t = siv_num_open_files s"
    "\<And>q. q \<in> prange pt (8 * length fs) \<Longrightarrow> settled t q \<and> \<not> settled s q"
    "\<And>q. settled s q \<Longrightarrow> settled t q \<and> pmem t q = pmem s q"
    using tar_init_mounts [OF assms(1)] by metis
  have iu: "in_used s h (Suc (tar_len fs))" using assms(1) by (simp add: boot_archive_def)
  have nm: "named path pp nm t" by (rule named_agree [OF assms(3) in_used_agree [OF assms(4) t(6,10)] t(6)])
  have pl: "plain_file h fs nm t" by (rule plain_file_agree [OF assms(7) in_used_agree [OF iu t(6,10)]])
  have has: "tar_has h ph pt fs path pp nm t bs" using t(2) nm assms(6) by (simp add: tar_has_def)
  obtain u where u: "siv_open (ucast (siv_num_drives s)) path 0 t = Some (Inr (siv_num_open_files s, u))"
    "siv_has h ph pt fs path pp nm (siv_num_open_files s) u bs" "hhdm_off u = hhdm_off t"
  proof (rule siv_open_found [OF has, of "ucast (siv_num_drives s)" 0])
    show "tar_drive (unat (ucast (siv_num_drives s) :: u32)) t" "tar_drive (unat (tar_drive_id t)) t"
      "slot_free t" "plain_file h fs nm t" using t(4,5,7) pl assms(2) by simp_all
  qed (use assms(5) t(8) that in simp_all)
  have "prange p (sum_list ns) \<inter> fs_bytes ph pt fs pp nm = {}"
    using assms(11) in_used_prange [OF assms(10,9)] t(9) unfolding fs_bytes_def by blast
  then have "fs_room ph pt fs pp nm u b (sum_list ns)"
    using assms(9) u(3) t(6) by (auto simp: fs_room_def)
  from opened.chunks_read [OF u(2) this assms(8)] show ?thesis using t(1) u(1) by blast
qed

text \<open>
  A name that is not in the archive: \<open>siv_open\<close> returns \<open>UINT32_MAX\<close> and clears the slot it
  took, but the slot stays counted: the descriptor after it is one higher.
\<close>

theorem siv_open_missing_spec:
  assumes "boot_archive h n ph fs s" "slot_free s" "named path pp nm s" "in_used s path (Suc (length nm))"
    and "map_of fs nm = None"
  shows "\<exists>t u. tar_init s = Some (Inr ((), t)) \<and>
    siv_open (ucast (siv_num_drives s)) path flags t = Some (Inr (UINT32_MAX, u)) \<and>
    siv_get_file (siv_num_open_files s) u = Some zero_file \<and> siv_num_open_files u = siv_num_open_files s + 1"
proof -
  obtain t pt where t: "tar_init s = Some (Inr ((), t))" "mounted h ph pt fs t" "heap_ok t"
    "tar_drive (unat (tar_drive_id t)) t" "tar_drive_id t = siv_num_drives s" "hhdm_off t = hhdm_off s"
    "slot_free t = slot_free s" "siv_num_open_files t = siv_num_open_files s"
    "\<And>q. settled s q \<Longrightarrow> settled t q \<and> pmem t q = pmem s q"
    using tar_init_mounts [OF assms(1)] by metis
  have nm: "named path pp nm t" by (rule named_agree [OF assms(3) in_used_agree [OF assms(4) t(6,9)] t(6)])
  show ?thesis
    using siv_open_missing [OF t(2) nm assms(5), of "ucast (siv_num_drives s)" flags] t assms(2) by auto
qed


text \<open>A machine with the sample archive as its boot module and empty tables.\<close>

definition sample_fs :: "'z \<Rightarrow> 'z fsstate_scheme" where
  "sample_fs x = siv_init ((sample_acpi
     \<lparr>keyboard = sample_kb, siv_drives = [], siv_num_drives = 0, siv_drivers = [], siv_num_drivers = 0,
      open_files = replicate 64 zero_file, open_file_contents = replicate 64 NULL, siv_num_open_files = 0,
      tar_drive_id = 0, contents = \<lparr>hdr_num = 0, headers = NULL\<rparr>,
      tar_headers = \<lparr>v_len = 0, v_cap = 0, v_data = NULL\<rparr>, initramfs = Some (0x3000, 2048),
      empty_string = 0xFFFF800000002800, \<dots> = x\<rparr>)\<lparr>pmem := archive_mem\<rparr>)"

lemma sample_fs_archive: "sample_fs x = sample_archive (pmm.more (sample_fs x))"
  by (simp add: sample_fs_def sample_archive_def sample_def sample_with_def siv_init_def sample_acpi_def
      sample_int_def sample_io_def)

lemma sample_fs_fields [simp]:
  "siv_num_drives (sample_fs x) = 0" "siv_num_drivers (sample_fs x) = 0" "siv_num_open_files (sample_fs x) = 0"
  "siv_drives (sample_fs x) = replicate 64 zero_drive" "siv_drivers (sample_fs x) = replicate 8 zero_driver"
  "open_files (sample_fs x) = replicate 64 zero_file" "open_file_contents (sample_fs x) = replicate 64 NULL"
  "initramfs (sample_fs x) = Some (0x3000, 2048)"
  by (simp_all add: sample_fs_def siv_init_def sample_acpi_def sample_int_def sample_io_def)

lemma archive_in_used:
  assumes "0x3000 \<le> a" "a + k \<le> 0x4000"
  shows "in_used (sample_archive x) (of_nat a) k"
proof -
  have "v2p (hhdm_off (sample_archive x)) (of_nat a + of_nat i) \<notin> bmp_region (page_bmp (sample_archive x)) (sample_archive x) \<and>
      frame (v2p (hhdm_off (sample_archive x)) (of_nat a + of_nat i)) = 3" if "i < k" for i
  proof -
    have ua: "unat (of_nat a :: u64) = a" using assms that by (intro unat_of_nat_u64) simp
    have u: "unat (of_nat a + of_nat i :: u64) = a + i"
      using that assms ua by (subst unat_add_of_nat) simp_all
    have "bmp_region (page_bmp (sample_archive x)) (sample_archive x) = prange 0x1000 4096"
      using sample_bmp_region [of x] bmp_region_cong [of "sample_archive x" "sample x"]
      by (simp add: sample_archive_def)
    then show ?thesis
      using u that assms
      by (simp add: sample_archive_fields v2p_def word_less_nat_alt prange_def frame_def div_nat_eqI)
  qed
  then show ?thesis by (simp add: in_used_def sample_archive_heap)
qed

lemma sample_fs_boot:
  "boot_archive 0x3000 2048 0x3000 [([97], [65, 66])] (sample_fs x)" "slot_free (sample_fs x)"
  "named 0x3000 0x3000 [97] (sample_fs x)" "in_used (sample_fs x) 0x3000 (Suc (length [97 :: u8]))"
  "plain_file 0x3000 [([97], [65, 66])] [97] (sample_fs x)" "in_used (sample_fs x) 0x3800 (sum_list [1, 1])"
  "span (hhdm_off (sample_fs x)) 0x3800 (sum_list [1, 1]) 0x3800"
proof -
  let ?x = "pmm.more (sample_fs x)"
  have off: "hhdm_off (sample_fs x) = 0xFFFF800000000000"
    by (subst sample_fs_archive) (simp add: sample_archive_fields)
  have sp: "span (hhdm_off (sample_fs x)) a k a" if "unat a + k \<le> 0x8000" for a k
    using that by (intro span_low) (simp add: off)
  have tar: "tar_at (sample_fs x) 0x3000 [([97], [65, 66])]"
    by (subst sample_fs_archive) (rule sample_archive_tar)
  show "slot_free (sample_fs x)" by (simp add: slot_free_def)
  show "in_used (sample_fs x) 0x3000 (Suc (length [97 :: u8]))"
    by (subst sample_fs_archive) (use archive_in_used [of "0x3000" "Suc (length [97 :: u8])" ?x] in simp)
  show "in_used (sample_fs x) 0x3800 (sum_list [1, 1])"
    by (subst sample_fs_archive) (use archive_in_used [of "0x3800" "sum_list [1, 1]" ?x] in simp)
  show "span (hhdm_off (sample_fs x)) 0x3800 (sum_list [1, 1]) 0x3800" by (rule sp) simp
  show "named 0x3000 0x3000 [97] (sample_fs x)"
    using tar sp [of "0x3000" "Suc (length [97 :: u8])"] by (simp add: named_def file_at_def)
  have "load8 (sample_fs x) 0x309C = 0"
    by (subst sample_fs_archive, subst sample_archive_load) (simp_all add: archive_mem_def bytes_at_def sample_mem_def)
  then show "plain_file 0x3000 [([97], [65, 66])] [97] (sample_fs x)" by (simp add: plain_file_def)
  have heap: "heap_ok (sample_fs x)" "first_free (sample_fs x) \<noteq> None"
    by (subst sample_fs_archive, simp add: sample_archive_heap)+
  have "in_used (sample_fs x) 0x3000 (Suc (tar_len [([97], [65, 66])]))"
    by (subst sample_fs_archive) (rule sample_archive_used)
  then show "boot_archive 0x3000 2048 0x3000 [([97], [65, 66])] (sample_fs x)"
    using heap tar sp [of "0x3000" "Suc (tar_len [([97], [65, 66])])"] by (simp add: boot_archive_def file_span_def)
qed

theorem siv_file_spec_witness:
  "\<exists>t u v. tar_init (sample_fs ()) = Some (Inr ((), t)) \<and> siv_open 0 0x3000 0 t = Some (Inr (0, u)) \<and>
    chunks (siv_fetch 0) 0 0x3800 [1, 1] u = Some v \<and> load_bytes v 0x3800 (sum_list [1, 1]) = [65, 66]"
proof -
  have "map_of [([97], [65, 66])] [97 :: u8] = Some [65, 66 :: u8]" by simp
  moreover have "prange 0x3800 (sum_list [1, 1]) \<inter>
      (prange 0x3000 (Suc (tar_len [([97], [65, 66])])) \<union> prange 0x3000 (Suc (length [97 :: u8]))) = {}"
    by (auto simp: prange_def file_span_def)
  ultimately show ?thesis
    using siv_file_spec [OF sample_fs_boot(1-4) _ _ sample_fs_boot(5) _ sample_fs_boot(7,6), of "[65, 66]" 0 "()"]
    by simp
qed

theorem siv_open_missing_spec_witness:
  "\<exists>t u. tar_init (sample_fs ()) = Some (Inr ((), t)) \<and> siv_open 0 0x3200 0 t = Some (Inr (UINT32_MAX, u)) \<and>
    siv_get_file 0 u = Some zero_file \<and> siv_num_open_files u = 1"
proof -
  let ?x = "pmm.more (sample_fs ())"
  have off: "hhdm_off (sample_fs ()) = 0xFFFF800000000000"
    by (subst sample_fs_archive) (simp add: sample_archive_fields)
  have "cstr (sample_fs ()) 0x3200 [65, 66]"
    by (subst sample_fs_archive) (simp add: sample_archive_load archive_mem_def bytes_at_def sample_mem_def)
  moreover have "span (hhdm_off (sample_fs ())) 0x3200 (Suc (length [65, 66 :: u8])) 0x3200"
    by (rule span_low) (simp add: off)
  ultimately have "named 0x3200 0x3200 [65, 66] (sample_fs ())" by (simp only: named_def)
  moreover have "in_used (sample_fs ()) 0x3200 (Suc (length [65, 66 :: u8]))"
    by (subst sample_fs_archive) (use archive_in_used [of "0x3200" "Suc (length [65, 66 :: u8])" ?x] in simp)
  ultimately show ?thesis
    using siv_open_missing_spec [OF sample_fs_boot(1,2), of "0x3200" "0x3200" "[65, 66]" "()" 0] by simp
qed

end
