(* ===== verification/Files.thy ===== *)
theory Files
  imports Siv "HOL-Library.AList"
begin

text \<open>
  Files that are written and files that are kept in memory: \<open>siv_write\<close> and \<open>tar_write\<close>, and the preloading
  of \<open>siv_open\<close> with its counterpart in \<open>siv_close\<close>.
\<close>

section \<open>A volume with room for a file\<close>

text \<open>
  A drive 0 with the archive \<open>fs\<close> on it, whose table and names lie in memory no allocation touches, a
  free page and a free slot.
\<close>

definition volume_ready :: "ptr \<Rightarrow> u64 \<Rightarrow> u64 \<Rightarrow> tfile list \<Rightarrow> ptr \<Rightarrow> u64 \<Rightarrow> u8 list \<Rightarrow> 'z fsstate_scheme \<Rightarrow> bool" where
  "volume_ready h ph pt fs path pp nm s \<longleftrightarrow> mounted h ph pt fs s \<and> named path pp nm s \<and> path \<noteq> NULL \<and>
     heap_ok s \<and> first_free s \<noteq> None \<and> (\<forall>q \<in> fs_bytes ph pt fs pp nm. settled s q) \<and>
     tar_drive 0 s \<and> tar_drive (unat (tar_drive_id s)) s \<and> slot_free s \<and> length (open_files s) = MAX_OPEN_FILES"

lemma siv_has_more:
  fixes s t :: "'z fsstate_scheme"
  assumes "siv_has h ph pt fs path pp nm fd s bs" "pmm.more t = pmm.more s" "hhdm_off t = hhdm_off s"
    "\<And>q. q \<in> fs_bytes ph pt fs pp nm \<Longrightarrow> pmem t q = pmem s q"
  shows "siv_has h ph pt fs path pp nm fd t bs"
proof -
  note m = fs_fields [OF assms(2)]
  have "tar_has h ph pt fs path pp nm t bs"
    using assms(1,3,4) m by (intro tar_has_keep [of h ph pt fs path pp nm s bs t]) (auto simp: siv_has_def)
  moreover have "siv_get_file fd t = siv_get_file fd s" "\<And>i. drive_driver i t = drive_driver i s"
    using m by (simp_all add: siv_get_file_def drive_driver_def)
  ultimately show ?thesis using assms(1) m by (simp add: siv_has_def)
qed

lemma page_block_high:
  assumes "heap_ok s" "page_block s v n"
  shows "unat v + 4088 \<le> unat (hhdm_off s) + 4096 * nframes s"
proof -
  note f = page_block_facts [OF assms]
  have le: "unat (base s v) + 4096 \<le> 4096 * nframes s" using f(1,2) by simp
  have v: "v = base s v + 8 + hhdm_off s" by (simp add: base_def VIRT_TO_PHYS_def)
  have "unat (base s v + 8 + hhdm_off s) = unat (base s v + 8) + unat (hhdm_off s)"
    by (rule unat_add_no_wrap) (use f(1,5) le assms(1) in \<open>simp add: heap_ok_def\<close>)
  then show ?thesis using v f(1,5) le by simp
qed

text \<open>One read through an open file.\<close>

lemma opened_read:
  assumes "siv_has h ph pt fs path pp nm fd s bs" "span (hhdm_off s) b n p" "prange p n \<inter> fs_bytes ph pt fs pp nm = {}"
    "off + n \<le> length bs"
  shows "\<exists>t. siv_read fd (of_nat off) b (of_nat n) s = Some (Inr ((), t)) \<and> load_bytes t b n = take n (drop off bs) \<and>
    mem_only s t \<and> (\<forall>q. q \<notin> prange p n \<longrightarrow> pmem t q = pmem s q)"
proof -
  obtain dsd where dsd: "\<And>off b n. siv_fetch fd off b n s = tar_read dsd path off b n s"
    using siv_fetch_read [OF assms(1)] by blast
  have "tar_has h ph pt fs path pp nm s bs" using assms(1) by (simp add: siv_has_def)
  from tar_read_source [OF this assms(2-4), of dsd] dsd
  obtain t where "siv_fetch fd (of_nat off) b (of_nat n) s = Some t" "load_bytes t b n = take n (drop off bs)"
    "mem_only s t" "\<And>q. q \<notin> prange p n \<Longrightarrow> pmem t q = pmem s q" by auto
  then show ?thesis by (auto simp: siv_fetch_def split: option.splits sum.splits)
qed

text \<open>A fresh block: nothing that was in use lies in its page.\<close>

lemma fresh_block:
  fixes s :: "'z fsstate_scheme"
  assumes "heap_ok s" "first_free s \<noteq> None" "k \<le> 4088"
  obtains w t where "malloc (of_nat k) s = Inr (w, t)" "heap_ok t" "page_block t w k" "w \<noteq> NULL"
    "pmm.more t = pmm.more s" "hhdm_off t = hhdm_off s" "page_bmp t = page_bmp s"
    "page_of t w \<notin> used_frames s" "used_frames t = insert (page_of t w) (used_frames s)" "unat w + 4088 < 2 ^ 64"
    "\<And>q. settled s q \<Longrightarrow> settled t q \<and> pmem t q = pmem s q \<and> frame q \<noteq> page_of t w"
proof -
  obtain w t where m: "malloc (of_nat k) s = Inr (w, t)"
    using malloc_succeeds [OF assms(1) small_4088 [OF assms(3)] assms(2)] by blast
  note mp = malloc_page [OF assms(1,3) m]
  note pf = page_block_facts [OF mp(1,2)]
  have reg: "bmp_region (page_bmp t) t = bmp_region (page_bmp s) s" using mp(6,7) bmp_region_cong [of t s] by simp
  have keep: "settled t q \<and> pmem t q = pmem s q \<and> frame q \<noteq> page_of t w" if "settled s q" for q
  proof -
    have "frame q \<noteq> page_of t w" using that mp(3) by (auto simp: settled_def)
    then show ?thesis using that mp(4) mp(9) [of q] reg by (simp add: settled_def)
  qed
  have hi: "unat w + 4088 < 2 ^ 64" using page_block_high [OF mp(1,2)] mp(1) by (simp add: heap_ok_def)
  show thesis by (rule that [OF m mp(1,2) pf(8) mp(8,6,7,3,4) hi keep])
qed

text \<open>A whole file read into a block of one page: the rest of the heap is as before.\<close>

lemma read_to_block:
  fixes s :: "'z fsstate_scheme"
  assumes has: "tar_has h ph pt fs path pp nm s bs" and ok: "heap_ok s" "page_block s w k" and len: "length bs \<le> 4088"
    and apart: "\<And>q. q \<in> fs_bytes ph pt fs pp nm \<Longrightarrow> frame q \<noteq> page_of s w"
  obtains t where "tar_read dsd path 0 w (of_nat (length bs)) s = Some t" "load_bytes t w (length bs) = bs" "mem_only s t"
    "\<And>q. frame q \<noteq> page_of s w \<Longrightarrow> pmem t q = pmem s q" "heap_ok t" "page_block t w k"
    "used_frames t = used_frames s" "page_of t w = page_of s w" "page_bmp t = page_bmp s"
proof -
  note pf = page_block_facts [OF ok]
  let ?p = "base s w + 8"
  have sp: "span (hhdm_off s) w (length bs) ?p"
    using payload_span(1) [OF ok(1), of w "length bs"] pf(1,2) len by (simp add: page_of_def)
  have inpage: "frame q = page_of s w" if "q \<in> prange ?p (length bs)" for q
    using that pf(5) len unfolding frame_def by (intro div_nat_eqI) (auto simp: prange_def)
  then have dis: "prange ?p (length bs) \<inter> fs_bytes ph pt fs pp nm = {}" using apart by blast
  obtain t where t: "tar_read dsd path 0 w (of_nat (length bs)) s = Some t" "load_bytes t w (length bs) = bs" "mem_only s t"
    "\<And>q. q \<notin> prange ?p (length bs) \<Longrightarrow> pmem t q = pmem s q"
    using tar_read_source [OF has sp dis, of 0 dsd] by auto
  have out: "pmem t q = pmem s q" if "frame q \<noteq> page_of s w" for q by (rule t(4)) (use inpage that in blast)
  have "data_write s t" using t(3) out pf(10) unfolding data_write_def mem_only_def by blast
  moreover have "pmm_inv s" using ok(1) by (simp add: heap_ok_def)
  ultimately have d: "used_frames t = used_frames s" "page_bmp t = page_bmp s" "hhdm_off t = hhdm_off s" "heap_ok t = heap_ok s"
    by (rule data_write_facts(1,3,4,6))+
  have b: "base t w = base s w" by (rule base_cong [OF d(3)])
  have "load64 t (w - 8) = load64 s (w - 8)"
    by (rule load64_cong [OF pf(6) d(3)], rule t(4)) (use pf(1,5) in \<open>auto simp: prange_def\<close>)
  moreover have "bmp_region (page_bmp t) t = bmp_region (page_bmp s) s" using d(2,3) bmp_region_cong [of t s] by simp
  ultimately have "page_block t w k" using ok(2) b d(1,2) by (simp add: page_block_def block_def)
  then show thesis using that [OF t(1-3) out] d ok(1) b by (simp add: page_of_def)
qed

text \<open>A file of up to a page less the header of the block, read whole into a block for fewer bytes.\<close>

lemma read_into_block:
  fixes s :: "'z fsstate_scheme"
  assumes has: "siv_has h ph pt fs path pp nm fd s bs" and ok: "heap_ok s" "first_free s \<noteq> None"
    and st: "\<And>q. q \<in> fs_bytes ph pt fs pp nm \<Longrightarrow> settled s q" and len: "length bs \<le> 4088" "k \<le> 4088"
  obtains w t1 t2 where "malloc (of_nat k) s = Inr (w, t1)" "siv_read fd 0 w (of_nat (length bs)) t1 = Some (Inr ((), t2))"
    "w \<noteq> NULL" "load_bytes t2 w (length bs) = bs" "siv_has h ph pt fs path pp nm fd t2 bs"
    "pmm.more t1 = pmm.more s" "mem_only t1 t2" "heap_ok t2" "block t2 w (of_nat k)"
    "used_frames t2 - {page_of t2 w} = used_frames s" "unat w + 4088 < 2 ^ 64"
proof -
  obtain w t1 where m: "malloc (of_nat k) s = Inr (w, t1)" "heap_ok t1" "page_block t1 w k" "w \<noteq> NULL"
    "pmm.more t1 = pmm.more s" "hhdm_off t1 = hhdm_off s"
    "page_of t1 w \<notin> used_frames s" "used_frames t1 = insert (page_of t1 w) (used_frames s)" "unat w + 4088 < 2 ^ 64"
    "\<And>q. settled s q \<Longrightarrow> pmem t1 q = pmem s q \<and> frame q \<noteq> page_of t1 w"
    using fresh_block [OF ok len(2)] by metis
  have h1: "siv_has h ph pt fs path pp nm fd t1 bs" by (rule siv_has_more [OF has m(5,6)]) (use st m(10) in blast)
  then have th: "tar_has h ph pt fs path pp nm t1 bs" by (simp add: siv_has_def)
  obtain dsd where dsd: "\<And>off b n. siv_fetch fd off b n t1 = tar_read dsd path off b n t1"
    using siv_fetch_read [OF h1] by blast
  obtain t2 where r: "tar_read dsd path 0 w (of_nat (length bs)) t1 = Some t2" "load_bytes t2 w (length bs) = bs" "mem_only t1 t2"
    "\<And>q. frame q \<noteq> page_of t1 w \<Longrightarrow> pmem t2 q = pmem t1 q" "heap_ok t2" "page_block t2 w k"
    "used_frames t2 = used_frames t1" "page_of t2 w = page_of t1 w"
    using read_to_block [OF th m(2,3) len(1)] st m(10) by metis
  have run: "siv_read fd 0 w (of_nat (length bs)) t1 = Some (Inr ((), t2))"
    using dsd [of 0 w "of_nat (length bs)"] r(1) by (auto simp: siv_fetch_def split: option.splits sum.splits)
  have h2: "siv_has h ph pt fs path pp nm fd t2 bs" by (rule siv_has_keep [OF h1 r(3)]) (use r(4) st m(10) in blast)
  have "used_frames t2 - {page_of t2 w} = used_frames s" using r(7,8) m(7,8) by simp
  then show thesis using that [OF m(1) run m(4) r(2) h2 m(5) r(3,5)] r(6) m(9) by (simp add: page_block_def)
qed

section \<open>Writing into an archive\<close>

text \<open>\<open>len\<close> bytes at \<open>a\<close> that are the same but for \<open>n\<close> bytes from the \<open>j\<close>-th on.\<close>

definition agree_but :: "'z machine_scheme \<Rightarrow> 'z machine_scheme \<Rightarrow> ptr \<Rightarrow> nat \<Rightarrow> nat \<Rightarrow> nat \<Rightarrow> bool" where
  "agree_but s t a len j n \<longleftrightarrow> (\<forall>i < len. i \<notin> {j..<j + n} \<longrightarrow> load8 t (a + of_nat i) = load8 s (a + of_nat i))"

lemma agree_but_before: "agree_but s t a len j n \<Longrightarrow> k \<le> j \<Longrightarrow> k \<le> len \<Longrightarrow> agree s t a k"
  by (simp add: agree_but_def agree_def)

lemma agree_but_shift:
  assumes "agree_but s t a len j n" "k \<le> j" "k + m \<le> len"
  shows "agree_but s t (a + of_nat k) m (j - k) n"
  unfolding agree_but_def
proof (intro allI impI)
  fix i assume "i < m" "i \<notin> {j - k..<j - k + n}"
  then have "k + i < len" "k + i \<notin> {j..<j + n}" using assms(2,3) by auto
  then have "load8 t (a + of_nat (k + i)) = load8 s (a + of_nat (k + i))" using assms(1) unfolding agree_but_def by blast
  then show "load8 t (a + of_nat k + of_nat i) = load8 s (a + of_nat k + of_nat i)" by (simp add: add.assoc)
qed

lemma agree_but_after:
  assumes "agree_but s t a len j n" "j + n \<le> k" "k + m \<le> len"
  shows "agree s t (a + of_nat k) m"
  unfolding agree_def
proof (intro allI impI)
  fix i assume "i < m"
  then have "k + i < len" "k + i \<notin> {j..<j + n}" using assms(2,3) by auto
  then have "load8 t (a + of_nat (k + i)) = load8 s (a + of_nat (k + i))" using assms(1) unfolding agree_but_def by blast
  then show "load8 t (a + of_nat k + of_nat i) = load8 s (a + of_nat k + of_nat i)" by (simp add: add.assoc)
qed

lemma load_bytes_splice:
  assumes "agree_but s t a len j (length ds)" "j + length ds \<le> len" "load_bytes t (a + of_nat j) (length ds) = ds"
  shows "load_bytes t a len = splice j ds (load_bytes s a len)"
proof -
  define r where "r = len - (j + length ds)"
  have len: "len = j + (length ds + r)" using assms(2) by (simp add: r_def)
  have 1: "load_bytes t a j = load_bytes s a j"
    using agree_load_bytes [OF agree_but_before [OF assms(1) order.refl], of 0 j] assms(2) by (simp del: load_bytes.simps)
  have "agree s t (a + of_nat (j + length ds)) r" by (rule agree_but_after [OF assms(1)]) (simp_all add: len)
  then have 3: "load_bytes t (a + of_nat (j + length ds)) r = load_bytes s (a + of_nat (j + length ds)) r"
    using agree_load_bytes [of s t "a + of_nat (j + length ds)" r 0 r] by (simp del: load_bytes.simps)
  have "load_bytes t a len = load_bytes t a j @ load_bytes t (a + of_nat j) (length ds) @ load_bytes t (a + of_nat (j + length ds)) r"
    by (simp add: len load_bytes_append add.assoc)
  also have "\<dots> = take j (load_bytes s a len) @ ds @ drop (j + length ds) (load_bytes s a len)"
    using 1 3 assms(3) by (simp add: take_load_bytes drop_load_bytes len)
  finally show ?thesis by (simp add: splice_def)
qed

text \<open>The data of a file.\<close>

lemma file_at_data:
  assumes "file_at s h (nm, bs)" "agree s t h 512" "length xs = length bs" "load_bytes t (h + 512) (length xs) = xs"
  shows "file_at t h (nm, xs)"
proof -
  have "load_bytes t h (Suc (length nm)) = load_bytes s h (Suc (length nm))"
    using agree_load_bytes [OF assms(2), of 0 "Suc (length nm)"] assms(1) by (simp add: file_at_def del: load_bytes.simps)
  then have "cstr t h nm" using assms(1) cstr_cong unfolding file_at_def by fastforce
  moreover have "load_bytes t (h + 124) 11 = load_bytes s (h + 124) 11"
    using agree_load_bytes [OF assms(2), of 124 11] by simp
  ultimately show ?thesis using assms(1,3,4) by (simp add: file_at_def size_field_def)
qed

lemma update_shape:
  assumes "map_of fs nm = Some b0" "length b0 = length bs"
  shows "tar_len (AList.update nm bs fs) = tar_len fs" "positions h (AList.update nm bs fs) = positions h fs"
    "length (AList.update nm bs fs) = length fs"
proof -
  have s: "file_span (nm, bs) = file_span (nm, b0)" using assms(2) by (simp add: file_span_def)
  have "tar_len (AList.update nm bs fs) = tar_len fs \<and> positions h (AList.update nm bs fs) = positions h fs \<and>
      length (AList.update nm bs fs) = length fs"
    using assms(1)
  proof (induction fs arbitrary: h)
    case (Cons f fs)
    then show ?case by (cases f) (auto simp: s)
  qed simp
  then show "tar_len (AList.update nm bs fs) = tar_len fs" "positions h (AList.update nm bs fs) = positions h fs"
    "length (AList.update nm bs fs) = length fs" by simp_all
qed

text \<open>New bytes in the middle of the first file named \<open>nm\<close>: the archive with that file replaced.\<close>

lemma tar_at_update:
  assumes "tar_at s h fs" "map_of fs nm = Some bs"
  shows "\<exists>k. tar_find h fs nm = Some (h + of_nat k, bs) \<and> k + 512 + length bs \<le> tar_len fs \<and>
    (\<forall>t off ds. off + length ds \<le> length bs \<longrightarrow> agree_but s t h (Suc (tar_len fs)) (k + 512 + off) (length ds) \<longrightarrow>
       load_bytes t (h + of_nat (k + 512 + off)) (length ds) = ds \<longrightarrow>
       tar_at t h (AList.update nm (splice off ds bs) fs))"
  using assms
proof (induction fs arbitrary: h)
  case (Cons f fs)
  obtain m xs where f: "f = (m, xs)" by fastforce
  note b = file_span_bounds(2) [of f]
  show ?case
  proof (cases "m = nm")
    case True
    then have xs: "xs = bs" using Cons.prems(2) f by simp
    have at: "file_at s h (nm, bs)" "tar_at s (h + of_nat (file_span (nm, bs))) fs" using Cons.prems(1) f True xs by simp_all
    have "tar_at t h (AList.update nm (splice off ds bs) (f # fs))"
      if t: "off + length ds \<le> length bs" "agree_but s t h (Suc (tar_len (f # fs))) (512 + off) (length ds)"
        "load_bytes t (h + of_nat (512 + off)) (length ds) = ds" for t off ds
    proof -
      have sp: "file_span (nm, splice off ds bs) = file_span (nm, bs)" using t(1) by (simp add: file_span_def)
      have "agree s t h 512" by (rule agree_but_before [OF t(2)]) (use b in simp_all)
      moreover have "agree_but s t (h + of_nat 512) (length bs) (512 + off - 512) (length ds)"
        by (rule agree_but_shift [OF t(2)]) (use b f xs in simp_all)
      then have "load_bytes t (h + 512) (length bs) = splice off ds (load_bytes s (h + 512) (length bs))"
        using load_bytes_splice [of s t "h + 512" "length bs" off ds] t(1,3) by (simp add: add.assoc)
      moreover have "load_bytes s (h + 512) (length bs) = bs" using at(1) by (simp add: file_at_def)
      ultimately have "file_at t h (nm, splice off ds bs)"
        using t(1) by (intro file_at_data [OF at(1)]) (simp_all del: load_bytes.simps)
      moreover have "agree s t (h + of_nat (file_span (nm, bs))) (Suc (tar_len fs))"
        by (rule agree_but_after [OF t(2)]) (use b f True xs t(1) in simp_all)
      then have "tar_at t (h + of_nat (file_span (nm, bs))) fs" by (rule tar_at_agree [OF at(2)])
      ultimately show ?thesis using f True sp by simp
    qed
    then show ?thesis using True f xs b by (intro exI [of _ 0]) simp
  next
    case False
    let ?n = "file_span f"
    have at: "file_at s h f" "tar_at s (h + of_nat ?n) fs" and mp: "map_of fs nm = Some bs"
      using Cons.prems f False by simp_all
    obtain k where k: "tar_find (h + of_nat ?n) fs nm = Some (h + of_nat ?n + of_nat k, bs)" "k + 512 + length bs \<le> tar_len fs"
      "\<And>t off ds. off + length ds \<le> length bs \<Longrightarrow> agree_but s t (h + of_nat ?n) (Suc (tar_len fs)) (k + 512 + off) (length ds) \<Longrightarrow>
        load_bytes t (h + of_nat ?n + of_nat (k + 512 + off)) (length ds) = ds \<Longrightarrow>
        tar_at t (h + of_nat ?n) (AList.update nm (splice off ds bs) fs)"
      using Cons.IH [OF at(2) mp] by blast
    have "tar_at t h (AList.update nm (splice off ds bs) (f # fs))"
      if t: "off + length ds \<le> length bs" "agree_but s t h (Suc (tar_len (f # fs))) (?n + k + 512 + off) (length ds)"
        "load_bytes t (h + of_nat (?n + k + 512 + off)) (length ds) = ds" for t off ds
    proof -
      have "agree s t h ?n" by (rule agree_but_before [OF t(2)]) simp_all
      then have "file_at t h f" by (rule file_at_agree [OF at(1)])
      moreover have "agree_but s t (h + of_nat ?n) (Suc (tar_len fs)) (?n + k + 512 + off - ?n) (length ds)"
        by (rule agree_but_shift [OF t(2)]) simp_all
      then have "agree_but s t (h + of_nat ?n) (Suc (tar_len fs)) (k + 512 + off) (length ds)" by (simp add: add.assoc)
      then have "tar_at t (h + of_nat ?n) (AList.update nm (splice off ds bs) fs)"
        using k(3) t(1,3) by (simp add: add.assoc)
      ultimately show ?thesis using f False by simp
    qed
    then show ?thesis using False f k(1,2) by (intro exI [of _ "?n + k"]) (simp add: add.assoc)
  qed
qed simp

section \<open>Files as stores\<close>

text \<open>The archive apart from the table of its headers and from the name.\<close>

definition archive_apart :: "u64 \<Rightarrow> u64 \<Rightarrow> tfile list \<Rightarrow> u64 \<Rightarrow> u8 list \<Rightarrow> bool" where
  "archive_apart ph pt fs pp nm \<longleftrightarrow>
     prange ph (Suc (tar_len fs)) \<inter> (prange pt (8 * length fs) \<union> prange pp (Suc (length nm))) = {}"

lemma tar_write_facts:
  fixes s :: "'z fsstate_scheme"
  assumes has: "tar_has h ph pt fs path pp nm s bs" and sp: "span (hhdm_off s) b n r"
    and dis: "prange r n \<inter> fs_bytes ph pt fs pp nm = {}" and on: "off + n \<le> length bs"
    and ap: "archive_apart ph pt fs pp nm"
  defines "new \<equiv> splice off (load_bytes s b n) bs"
  obtains t where "tar_write dsd path (of_nat off) b (of_nat n) s = Some t"
    "tar_has h ph pt (AList.update nm new fs) path pp nm t new" "mem_only s t"
    "\<And>q. q \<notin> prange ph (Suc (tar_len fs)) \<Longrightarrow> pmem t q = pmem s q"
proof -
  have m: "tar_at s h fs" "span (hhdm_off s) h (Suc (tar_len fs)) ph" "headers_ok s (contents s) (positions h fs)"
    "span (hhdm_off s) (headers (contents s)) (8 * length fs) pt" "cstr s path nm"
    "span (hhdm_off s) path (Suc (length nm)) pp" "map_of fs nm = Some bs" "h \<noteq> NULL" "unat h + tar_len fs < 2 ^ 64"
    using has by (auto simp: tar_has_def mounted_def named_def)
  obtain k where k: "tar_find h fs nm = Some (h + of_nat k, bs)" "k + 512 + length bs \<le> tar_len fs"
    "\<And>t off ds. off + length ds \<le> length bs \<Longrightarrow> agree_but s t h (Suc (tar_len fs)) (k + 512 + off) (length ds) \<Longrightarrow>
      load_bytes t (h + of_nat (k + 512 + off)) (length ds) = ds \<Longrightarrow> tar_at t h (AList.update nm (splice off ds bs) fs)"
    using tar_at_update [OF m(1,7)] by blast
  let ?j = "k + 512 + off"
  have fnd: "find_file s (contents s) path = Some (h + of_nat k)" using find_file_archive [OF m(3,1,5)] k(1) by simp
  have sz: "size_field s (h + of_nat k + 124) (length bs)" using tar_find_at [OF m(1) k(1)] by (simp add: file_at_def)
  have len: "length bs < 4294967296" using sz by (simp add: size_field_def)
  have un: "unat (of_nat n :: u64) = n" using on len by (intro unat_of_nat_u64) simp
  have uo: "(ucast (of_nat off :: u32) :: u64) = of_nat off"
    using on len by (simp add: word_unat_eq_iff unat_of_nat_u64 unsigned_ucast_eq unat_of_nat take_bit_eq_mod)
  define dst where "dst = h + of_nat ?j"
  have sd: "span (hhdm_off s) dst n (ph + of_nat ?j)"
    unfolding dst_def by (rule span_shift [OF m(2)]) (use k(2) on in simp)
  have ub: "unat ph + Suc (tar_len fs) \<le> 2 ^ 64" using span_bound [OF m(2)] .
  have ui: "unat (ph + of_nat i) = unat ph + i" if "i < Suc (tar_len fs)" for i
    using ub that by (intro unat_add_of_nat) simp
  have uj: "unat (ph + of_nat ?j) = unat ph + ?j" using k(2) on by (intro ui) simp
  have sub: "prange (ph + of_nat ?j) n \<subseteq> prange ph (Suc (tar_len fs))" using uj k(2) on by (auto simp: prange_def)
  let ?t = "memcpy dst b (of_nat n) s"
  have run: "tar_write dsd path (of_nat off) b (of_nat n) s = Some ?t"
    using fnd tar_count_inside [OF sz, of n] on uo by (simp add: tar_write_def dst_def add.assoc)
  have other: "pmem ?t q = pmem s q" if "q \<notin> prange (ph + of_nat ?j) n" for q
    using pmem_memcpy_other [of s dst "of_nat n" "ph + of_nat ?j", unfolded un, OF sd that] .
  have order: "unat (ph + of_nat ?j) \<le> unat r \<or> unat r + n \<le> unat (ph + of_nat ?j)"
  proof (rule ccontr)
    assume no: "\<not> ?thesis"
    then have "ph + of_nat ?j \<in> prange r n" "ph + of_nat ?j \<in> prange ph (Suc (tar_len fs))"
      using uj k(2) on by (auto simp: prange_def)
    then show False using dis by (auto simp: fs_bytes_def)
  qed
  have got: "load_bytes ?t dst n = load_bytes s b n"
    using memcpy_delivers [of s dst "of_nat n" "ph + of_nat ?j" b r, unfolded un, OF sd sp order] .
  have mo: "mem_only s ?t" unfolding mem_only_def by (rule memcpy_pmem_only)
  note hh = mem_only_fields(1,2) [OF mo]
  have "agree_but s ?t h (Suc (tar_len fs)) ?j (length (load_bytes s b n))"
    unfolding agree_but_def
  proof (intro allI impI)
    fix i assume i: "i < Suc (tar_len fs)" "i \<notin> {?j..<?j + length (load_bytes s b n)}"
    then have "ph + of_nat i \<notin> prange (ph + of_nat ?j) n" using ui [OF i(1)] uj by (auto simp: prange_def)
    then show "load8 ?t (h + of_nat i) = load8 s (h + of_nat i)"
      using m(2) i(1) other hh(1) by (simp add: span_def load8_def)
  qed
  then have at: "tar_at ?t h (AList.update nm new fs)"
    unfolding new_def by (rule k(3) [rotated]) (use on got in \<open>simp_all add: dst_def del: load_bytes.simps\<close>)
  have keep: "pmem ?t q = pmem s q" if "q \<in> prange pt (8 * length fs) \<union> prange pp (Suc (length nm))" for q
    using that ap sub by (intro other) (auto simp: archive_apart_def)
  have nm: "named path pp nm ?t"
    by (rule named_agree [OF _ span_agree [OF m(6) hh(1)] hh(1)]) (use m(5,6) keep in \<open>simp_all add: named_def\<close>)
  have "load64 ?t (headers (contents s) + 8 * of_nat i) = load64 s (headers (contents s) + 8 * of_nat i)"
    if "i < length fs" for i
    using agree_load_bytes [OF span_agree [OF m(4) hh(1)], of "8 * i" 8] keep that by (simp add: load64_def del: load_bytes.simps)
  then have "headers_ok ?t (contents s) (positions h fs)" using m(3) by (simp add: headers_ok_def)
  moreover have ln: "length bs = length new" using on by (simp add: new_def)
  ultimately have "tar_has h ph pt (AList.update nm new fs) path pp nm ?t new"
    using at nm m hh update_shape [OF m(7) ln] by (simp add: tar_has_def mounted_def AList.update_conv')
  then show thesis using that [OF run _ mo] other sub by blast
qed

text \<open>An open file of the archive with new contents of the same length; the other files are as in \<open>fs\<close>.\<close>

definition stored ::
    "ptr \<Rightarrow> u64 \<Rightarrow> u64 \<Rightarrow> tfile list \<Rightarrow> ptr \<Rightarrow> u64 \<Rightarrow> u8 list \<Rightarrow> u32 \<Rightarrow> 'z fsstate_scheme \<Rightarrow> u8 list \<Rightarrow> bool" where
  "stored h ph pt fs path pp nm fd s bs \<longleftrightarrow> siv_has h ph pt (AList.update nm bs fs) path pp nm fd s bs \<and>
     (\<exists>xs. map_of fs nm = Some xs \<and> length xs = length bs) \<and> archive_apart ph pt fs pp nm"

definition siv_put :: "u32 \<Rightarrow> u32 \<Rightarrow> ptr \<Rightarrow> u32 \<Rightarrow> 'z fsstate_scheme \<Rightarrow> 'z fsstate_scheme option" where
  "siv_put fd off b n s = (case siv_write fd off b n s of Some (Inr (_, t)) \<Rightarrow> Some t | _ \<Rightarrow> None)"

lemma siv_has_stored:
  assumes "siv_has h ph pt fs path pp nm fd s bs" "archive_apart ph pt fs pp nm"
  shows "stored h ph pt fs path pp nm fd s bs"
  using assms by (simp add: stored_def siv_has_def tar_has_def AList.update_triv)

lemma stored_shape:
  assumes "stored h ph pt fs path pp nm fd s bs"
  shows "fs_bytes ph pt (AList.update nm bs fs) pp nm = fs_bytes ph pt fs pp nm"
    "archive_apart ph pt (AList.update nm bs fs) pp nm"
    "tar_len (AList.update nm bs fs) = tar_len fs"
  using assms update_shape [of fs nm _ bs] by (auto simp: stored_def fs_bytes_def archive_apart_def)

lemma siv_put_facts:
  assumes st: "stored h ph pt fs path pp nm fd s bs" and sp: "span (hhdm_off s) b n r"
    and dis: "prange r n \<inter> fs_bytes ph pt fs pp nm = {}" and on: "off + n \<le> length bs"
  obtains t where "siv_put fd (of_nat off) b (of_nat n) s = Some t"
    "stored h ph pt fs path pp nm fd t (splice off (load_bytes s b n) bs)" "mem_only s t"
    "\<And>q. q \<notin> prange ph (Suc (tar_len fs)) \<Longrightarrow> pmem t q = pmem s q"
proof -
  let ?fs = "AList.update nm bs fs" and ?new = "splice off (load_bytes s b n) bs"
  note sh = stored_shape [OF st]
  have has: "siv_has h ph pt ?fs path pp nm fd s bs" using st by (simp add: stored_def)
  obtain f drive driver where f: "siv_get_file fd s = Some f" "full_path f = path"
    "drive_driver (unat (f_drive_id f)) s = Some (drive, driver)" "ops driver = tar_ops"
    "unat fd < length (open_file_contents s)" "open_file_contents s ! unat fd = NULL" and th: "tar_has h ph pt ?fs path pp nm s bs"
    using has by (auto simp: siv_has_def)
  obtain t where t: "tar_write (driver_specific_data drive) path (of_nat off) b (of_nat n) s = Some t"
    "tar_has h ph pt (AList.update nm ?new ?fs) path pp nm t ?new" "mem_only s t"
    "\<And>q. q \<notin> prange ph (Suc (tar_len ?fs)) \<Longrightarrow> pmem t q = pmem s q"
    using tar_write_facts [OF th sp _ on sh(2)] dis sh(1) by metis
  note m = mem_only_fields [OF t(3)]
  have same: "siv_get_file fd t = siv_get_file fd s" "drive_driver i t = drive_driver i s" for i
    using m by (simp_all add: siv_get_file_def drive_driver_def)
  then have "siv_has h ph pt (AList.update nm ?new fs) path pp nm fd t ?new"
    using t(2) f m(6) by (simp add: siv_has_def)
  then have "stored h ph pt fs path pp nm fd t ?new" using st on by (simp add: stored_def)
  moreover have "siv_put fd (of_nat off) b (of_nat n) s = Some t"
    using f t(1) by (simp add: siv_put_def siv_write_def with_driver_def call_write_def)
  ultimately show thesis using that t(3,4) sh(3) by simp
qed

interpretation stored: file_store "stored h ph pt fs path pp nm fd" "fs_room ph pt fs pp nm" load_bytes "siv_fetch fd" "siv_put fd"
  for h ph pt fs path pp nm fd
proof (intro file_store.intro file_store_axioms.intro file_source_intro)
  fix s :: "'a fsstate_scheme" and bs b n p off
  assume a: "stored h ph pt fs path pp nm fd s bs" "span (hhdm_off s) b n p"
    "prange p n \<inter> fs_bytes ph pt fs pp nm = {}" "off + n \<le> length bs"
  have "siv_has h ph pt (AList.update nm bs fs) path pp nm fd s bs" using a(1) by (simp add: stored_def)
  from opened_read [OF this a(2) _ a(4)] show "\<exists>t. siv_fetch fd (of_nat off) b (of_nat n) s = Some t \<and>
      load_bytes t b n = take n (drop off bs) \<and> mem_only s t \<and> (\<forall>q. q \<notin> prange p n \<longrightarrow> pmem t q = pmem s q)"
    using a(3) stored_shape(1) [OF a(1)] by (auto simp: siv_fetch_def)
next
  fix s t :: "'a fsstate_scheme" and bs
  assume a: "stored h ph pt fs path pp nm fd s bs" "mem_only s t" "\<And>q. q \<in> fs_bytes ph pt fs pp nm \<Longrightarrow> pmem t q = pmem s q"
  then have "siv_has h ph pt (AList.update nm bs fs) path pp nm fd t bs"
    using stored_shape(1) [OF a(1)] by (intro siv_has_keep [of h ph pt _ path pp nm fd s bs t]) (auto simp: stored_def)
  then show "stored h ph pt fs path pp nm fd t bs" using a(1) by (simp add: stored_def)
next
  fix s t :: "'a fsstate_scheme" and bs b n off c m
  { assume a: "stored h ph pt fs path pp nm fd s bs" "fs_room ph pt fs pp nm s b n" "off + n \<le> length bs"
    then obtain r where r: "span (hhdm_off s) b n r" "prange r n \<inter> fs_bytes ph pt fs pp nm = {}" by (auto simp: fs_room_def)
    obtain u where u: "siv_put fd (of_nat off) b (of_nat n) s = Some u"
      "stored h ph pt fs path pp nm fd u (splice off (load_bytes s b n) bs)" "mem_only s u"
      "\<And>q. q \<notin> prange ph (Suc (tar_len fs)) \<Longrightarrow> pmem u q = pmem s q"
      using siv_put_facts [OF a(1) r a(3)] by metis
    then show "\<exists>t. siv_put fd (of_nat off) b (of_nat n) s = Some t \<and>
        stored h ph pt fs path pp nm fd t (splice off (load_bytes s b n) bs)" by blast
    assume "siv_put fd (of_nat off) b (of_nat n) s = Some t" and c: "fs_room ph pt fs pp nm s c m"
    then have ut: "u = t" using u(1) by simp
    have hh: "hhdm_off u = hhdm_off s" by (rule mem_only_fields(1) [OF u(3)])
    obtain p where p: "span (hhdm_off s) c m p" "prange p m \<inter> fs_bytes ph pt fs pp nm = {}" using c by (auto simp: fs_room_def)
    have "load_bytes u c m = load_bytes s c m"
      by (rule load_bytes_cong [OF p(1) hh]) (use u(4) p(2) in \<open>auto simp: fs_bytes_def\<close>)
    then show "fs_room ph pt fs pp nm t c m \<and> load_bytes t c m = load_bytes s c m"
      using c fs_room_cong [OF hh] unfolding ut by simp }
  show "length (load_bytes s b n) = n" by simp
qed

section \<open>Files kept in memory\<close>

text \<open>The contents of the open file \<open>fd\<close> lie in the block \<open>w\<close>.\<close>

definition cached :: "u32 \<Rightarrow> ptr \<Rightarrow> u8 list \<Rightarrow> 'z fsstate_scheme \<Rightarrow> bool" where
  "cached fd w bs s \<longleftrightarrow> unat fd < length (open_file_contents s) \<and> open_file_contents s ! unat fd = w \<and>
     heap_ok s \<and> page_block s w (length bs) \<and> load_bytes s w (length bs) = bs"

lemma cached_keep:
  assumes "cached fd w bs s" "mem_only s t"
    and "\<And>q. frame q = page_of s w \<or> q \<in> bmp_region (page_bmp s) s \<Longrightarrow> pmem t q = pmem s q"
  shows "cached fd w bs t" "used_frames t = used_frames s" "page_of t w = page_of s w" "page_bmp t = page_bmp s"
proof -
  have c: "heap_ok s" "page_block s w (length bs)" using assms(1) by (simp_all add: cached_def)
  have "data_write s t" using assms(2,3) by (simp add: data_write_def mem_only_def)
  moreover have "pmm_inv s" using c(1) by (simp add: heap_ok_def)
  ultimately have d: "used_frames t = used_frames s" "page_bmp t = page_bmp s" "hhdm_off t = hhdm_off s" "heap_ok t = heap_ok s"
    by (rule data_write_facts(1,3,4,6))+
  have "page_of s w \<in> used_frames t" using page_block_facts(3) [OF c] d(1) by simp
  then have k: "page_block t w (length bs)" "page_of t w = page_of s w" "load_bytes t w (length bs) = load_bytes s w (length bs)"
    by (rule page_block_keep [OF c d(3,2)], use assms(3) in blast)+
  then show "cached fd w bs t" using assms(1) d(4) mem_only_fields(6) [OF assms(2)] by (simp add: cached_def)
  show "used_frames t = used_frames s" "page_of t w = page_of s w" "page_bmp t = page_bmp s" by (rule d k)+
qed

lemma cached_read:
  assumes "cached fd w bs s" "span (hhdm_off s) b n r" "off + n \<le> length bs"
    and "\<And>q. q \<in> prange r n \<Longrightarrow> frame q \<noteq> page_of s w"
  obtains t where "siv_read fd (of_nat off) b (of_nat n) s = Some (Inr ((), t))" "load_bytes t b n = take n (drop off bs)"
    "mem_only s t" "\<And>q. q \<notin> prange r n \<Longrightarrow> pmem t q = pmem s q"
proof -
  have c: "heap_ok s" "page_block s w (length bs)" "load_bytes s w (length bs) = bs" "unat fd < length (open_file_contents s)"
    "open_file_contents s ! unat fd = w" using assms(1) by (simp_all add: cached_def)
  note f = page_block_facts [OF c(1,2)]
  have len: "length bs \<le> 4088" using c(2) by (simp add: page_block_def)
  have un: "unat (of_nat n :: u64) = n" using assms(3) len by (intro unat_of_nat_u64) simp
  have uc: "(ucast (of_nat k :: u32) :: u64) = of_nat k" if "k \<le> 4088" for k
    using that by (simp add: word_unat_eq_iff unat_of_nat_u64 unsigned_ucast_eq unat_of_nat take_bit_eq_mod)
  have ss: "span (hhdm_off s) (w + of_nat off) n (base s w + 8 + of_nat off)" by (rule span_shift [OF f(4) assms(3)])
  have inb: "frame q = page_of s w" if "q \<in> prange (base s w + 8 + of_nat off) n" for q
  proof (rule frame_in_block [OF c(1,2)], rule disjI1)
    have "prange (base s w + 8 + of_nat off) n \<subseteq> prange (base s w + 8) (off + n)"
      by (rule prange_part(1)) (rule span_mono [OF f(4) assms(3)])
    moreover have "prange (base s w + 8) (off + n) \<subseteq> prange (base s w + 8) (length bs)"
      by (rule prange_subset) (use assms(3) in simp_all)
    ultimately show "q \<in> prange (base s w + 8) (length bs)" using that by blast
  qed
  have order: "unat r \<le> unat (base s w + 8 + of_nat off) \<or> unat (base s w + 8 + of_nat off) + n \<le> unat r"
  proof (rule ccontr)
    assume no: "\<not> ?thesis"
    then have "r \<in> prange (base s w + 8 + of_nat off) n" "r \<in> prange r n" by (auto simp: prange_def)
    then show False using inb assms(4) by blast
  qed
  let ?t = "memcpy b (w + of_nat off) (of_nat n) s"
  have "siv_read fd (of_nat off) b (of_nat n) s = Some (Inr ((), ?t))"
    using c(4,5) f(8) uc assms(3) len by (simp add: siv_read_def)
  moreover have "load_bytes ?t b n = take n (drop off bs)"
  proof -
    have "load_bytes ?t b n = load_bytes s (w + of_nat off) n"
      using memcpy_delivers [of s b "of_nat n" r "w + of_nat off", unfolded un, OF assms(2) ss order] .
    also have "\<dots> = take n (drop off (load_bytes s w (length bs)))"
      using assms(3) by (simp add: drop_load_bytes take_load_bytes)
    finally show ?thesis by (simp only: c(3))
  qed
  moreover have "mem_only s ?t" unfolding mem_only_def by (rule memcpy_pmem_only)
  ultimately show thesis
    using that pmem_memcpy_other [of s b "of_nat n" r, unfolded un, OF assms(2)] by blast
qed

lemma cached_close:
  assumes "cached fd w bs s" "unat fd < length (open_files s)"
  obtains t where "siv_close fd s = Inr ((), t)" "used_frames t = used_frames s - {page_of s w}" "heap_ok t"
    "siv_get_file fd t = Some zero_file" "open_file_contents t ! unat fd = NULL"
proof -
  have c: "heap_ok s" "page_block s w (length bs)" "unat fd < length (open_file_contents s)"
    "open_file_contents s ! unat fd = w" using assms(1) by (simp_all add: cached_def)
  have r: "w = NULL \<or> page_block s w (length bs)" using c(2) by blast
  note fr = free_released [OF c(1) r] and nn = page_block_facts(8) [OF c(1,2)]
  let ?u = "free w s"
  note ff = fs_fields [OF fr(6)]
  let ?t = "?u\<lparr>open_file_contents := (open_file_contents s)[unat fd := NULL], open_files := (open_files s)[unat fd := zero_file]\<rparr>"
  have "siv_close fd s = Inr ((), ?t)"
    using c(3,4) nn ff assms(2) by (simp add: siv_close_def set_contents_def set_open_file_def)
  moreover have "used_frames ?t = used_frames ?u" "heap_ok ?t = heap_ok ?u" by (simp_all add: heap_state_defs v2p_def)
  ultimately show thesis
    using that fr(1,2) nn c(3) assms(2) by (simp add: released_def siv_get_file_def)
qed

text \<open>The table of contents is not part of the heap.\<close>

lemma contents_block:
  fixes s :: "'z fsstate_scheme"
  shows "heap_ok (s\<lparr>open_file_contents := xs\<rparr>) = heap_ok s"
    "page_block (s\<lparr>open_file_contents := xs\<rparr>) w k = page_block s w k"
    "used_frames (s\<lparr>open_file_contents := xs\<rparr>) = used_frames s" "page_of (s\<lparr>open_file_contents := xs\<rparr>) w = page_of s w"
proof -
  let ?t = "s\<lparr>open_file_contents := xs\<rparr>"
  have b: "base ?t w = base s w" by (rule base_cong) simp
  have reg: "bmp_region (page_bmp ?t) ?t = bmp_region (page_bmp s) s" by (simp add: bmp_region_def)
  show eq: "heap_ok ?t = heap_ok s" "used_frames ?t = used_frames s" by (simp_all add: heap_state_defs v2p_def)
  have ld: "load64 ?t (w - 8) = load64 s (w - 8)" by (simp add: load64_def load_bytes_map load8_def)
  show "page_block ?t w k = page_block s w k" unfolding page_block_def block_def b reg eq ld by simp
  show "page_of ?t w = page_of s w" unfolding page_of_def b by (rule refl)
qed

text \<open>Opening with the flag that asks for a copy.\<close>

lemma siv_open_cached:
  fixes s :: "'z fsstate_scheme"
  assumes vol: "volume_ready h ph pt fs path pp nm s" and "map_of fs nm = Some bs" "plain_file h fs nm s"
    and "length bs \<le> 4088" "flags AND SIV_FLAGS_FORCE_PRELOAD \<noteq> 0"
  obtains w t f drive where "siv_open 0 path flags s = Some (Inr (siv_num_open_files s, t))"
    "cached (siv_num_open_files s) w bs t" "tar_has h ph pt fs path pp nm t bs" "siv_get_file (siv_num_open_files s) t = Some f"
    "full_path f = path" "drive_driver (unat (f_drive_id f)) t = Some (drive, \<lparr>is_virtual = True, ops = tar_ops\<rparr>)"
    "hhdm_off t = hhdm_off s" "page_bmp t = page_bmp s"
    "page_of t w \<notin> used_frames s" "used_frames t = insert (page_of t w) (used_frames s)"
    "\<And>q. settled s q \<Longrightarrow> settled t q \<and> pmem t q = pmem s q \<and> frame q \<noteq> page_of t w"
proof -
  have a: "mounted h ph pt fs s" "named path pp nm s" "path \<noteq> NULL" "heap_ok s" "first_free s \<noteq> None"
    "\<And>q. q \<in> fs_bytes ph pt fs pp nm \<Longrightarrow> settled s q" "tar_drive 0 s" "tar_drive (unat (tar_drive_id s)) s"
    "slot_free s" using vol by (auto simp: volume_ready_def)
  let ?fd = "siv_num_open_files s"
  let ?s1 = "s\<lparr>siv_num_open_files := ?fd + 1\<rparr>"
  have has: "tar_has h ph pt fs path pp nm s bs" using a(1,2) assms(2) by (simp add: tar_has_def)
  obtain drive where dr: "drive_driver 0 s = Some (drive, \<lparr>is_virtual = True, ops = tar_ops\<rparr>)"
    using a(7) by (auto simp: tar_drive_def)
  have h1: "tar_has h ph pt fs path pp nm ?s1 bs" by (rule tar_has_keep [OF has]) simp_all
  have "plain_file h fs nm ?s1" using assms(3) by (auto simp: plain_file_def load8_def split: option.splits)
  from tar_get_props_found [OF h1 this] obtain f where f: "tar_get_props (driver_specific_data drive) path ?s1 = Some f"
    "f_size f = of_nat (length bs)" "full_path f = path" "\<not> isdir f" "f_drive_id f = tar_drive_id s" by auto
  let ?s2 = "?s1\<lparr>open_files := (open_files s)[unat ?fd := f]\<rparr>"
  have slot: "unat ?fd < length (open_files s)" "unat ?fd < length (open_file_contents s)"
    using a(9) by (auto simp: slot_free_def)
  have same: "heap_ok ?s2 = heap_ok s" "used_frames ?s2 = used_frames s" "\<And>q. settled ?s2 q = settled s q"
    by (simp_all add: settled_def heap_state_defs v2p_def)
  have "used ?s2 = used s" by (simp add: fun_eq_iff heap_state_defs v2p_def)
  then have ff: "first_free ?s2 = first_free s" by (simp add: first_free_def nframes_def)
  obtain w t1 where m: "malloc (of_nat (length bs)) ?s2 = Inr (w, t1)" "heap_ok t1" "page_block t1 w (length bs)" "w \<noteq> NULL"
    "pmm.more t1 = pmm.more ?s2" "hhdm_off t1 = hhdm_off s" "page_bmp t1 = page_bmp s"
    "page_of t1 w \<notin> used_frames s" "used_frames t1 = insert (page_of t1 w) (used_frames s)"
    "\<And>q. settled s q \<Longrightarrow> settled t1 q \<and> pmem t1 q = pmem s q \<and> frame q \<noteq> page_of t1 w"
  proof (rule fresh_block [of ?s2 "length bs"])
    show "heap_ok ?s2" "first_free ?s2 \<noteq> None" "length bs \<le> 4088" using same(1) ff a(4,5) assms(4) by simp_all
  qed (unfold same(2,3), use that in auto)
  note fl = fs_fields [OF m(5)]
  let ?t2 = "t1\<lparr>open_file_contents := (open_file_contents s)[unat ?fd := w]\<rparr>"
  have h2: "tar_has h ph pt fs path pp nm ?t2 bs" by (rule tar_has_keep [OF has]) (use m(6,10) fl a(6) in auto)
  note t2 = contents_block [where s = t1 and xs = "(open_file_contents s)[unat ?fd := w]"]
  obtain t where r: "tar_read (driver_specific_data drive) path 0 w (of_nat (length bs)) ?t2 = Some t" "load_bytes t w (length bs) = bs"
    "mem_only ?t2 t" "\<And>q. frame q \<noteq> page_of t1 w \<Longrightarrow> pmem t q = pmem t1 q" "heap_ok t" "page_block t w (length bs)"
    "used_frames t = used_frames t1" "page_of t w = page_of t1 w" "page_bmp t = page_bmp s"
  proof (rule read_to_block [OF h2, of w "length bs" "driver_specific_data drive"])
    show "heap_ok ?t2" "page_block ?t2 w (length bs)" "length bs \<le> 4088" using t2 m(2,3) assms(4) by simp_all
    show "frame q \<noteq> page_of ?t2 w" if "q \<in> fs_bytes ph pt fs pp nm" for q using t2(4) m(10) a(6) that by simp
  qed (unfold t2(3,4), use that m(7) in auto)
  note mo = mem_only_fields [OF r(3)]
  have n: "(ucast (of_nat (length bs) :: u64) :: u32) = of_nat (length bs)"
    using assms(4) by (simp add: word_unat_eq_iff unsigned_ucast_eq unat_of_nat take_bit_eq_mod)
  have run: "siv_open 0 path flags s = Some (Inr (?fd, t))"
    using dr f slot a(3) assms(5) m(1) fl r(1) n
    by (simp add: siv_open_def call_get_props_def call_read_def set_open_file_def set_contents_def Let_def)
  have h3: "tar_has h ph pt fs path pp nm t bs" by (rule tar_has_keep [OF h2 mo(1,2)]) (use r(4) m(10) a(6) in auto)
  have "cached ?fd w bs t" using r(2,5,6) mo(6) slot by (simp add: cached_def)
  moreover have "siv_get_file ?fd t = Some f" using mo(5) fl slot by (simp add: siv_get_file_def)
  moreover have dd: "drive_driver i t = drive_driver i s" for i using mo(3,4) fl by (simp add: drive_driver_def)
  then obtain dv where "drive_driver (unat (f_drive_id f)) t = Some (dv, \<lparr>is_virtual = True, ops = tar_ops\<rparr>)"
    using a(8) f(5) by (auto simp: tar_drive_def)
  moreover have "settled t q \<and> pmem t q = pmem s q \<and> frame q \<noteq> page_of t w" if "settled s q" for q
    using m(10) [OF that] r(4) [of q] r(7-9) bmp_region_cong [of t t1] m(6,7) mo(1) by (auto simp: settled_def)
  ultimately show thesis using that [OF run] h3 f(3) m(6,8,9) mo(1) r(7-9) by simp
qed

section \<open>A sample volume\<close>

text \<open>The sample machine with a mounted archive of one file and its table in frame 3.\<close>

definition volume_with :: "(u64 \<Rightarrow> u8) \<Rightarrow> unit fsstate_scheme" where
  "volume_with m = (sample_fs ())
     \<lparr>pmem := m, contents := \<lparr>hdr_num = 1, headers = 0x3800\<rparr>, siv_num_drives := 1, siv_num_drivers := 1,
      siv_drives := \<lparr>sig = lit ''INRD'', driver_id = 0, driver_specific_data = NULL\<rparr> # replicate 63 zero_drive,
      siv_drivers := \<lparr>is_virtual = True, ops = tar_ops\<rparr> # replicate 7 zero_driver\<rparr>"

lemma bytes_at_frame:
  assumes "0x3000 \<le> a" "a + length xs \<le> 0x4000" "unat q < 0x3000 \<or> 0x4000 \<le> unat q"
  shows "bytes_at (of_nat a) xs m q = m q"
proof -
  have "unat (of_nat a :: u64) = a" if "length xs \<noteq> 0" using assms(2) that by (intro unat_of_nat_u64) simp
  then have "unat (q - of_nat a) = (if a \<le> unat q then unat q - a else unat q + 18446744073709551616 - a)"
    if "length xs \<noteq> 0" using that by (simp add: unat_sub_if_size word_size word_le_nat_alt)
  then have "\<not> unat (q - of_nat a) < length xs" using assms by (cases "length xs = 0") auto
  then show ?thesis by (simp add: bytes_at_def)
qed

lemma volume_with_heap:
  assumes "\<And>q. unat q < 0x3000 \<or> 0x4000 \<le> unat q \<Longrightarrow> m q = sample_mem 0x0F q"
  shows "heap_ok (volume_with m)" "first_free (volume_with m) = Some 4" "used_frames (volume_with m) = {0, 1, 2, 3}"
    "hhdm_off (volume_with m) = 0xFFFF800000000000" "bmp_region (page_bmp (volume_with m)) (volume_with m) = prange 0x1000 4096"
    "unat a < 0x8000 \<Longrightarrow> load8 (volume_with m) a = m a" "settled (volume_with m) q = (frame q \<in> {0, 1, 2, 3} \<and> q \<notin> prange 0x1000 4096)"
proof -
  let ?v = "volume_with m"
  let ?s = "sample (pmm.more ?v)"
  have eq: "?v = ?s\<lparr>pmem := m\<rparr>"
    by (simp add: volume_with_def sample_fs_def sample_def sample_with_def siv_init_def sample_acpi_def sample_int_def sample_io_def)
  have ok: "pmm_inv ?s" using sample_heap_ok [of "pmm.more ?v"] by (simp add: heap_ok_def)
  have "data_write ?s (?s\<lparr>pmem := m\<rparr>)"
    unfolding data_write_def sample_bmp_region using assms by (auto simp: sample_def prange_def)
  note d = data_write_facts [OF this ok, folded eq]
  show "heap_ok ?v" "first_free ?v = Some 4" and uf: "used_frames ?v = {0, 1, 2, 3}"
    using d by (simp_all add: sample_heap_ok sample_first_free sample_used_frames)
  show off: "hhdm_off ?v = 0xFFFF800000000000" using d(4) by (simp add: sample_def)
  show reg: "bmp_region (page_bmp ?v) ?v = prange 0x1000 4096"
    using sample_bmp_region [of "pmm.more ?v"] d(3,4) bmp_region_cong [of ?v ?s] by simp
  show "unat a < 0x8000 \<Longrightarrow> load8 ?v a = m a"
    using arg_cong [OF eq, of pmem] by (simp add: load8_def off v2p_def word_less_nat_alt)
  show "settled ?v q = (frame q \<in> {0, 1, 2, 3} \<and> q \<notin> prange 0x1000 4096)" by (auto simp: settled_def uf reg)
qed

lemma volume_with_fields [simp]:
  "contents (volume_with m) = \<lparr>hdr_num = 1, headers = 0x3800\<rparr>" "tar_drive_id (volume_with m) = 0"
  "siv_num_open_files (volume_with m) = 0" "open_files (volume_with m) = replicate 64 zero_file"
  "open_file_contents (volume_with m) = replicate 64 NULL"
  by (simp_all add: volume_with_def) (simp add: sample_fs_def siv_init_def sample_acpi_def sample_int_def sample_io_def)

lemma volume_with_ready:
  assumes m: "\<And>q. unat q < 0x3000 \<or> 0x4000 \<le> unat q \<Longrightarrow> m q = sample_mem 0x0F q"
    and "tar_at (volume_with m) 0x3000 [f]" "load64 (volume_with m) 0x3800 = 0x3000" "tar_len [f] < 0x1000"
    and "cstr (volume_with m) a nm" "0x3000 \<le> unat a" "unat a + length nm < 0x4000"
  shows "volume_ready 0x3000 0x3000 0x3800 [f] a a nm (volume_with m)"
proof -
  note h = volume_with_heap [of m, OF m]
  have sp: "span (hhdm_off (volume_with m)) x k x" if "unat x + k \<le> 0x8000" for x k
    using that by (intro span_low) (simp add: h(4))
  have "headers_ok (volume_with m) (contents (volume_with m)) (positions 0x3000 [f])" using assms(3) by (simp add: headers_ok_def)
  then have "mounted 0x3000 0x3000 0x3800 [f] (volume_with m)"
    unfolding mounted_def using assms(2,4) sp by simp
  moreover have "named a a nm (volume_with m)" using assms(5-7) sp by (simp add: named_def)
  moreover have "settled (volume_with m) q" if "q \<in> fs_bytes 0x3000 0x3800 [f] a nm" for q
  proof -
    have "0x3000 \<le> unat q" "unat q < 0x4000" using that assms(4,6,7) unfolding fs_bytes_def by (auto simp: prange_def)
    then show ?thesis by (simp add: h(7) prange_def frame_def div_nat_eqI)
  qed
  moreover have "tar_drive 0 (volume_with m)" by (simp add: tar_drive_def drive_driver_def volume_with_def)
  ultimately show ?thesis using assms(6) h(1,2) by (auto simp: volume_ready_def slot_free_def)
qed

text \<open>A file of four bytes, its name apart from the archive.\<close>

definition store_mem :: "u64 \<Rightarrow> u8" where
  "store_mem = bytes_at 0x3900 [97] (bytes_at 0x3800 [0, 0x30] (bytes_at 0x3000 [97]
     (bytes_at 0x307C [48, 48, 48, 48, 48, 48, 48, 48, 48, 48, 52] (bytes_at 0x3200 [65, 66, 67, 68]
     (bytes_at 0x3A00 [88, 89] (sample_mem 0x0F))))))"

definition sample_store :: "unit fsstate_scheme" where "sample_store = volume_with store_mem"

lemma store_mem_other: "unat q < 0x3000 \<or> 0x4000 \<le> unat q \<Longrightarrow> store_mem q = sample_mem 0x0F q"
  using bytes_at_frame [of "0x3900" "[97]" q] bytes_at_frame [of "0x3800" "[0, 0x30]" q] bytes_at_frame [of "0x3000" "[97]" q]
    bytes_at_frame [of "0x307C" "[48, 48, 48, 48, 48, 48, 48, 48, 48, 48, 52]" q]
    bytes_at_frame [of "0x3200" "[65, 66, 67, 68]" q] bytes_at_frame [of "0x3A00" "[88, 89]" q]
  by (simp add: store_mem_def)

lemmas sample_store_heap = volume_with_heap [OF store_mem_other, folded sample_store_def]

lemma sample_store_volume:
  "volume_ready 0x3000 0x3000 0x3800 [([97], [65, 66, 67, 68])] 0x3900 0x3900 [97] sample_store"
  "plain_file 0x3000 [([97], [65, 66, 67, 68])] [97] sample_store"
  "archive_apart 0x3000 0x3800 [([97], [65, 66, 67, 68])] 0x3900 [97]"
  "load_bytes sample_store 0x3A00 2 = [88, 89]"
proof -
  note ev = sample_store_heap(6) store_mem_def bytes_at_def sample_mem_def
  have n: "(11 :: nat) = Suc (Suc (Suc (Suc (Suc (Suc (Suc (Suc (Suc (Suc (Suc 0))))))))))"
    "(8 :: nat) = Suc (Suc (Suc (Suc (Suc (Suc (Suc (Suc 0)))))))" "(2 :: nat) = Suc (Suc 0)"
    by simp_all
  have "load_bytes sample_store 0x307C 11 = [48, 48, 48, 48, 48, 48, 48, 48, 48, 48, 52]"
    by (simp only: n load_bytes.simps) (simp add: ev)
  then have "size_field sample_store 0x307C (Suc (Suc (Suc (Suc 0))))" by (simp add: size_field_def is_octal_def digits_value_def)
  moreover have "load_bytes sample_store 0x3200 (Suc (Suc (Suc (Suc 0)))) = [65, 66, 67, 68]" by (simp add: ev)
  moreover have "cstr sample_store 0x3000 [97]" "load8 sample_store 0x3400 = 0" by (simp_all add: ev)
  ultimately have "tar_at sample_store 0x3000 [([97], [65, 66, 67, 68])]"
    by (simp add: file_at_def file_span_def del: load_bytes.simps)
  moreover have "load_bytes sample_store 0x3800 8 = [0, 0x30, 0, 0, 0, 0, 0, 0]"
    by (simp only: n load_bytes.simps) (simp add: ev)
  then have "load64 sample_store 0x3800 = 0x3000" by (simp add: load64_def del: load_bytes.simps)
  moreover have "cstr sample_store 0x3900 [97]" by (simp add: ev)
  ultimately show "volume_ready 0x3000 0x3000 0x3800 [([97], [65, 66, 67, 68])] 0x3900 0x3900 [97] sample_store"
    unfolding sample_store_def by (intro volume_with_ready store_mem_other) (simp_all add: file_span_def)
  show "plain_file 0x3000 [([97], [65, 66, 67, 68])] [97] sample_store" by (simp add: plain_file_def ev)
  show "archive_apart 0x3000 0x3800 [([97], [65, 66, 67, 68])] 0x3900 [97]"
    by (auto simp: archive_apart_def prange_def file_span_def)
  show "load_bytes sample_store 0x3A00 2 = [88, 89]" by (simp only: n load_bytes.simps) (simp add: ev)
qed

section \<open>Properties\<close>

text \<open>
  C27. Writing to a file and reading it back. \<open>siv_write\<close> in chunks of any sizes inside an open file of the
  archive, from a buffer apart from it, replaces these bytes in the archive, whose other files stay as
  they are; reading in other chunks, at any place, then delivers the new contents.
\<close>

theorem siv_write_spec:
  assumes "siv_has h ph pt fs path pp nm fd s bs" "archive_apart ph pt fs pp nm"
    and "fs_room ph pt fs pp nm s b (sum_list ns)" "off + sum_list ns \<le> length bs"
    and "fs_room ph pt fs pp nm s c (sum_list ms)" "pos + sum_list ms \<le> length bs"
  shows "let new = splice off (load_bytes s b (sum_list ns)) bs in
    \<exists>t u. chunks (siv_put fd) off b ns s = Some t \<and> tar_at t h (AList.update nm new fs) \<and>
      chunks (siv_fetch fd) pos c ms t = Some u \<and>
      load_bytes u c (sum_list ms) = take (sum_list ms) (drop pos new)"
  using stored.put_then_read [OF siv_has_stored [OF assms(1,2)] assms(3-6)]
  by (auto simp: Let_def stored_def siv_has_def tar_has_def mounted_def simp del: load_bytes.simps)

text \<open>The middle of the file overwritten in two chunks, the whole read back.\<close>

theorem siv_write_spec_witness:
  "\<exists>s t u. siv_open 0 0x3900 0 sample_store = Some (Inr (0, s)) \<and> chunks (siv_put 0) 1 0x3A00 [1, 1] s = Some t \<and>
    chunks (siv_fetch 0) 0 0x3B00 [4] t = Some u \<and> load_bytes u 0x3B00 (sum_list [4]) = [65, 88, 89, 68]"
proof -
  let ?fs = "[([97 :: u8], [65, 66, 67, 68 :: u8])]"
  note v = sample_store_volume(1) [unfolded volume_ready_def]
  have has: "tar_has 0x3000 0x3000 0x3800 ?fs 0x3900 0x3900 [97] sample_store [65, 66, 67, 68]"
    using v by (simp add: tar_has_def)
  have fd: "siv_num_open_files sample_store = 0" by (simp add: sample_store_def)
  obtain s where "siv_open 0 0x3900 0 sample_store = Some (Inr (siv_num_open_files sample_store, s))"
    "siv_has 0x3000 0x3000 0x3800 ?fs 0x3900 0x3900 [97] (siv_num_open_files sample_store) s [65, 66, 67, 68]"
    "pmem s = pmem sample_store" "hhdm_off s = hhdm_off sample_store"
    by (rule siv_open_found [OF has, of 0 0]) (use v sample_store_volume(2) in simp_all)
  note s = this [unfolded fd]
  have sp: "span (hhdm_off s) a k a" if "unat a + k \<le> 0x8000" for a k
    using that by (intro span_low) (simp add: s(4) sample_store_heap(4))
  have rm: "fs_room 0x3000 0x3800 ?fs 0x3900 [97] s a k" if "0x3910 \<le> unat a" "unat a + k \<le> 0x4000" for a k
    using that sp [of a k] by (auto simp: fs_room_def fs_bytes_def prange_def file_span_def intro!: exI [of _ a])
  have "load_bytes s 0x3A00 2 = load_bytes sample_store 0x3A00 2"
    by (simp add: load_bytes_map load8_def s(3,4))
  moreover have "sum_list [1, 1] = (2 :: nat)" by simp
  ultimately have ld: "load_bytes s 0x3A00 (sum_list [1, 1]) = [88, 89]" using sample_store_volume(4) by (simp only:)
  have "fs_room 0x3000 0x3800 ?fs 0x3900 [97] s 0x3A00 (sum_list [1, 1])"
    "fs_room 0x3000 0x3800 ?fs 0x3900 [97] s 0x3B00 (sum_list [4])" by (rule rm; simp)+
  from siv_write_spec [OF s(2) sample_store_volume(3) this(1) _ this(2), of 1 0, unfolded ld] s(1)
  show ?thesis by (auto simp: splice_def Let_def simp del: load_bytes.simps chunks.simps)
qed

text \<open>
  C28. A file opened with the flag that asks for a copy. A write goes to the archive, but what is read
  through the same descriptor is the copy, with the bytes from before; closing the file gives the page
  of the copy back and clears its slot.
\<close>

theorem siv_preload_spec:
  assumes vol: "volume_ready h ph pt fs path pp nm s" "map_of fs nm = Some bs" "plain_file h fs nm s" "length bs \<le> 4088"
    "flags AND SIV_FLAGS_FORCE_PRELOAD \<noteq> 0" "archive_apart ph pt fs pp nm"
    and src: "span (hhdm_off s) d m r" "prange r m \<inter> fs_bytes ph pt fs pp nm = {}" "\<forall>q \<in> prange r m. settled s q"
      "k + m \<le> length bs"
    and dst: "span (hhdm_off s) b n p" "\<forall>q \<in> prange p n. settled s q" "off + n \<le> length bs"
  shows "\<exists>t u v x. siv_open 0 path flags s = Some (Inr (siv_num_open_files s, t)) \<and>
    siv_write (siv_num_open_files s) (of_nat k) d (of_nat m) t = Some (Inr ((), u)) \<and>
    tar_at u h (AList.update nm (splice k (load_bytes s d m) bs) fs) \<and>
    siv_read (siv_num_open_files s) (of_nat off) b (of_nat n) u = Some (Inr ((), v)) \<and>
    load_bytes v b n = take n (drop off bs) \<and>
    siv_close (siv_num_open_files s) v = Inr ((), x) \<and> used_frames x = used_frames s \<and> heap_ok x \<and>
    siv_get_file (siv_num_open_files s) x = Some zero_file"
proof -
  let ?fd = "siv_num_open_files s"
  obtain w t f drive where t: "siv_open 0 path flags s = Some (Inr (?fd, t))" "cached ?fd w bs t"
    "tar_has h ph pt fs path pp nm t bs" "siv_get_file ?fd t = Some f" "full_path f = path"
    "drive_driver (unat (f_drive_id f)) t = Some (drive, \<lparr>is_virtual = True, ops = tar_ops\<rparr>)"
    "hhdm_off t = hhdm_off s" "page_bmp t = page_bmp s"
    "page_of t w \<notin> used_frames s" "used_frames t = insert (page_of t w) (used_frames s)"
    "\<And>q. settled s q \<Longrightarrow> settled t q \<and> pmem t q = pmem s q \<and> frame q \<noteq> page_of t w"
    using siv_open_cached [OF vol(1-5)] by metis
  have fs: "settled s q" if "q \<in> fs_bytes ph pt fs pp nm" for q using vol(1) that by (simp add: volume_ready_def)
  have srct: "span (hhdm_off t) d m r" using src(1) t(7) by simp
  obtain u where u: "tar_write (driver_specific_data drive) path (of_nat k) d (of_nat m) t = Some u"
    "tar_has h ph pt (AList.update nm (splice k (load_bytes t d m) bs) fs) path pp nm u (splice k (load_bytes t d m) bs)"
    "mem_only t u" "\<And>q. q \<notin> prange ph (Suc (tar_len fs)) \<Longrightarrow> pmem u q = pmem t q"
    using tar_write_facts [OF t(3) srct src(2,4) vol(6)] by metis
  have wr: "siv_write ?fd (of_nat k) d (of_nat m) t = Some (Inr ((), u))"
    using t(4-6) u(1) by (simp add: siv_write_def with_driver_def call_write_def)
  have same: "load_bytes t d m = load_bytes s d m" by (rule load_bytes_cong [OF src(1) t(7)]) (use src(3) t(11) in blast)
  have spare: "q \<notin> prange ph (Suc (tar_len fs))" if "frame q = page_of t w \<or> q \<in> bmp_region (page_bmp t) t" for q
    using that fs [of q] t(11) [of q] by (auto simp: fs_bytes_def settled_def)
  have cu: "cached ?fd w bs u" "used_frames u = used_frames t" "page_of u w = page_of t w" "page_bmp u = page_bmp t"
    using cached_keep [OF t(2) u(3)] u(4) spare by blast+
  have hu: "hhdm_off u = hhdm_off s" using mem_only_fields(1) [OF u(3)] t(7) by simp
  have away: "frame q \<noteq> page_of u w" "q \<notin> bmp_region (page_bmp u) u" if "q \<in> prange p n" for q
    using dst(2) that t(11) [of q] cu(3,4) bmp_region_cong [of u t] hu t(7) by (auto simp: settled_def)
  have sp: "span (hhdm_off u) b n p" using dst(1) hu by simp
  obtain v where v: "siv_read ?fd (of_nat off) b (of_nat n) u = Some (Inr ((), v))" "load_bytes v b n = take n (drop off bs)"
    "mem_only u v" "\<And>q. q \<notin> prange p n \<Longrightarrow> pmem v q = pmem u q"
    using cached_read [OF cu(1) sp dst(3) away(1)] by metis
  have cv: "cached ?fd w bs v" "used_frames v = used_frames u" "page_of v w = page_of u w"
    using cached_keep [OF cu(1) v(3)] v(4) away by blast+
  have "unat ?fd < length (open_files v)"
    using t(4) mem_only_fields(5) [OF u(3)] mem_only_fields(5) [OF v(3)] by (auto simp: siv_get_file_def split: if_splits)
  from cached_close [OF cv(1) this] obtain x where x: "siv_close ?fd v = Inr ((), x)"
    "used_frames x = used_frames v - {page_of v w}" "heap_ok x" "siv_get_file ?fd x = Some zero_file" by metis
  have "used_frames x = used_frames s" using x(2) cv(2,3) cu(2,3) t(9,10) by simp
  moreover have "tar_at u h (AList.update nm (splice k (load_bytes s d m) bs) fs)"
    using u(2) same by (simp add: tar_has_def mounted_def)
  ultimately show ?thesis using t(1) wr v(1,2) x(1,3,4) by blast
qed

theorem siv_preload_spec_witness:
  "\<exists>t u v x. siv_open 0 0x3900 2 sample_store = Some (Inr (0, t)) \<and>
    siv_write 0 1 0x3A00 2 t = Some (Inr ((), u)) \<and> tar_at u 0x3000 [([97], [65, 88, 89, 68])] \<and>
    siv_read 0 0 0x3B00 4 u = Some (Inr ((), v)) \<and> load_bytes v 0x3B00 4 = [65, 66, 67, 68] \<and>
    siv_close 0 v = Inr ((), x) \<and> used_frames x = {0, 1, 2, 3}"
proof -
  let ?fs = "[([97 :: u8], [65, 66, 67, 68 :: u8])]"
  have sp: "span (hhdm_off sample_store) a k a" if "unat a + k \<le> 0x8000" for a k
    using that by (intro span_low) (simp add: sample_store_heap(4))
  have st: "\<forall>q \<in> prange a k. settled sample_store q" if "0x3000 \<le> unat a" "unat a + k \<le> 0x4000" for a k
  proof
    fix q assume "q \<in> prange a k"
    then have "0x3000 \<le> unat q" "unat q < 0x4000" using that by (auto simp: prange_def)
    then show "settled sample_store q" by (simp add: sample_store_heap(7) prange_def frame_def div_nat_eqI)
  qed
  have dis: "prange 0x3A00 2 \<inter> fs_bytes 0x3000 0x3800 ?fs 0x3900 [97] = {}"
    by (auto simp: fs_bytes_def prange_def file_span_def)
  have fl: "(2 :: u8) AND SIV_FLAGS_FORCE_PRELOAD \<noteq> 0" by simp
  have fd: "siv_num_open_files sample_store = 0" by (simp add: sample_store_def)
  have h: "map_of ?fs [97] = Some [65, 66, 67, 68]" "length [65, 66, 67, 68 :: u8] \<le> 4088"
    "1 + 2 \<le> length [65, 66, 67, 68 :: u8]" "0 + 4 \<le> length [65, 66, 67, 68 :: u8]" by simp_all
  have src: "span (hhdm_off sample_store) 0x3A00 2 0x3A00" "\<forall>q \<in> prange 0x3A00 2. settled sample_store q"
    "span (hhdm_off sample_store) 0x3B00 4 0x3B00" "\<forall>q \<in> prange 0x3B00 4. settled sample_store q"
    by (rule sp st; simp)+
  note siv_preload_spec [OF sample_store_volume(1) h(1) sample_store_volume(2) h(2) fl sample_store_volume(3)
      src(1) dis src(2) h(3) src(3,4) h(4)]
  with fd
  show ?thesis by (auto simp: splice_def sample_store_volume(4) sample_store_heap(3) simp del: load_bytes.simps)
qed

end
