(* ===== verification/Registry.thy ===== *)
theory Registry
  imports Files Endian
begin

text \<open>
  The registry, \<open>core/sys/resman/registery.c\<close>: a hive file is read whole into a heap block and
  searched in place for a key and an entry of the key.
\<close>

section \<open>The code\<close>

definition hive_header :: layout where
  "hive_header = packed [(''magic'', 4), (''num_keys'', 4), (''checksum'', 1), (''name'', 64)]"

definition key_header :: layout where
  "key_header = packed [(''magic'', 4), (''num_entries'', 4), (''num_subkeys'', 4), (''name'', 64)]"

definition entry_header :: layout where
  "entry_header = packed [(''name'', 64), (''type'', 1), (''length'', 1)]"

lemma registry_layouts [simp]:
  "size_of hive_header = 73" "size_of key_header = 76" "size_of entry_header = 66"
  "offset_of hive_header ''magic'' = 0" "offset_of hive_header ''num_keys'' = 4"
  "offset_of key_header ''magic'' = 0" "offset_of key_header ''num_entries'' = 4" "offset_of key_header ''name'' = 12"
  "offset_of entry_header ''name'' = 0" "offset_of entry_header ''length'' = 65"
  by (simp_all add: hive_header_def key_header_def entry_header_def layout_simps)

abbreviation (input) HIVE_MAGIC :: u32 where "HIVE_MAGIC \<equiv> 0xB16B00B5"
abbreviation (input) KEY_MAGIC :: u32 where "KEY_MAGIC \<equiv> 0x69420666"

definition read_hive :: "ptr \<Rightarrow> 'z fsstate_scheme \<Rightarrow> (ptr, 'z fsstate_scheme) result option" where
  "read_hive path s =
     and_then (siv_open 0 path 0 s) (\<lambda>fd s.
       if fd = UINT32_MAX then Some (Inr (NULL, s))
       else case siv_get_file fd s of
         None \<Rightarrow> Some (Inl Oob)
       | Some f \<Rightarrow>
           and_then (Some (malloc (of_nat (size_of hive_header)) s)) (\<lambda>hive s.
           and_then (siv_read fd 0 hive (ucast (f_size f)) s) (\<lambda>_ s.
           and_then (Some (siv_close fd s)) (\<lambda>_ s.
             if be32toh (load32 s (field hive_header ''magic'' hive)) \<noteq> HIVE_MAGIC
             then Some (Inr (NULL, free hive s))
             else Some (Inr (hive, s))))))"

definition free_hive :: "ptr \<Rightarrow> 'z pmm_scheme \<Rightarrow> 'z pmm_scheme" where
  "free_hive hive s = free hive s"

text \<open>\<open>pointer\<close> is not advanced in the loop.\<close>

primrec read_key_loop :: "'z machine_scheme \<Rightarrow> ptr \<Rightarrow> nat \<Rightarrow> ptr \<Rightarrow> ptr option" where
  "read_key_loop s path 0 pointer = Some NULL"
| "read_key_loop s path (Suc k) pointer =
     (let key = pointer in
      if load32 s (field key_header ''magic'' key) \<noteq> KEY_MAGIC then Some NULL
      else Option.bind (strcmp s (field key_header ''name'' key) path) (\<lambda>r.
        if r = 0 then Some key else read_key_loop s path k pointer))"

definition read_key :: "'z machine_scheme \<Rightarrow> ptr \<Rightarrow> ptr \<Rightarrow> ptr option" where
  "read_key s hive path =
     (if hive = NULL \<or> path = NULL then Some NULL
      else read_key_loop s path (unat (be32toh (load32 s (field hive_header ''num_keys'' hive))))
             (hive + of_nat (size_of hive_header)))"

text \<open>
  \<open>be32toh\<close> is a macro: applied to the byte \<open>length\<close> it works on the promoted value.
\<close>

definition next_entry :: "'z machine_scheme \<Rightarrow> ptr \<Rightarrow> ptr" where
  "next_entry s entry =
     entry + of_nat (size_of entry_header) +
       ucast (be32toh (ucast (load8 s (field entry_header ''length'' entry))))"

primrec read_entry_loop :: "'z machine_scheme \<Rightarrow> ptr \<Rightarrow> nat \<Rightarrow> ptr \<Rightarrow> ptr option" where
  "read_entry_loop s name 0 entry = Some NULL"
| "read_entry_loop s name (Suc k) entry =
     Option.bind (strcmp s (field entry_header ''name'' entry) name) (\<lambda>r.
       if r = 0 then Some entry else read_entry_loop s name k (next_entry s entry))"

definition read_entry :: "'z machine_scheme \<Rightarrow> ptr \<Rightarrow> ptr \<Rightarrow> ptr option" where
  "read_entry s key name =
     (if key = NULL \<or> name = NULL then Some NULL
      else read_entry_loop s name (unat (be32toh (load32 s (field key_header ''num_entries'' key))))
             (key + of_nat (size_of key_header)))"

section \<open>Keys and entries\<close>

text \<open>Whatever the number of keys, only the first one is looked at.\<close>

lemma read_key_loop_first:
  assumes "cstr s (p + 12) kn" "cstr s path nm"
  shows "read_key_loop s path k p =
    Some (if k \<noteq> 0 \<and> load32 s p = KEY_MAGIC \<and> kn = nm then p else NULL)"
proof (induction k)
  case (Suc k)
  show ?case using strcmp_cstr [OF assms] Suc by (simp add: field_def)
qed simp

text \<open>The step from an entry with \<open>length\<close> bytes of data.\<close>

lemma next_entry_stride: "next_entry s e = e + 66 + push_bit 24 (ucast (load8 s (e + 65)))"
proof -
  have "bswap_32 (ucast b) = push_bit 24 (ucast b)" for b :: u8
    unfolding bswap_32_def byte_masks
    by (rule bit_word_eqI) (auto simp: bit_simps dest: bit_imp_le_length)
  moreover have "(ucast (push_bit 24 (ucast b :: u32)) :: u64) = push_bit 24 (ucast b)" for b :: u8
    by (rule bit_word_eqI) (auto simp: bit_simps dest: bit_imp_le_length)
  ultimately show ?thesis by (simp add: next_entry_def field_def be32toh_def)
qed


section \<open>Reading a hive\<close>

definition is_hive :: "u8 list \<Rightarrow> bool" where
  "is_hive bs \<longleftrightarrow> take 4 bs = rev (word_bytes 4 HIVE_MAGIC)"

lemma be32toh_load: "be32toh (load32 s a) = bytes_word (rev (load_bytes s a 4))"
  using word_bytes_bytes_word [of "load_bytes s a 4", where 'a = 32]
  by (simp add: be32toh_def bswap_32_bytes load32_def del: load_bytes.simps word_bytes.simps)

lemma hive_magic_load:
  assumes "load_bytes s a (length bs) = bs" "4 \<le> length bs"
  shows "be32toh (load32 s a) = HIVE_MAGIC \<longleftrightarrow> is_hive bs"
proof -
  have "load_bytes s a 4 = take 4 bs" using take_load_bytes [OF assms(2), of s a] assms(1) by simp
  moreover have "bytes_word (rev xs) = (w :: u32) \<longleftrightarrow> xs = rev (word_bytes 4 w)" if "length xs = 4" for xs w
  proof
    assume "bytes_word (rev xs) = w"
    then have "word_bytes 4 w = rev xs" using word_bytes_bytes_word [of "rev xs", where 'a = 32] that by simp
    then show "xs = rev (word_bytes 4 w)" by (simp del: word_bytes.simps)
  next
    assume "xs = rev (word_bytes 4 w)"
    then show "bytes_word (rev xs) = w"
      using bytes_word_word_bytes [of 4 w] by (simp add: take_bit_word_eq_self del: word_bytes.simps)
  qed
  ultimately show ?thesis using assms(2) by (simp add: be32toh_load is_hive_def del: load_bytes.simps word_bytes.simps)
qed

lemma read_hive_file:
  assumes "volume_ready h ph pt fs path pp nm s" "map_of fs nm = Some bs" "plain_file h fs nm s" "4 \<le> length bs" "length bs \<le> 4088"
  shows "\<exists>w t. read_hive path s = Some (Inr (if is_hive bs then w else NULL, t)) \<and> w \<noteq> NULL \<and>
    (is_hive bs \<longrightarrow> load_bytes t w (length bs) = bs) \<and> (\<not> is_hive bs \<longrightarrow> used_frames t = used_frames s) \<and>
    unat w + 4088 < 2 ^ 64"
proof -
  let ?fd = "siv_num_open_files s"
  have a: "mounted h ph pt fs s" "named path pp nm s" "path \<noteq> NULL" "heap_ok s" "first_free s \<noteq> None"
    "\<And>q. q \<in> fs_bytes ph pt fs pp nm \<Longrightarrow> settled s q" "tar_drive 0 s" "tar_drive (unat (tar_drive_id s)) s"
    "slot_free s" "length (open_files s) = 64" using assms(1) by (auto simp: volume_ready_def)
  have has: "tar_has h ph pt fs path pp nm s bs" using a(1,2) assms(2) by (simp add: tar_has_def)
  obtain u f where u: "siv_open 0 path 0 s = Some (Inr (?fd, u))" "siv_has h ph pt fs path pp nm ?fd u bs"
    "pmem u = pmem s" "hhdm_off u = hhdm_off s" "siv_get_file ?fd u = Some f" "f_size f = of_nat (length bs)"
    "heap_ok u" "first_free u \<noteq> None" "used_frames u = used_frames s" "page_bmp u = page_bmp s"
    "length (open_files u) = 64"
    by (rule siv_open_found [OF has, of 0 0]) (use a assms(3) in auto)
  have st: "settled u q" if "q \<in> fs_bytes ph pt fs pp nm" for q
    using a(6) [OF that] u(4,9,10) bmp_region_cong [of u s] by (simp add: settled_def)
  obtain w t1 t2 where r: "malloc 73 u = Inr (w, t1)" "siv_read ?fd 0 w (of_nat (length bs)) t1 = Some (Inr ((), t2))"
    "w \<noteq> NULL" "load_bytes t2 w (length bs) = bs" "siv_has h ph pt fs path pp nm ?fd t2 bs"
    "pmm.more t1 = pmm.more u" "mem_only t1 t2" "heap_ok t2" "block t2 w 73" "used_frames t2 - {page_of t2 w} = used_frames u"
    "unat w + 4088 < 2 ^ 64"
    using read_into_block [OF u(2,7,8) st assms(5), of 73] by auto
  have n: "(ucast (of_nat (length bs) :: u64) :: u32) = of_nat (length bs)"
    using assms(5) by (simp add: word_unat_eq_iff unsigned_ucast_eq unat_of_nat take_bit_eq_mod)
  have "?fd \<noteq> UINT32_MAX" using a(9,10) by (auto simp: slot_free_def)
  moreover have "length (open_files t2) = 64"
    using fs_fields(5) [OF r(6)] mem_only_fields(5) [OF r(7)] u(11) by simp
  moreover have "unat ?fd < 64" using a(9,10) by (simp add: slot_free_def)
  ultimately have run: "read_hive path s = Some (Inr
      (let t = t2\<lparr>open_files := (open_files t2)[unat ?fd := zero_file]\<rparr> in
       if is_hive bs then (w, t) else (NULL, free w t)))"
    using u(1,5,6) r(1,2,4,5) n assms(4) hive_magic_load [of "t2\<lparr>open_files := (open_files t2)[unat ?fd := zero_file]\<rparr>" w bs]
    by (simp add: read_hive_def siv_has_def siv_close_def set_open_file_def field_def load_bytes_map load8_def Let_def)
  let ?t = "t2\<lparr>open_files := (open_files t2)[unat ?fd := zero_file]\<rparr>"
  have "load_bytes ?t w (length bs) = bs" using r(4) by (simp add: load_bytes_map load8_def)
  moreover have "used_frames (free w ?t) = used_frames s"
  proof -
    have t: "heap_ok ?t" "block ?t w 73" "used_frames ?t = used_frames t2" "base ?t w = base t2 w"
      using r(8,9) by (simp_all add: heap_state_defs block_def base_def VIRT_TO_PHYS_def v2p_def load64_def load_bytes_map)
    then show ?thesis
      using free_facts(1) [OF t(1,2)] r(10) u(9) npages_1 [of 73] by (simp add: page_of_def)
  qed
  ultimately show ?thesis
    by (intro exI [of _ w] exI [of _ "if is_hive bs then ?t else free w ?t"]) (use run r(3,11) in \<open>simp add: Let_def\<close>)
qed


section \<open>Looking up an entry\<close>

text \<open>
  The file of a hive with one key: names are padded to 64 bytes, numbers are in network order except
  the magic number of the key, and no entry has data.
\<close>

definition name_field :: "u8 list \<Rightarrow> u8 list" where
  "name_field nm = nm @ replicate (64 - length nm) 0"

definition entry_image :: "u8 list \<times> u8 \<Rightarrow> u8 list" where
  "entry_image e = name_field (fst e) @ [snd e, 0]"

definition hive_image :: "u8 list \<Rightarrow> u8 \<Rightarrow> u8 list \<Rightarrow> (u8 list \<times> u8) list \<Rightarrow> u8 list" where
  "hive_image hn ck kn es =
     rev (word_bytes 4 HIVE_MAGIC) @ rev (word_bytes 4 (1 :: u32)) @ [ck] @ name_field hn @
     word_bytes 4 KEY_MAGIC @ rev (word_bytes 4 (of_nat (length es) :: u32)) @ rev (word_bytes 4 (0 :: u32)) @
     name_field kn @ concat (map entry_image es)"

definition name_ok :: "u8 list \<Rightarrow> bool" where
  "name_ok nm \<longleftrightarrow> length nm < 64 \<and> 0 \<notin> set nm"

lemma length_name_field: "name_ok nm \<Longrightarrow> length (name_field nm) = 64"
  by (simp add: name_ok_def name_field_def)

lemma length_entry: "name_ok (fst e) \<Longrightarrow> length (entry_image e) = 66"
  by (simp add: entry_image_def length_name_field)

lemma length_entries: "\<forall>e \<in> set es. name_ok (fst e) \<Longrightarrow> length (concat (map entry_image es)) = 66 * length es"
  by (induction es) (simp_all add: length_entry)

lemma length_hive_image:
  "name_ok hn \<Longrightarrow> name_ok kn \<Longrightarrow> \<forall>e \<in> set es. name_ok (fst e) \<Longrightarrow>
   length (hive_image hn ck kn es) = 149 + 66 * length es"
  by (simp add: hive_image_def length_name_field length_entries del: word_bytes.simps)

lemma load_bytes_split:
  "load_bytes s a (length (xs @ ys)) = xs @ ys \<longleftrightarrow>
     load_bytes s a (length xs) = xs \<and> load_bytes s (a + of_nat (length xs)) (length ys) = ys"
  by (simp add: load_bytes_append)

lemma name_field_cstr:
  assumes "load_bytes s a 64 = name_field nm" "name_ok nm"
  shows "cstr s a nm"
proof -
  have "name_field nm = nm @ 0 # replicate (63 - length nm) 0"
  proof -
    have "64 - length nm = Suc (63 - length nm)" using assms(2) unfolding name_ok_def by linarith
    then show ?thesis by (simp add: name_field_def)
  qed
  then have "load_bytes s a (length (nm @ 0 # replicate (63 - length nm) 0)) = nm @ 0 # replicate (63 - length nm) 0"
    using assms by (simp add: name_ok_def)
  then have "load_bytes s a (length nm) = nm" "load8 s (a + of_nat (length nm)) = 0"
    unfolding load_bytes_split by simp_all
  then show ?thesis using cstr_append [of s a nm "[]"] assms(2) by (simp add: name_ok_def)
qed

text \<open>The address of the first entry with the name.\<close>

primrec entry_pos :: "ptr \<Rightarrow> u8 list list \<Rightarrow> u8 list \<Rightarrow> ptr" where
  "entry_pos e [] nm = NULL"
| "entry_pos e (x # xs) nm = (if x = nm then e else entry_pos (e + 66) xs nm)"

lemma read_entry_loop_entries:
  assumes "load_bytes s e (66 * length es) = concat (map entry_image es)" "\<forall>x \<in> set es. name_ok (fst x)" "cstr s np nm"
  shows "read_entry_loop s np (length es) e = Some (entry_pos e (map fst es) nm)"
  using assms(1,2)
proof (induction es arbitrary: e)
  case (Cons x es)
  have ok: "name_ok (fst x)" using Cons.prems(2) by simp
  have "load_bytes s e (length (entry_image x @ concat (map entry_image es))) = entry_image x @ concat (map entry_image es)"
    using Cons.prems ok by (simp add: length_entries length_entry del: load_bytes.simps)
  then have l: "load_bytes s e (length (entry_image x)) = entry_image x"
    "load_bytes s (e + 66) (66 * length es) = concat (map entry_image es)"
    unfolding load_bytes_split using Cons.prems(2) ok
    by (simp_all add: length_entries length_entry del: load_bytes.simps)
  have "load_bytes s e (length (name_field (fst x))) = name_field (fst x) \<and>
      load_bytes s (e + of_nat (length (name_field (fst x)))) (length [snd x, 0]) = [snd x, 0]"
    using l(1) unfolding entry_image_def load_bytes_split by blast
  then have "load_bytes s e 64 = name_field (fst x)" "load8 s (e + 65) = 0"
    using ok by (simp_all add: length_name_field add.assoc)
  moreover from this(2) have "next_entry s e = e + 66" by (simp add: next_entry_stride)
  ultimately show ?case
    using strcmp_cstr [OF name_field_cstr [OF _ ok] assms(3)] Cons.IH [OF l(2)] Cons.prems(2)
    by (simp add: field_def del: load_bytes.simps)
qed simp


lemma hive_image_parts:
  assumes img: "load_bytes s w (length (hive_image hn ck kn es)) = hive_image hn ck kn es"
    and ok: "name_ok hn" "name_ok kn" "\<forall>x \<in> set es. name_ok (fst x)"
  shows "load_bytes s (w + 4) 4 = rev (word_bytes 4 (1 :: u32))" "load_bytes s (w + 73) 4 = word_bytes 4 KEY_MAGIC"
    "load_bytes s (w + 77) 4 = rev (word_bytes 4 (of_nat (length es) :: u32))"
    "load_bytes s (w + 85) 64 = name_field kn"
    "load_bytes s (w + 149) (66 * length es) = concat (map entry_image es)"
  using img ok unfolding hive_image_def load_bytes_split
  by (simp_all add: length_name_field length_entries add.assoc del: load_bytes.simps word_bytes.simps)

lemma key_of_image:
  assumes img: "load_bytes s w (length (hive_image hn ck kn es)) = hive_image hn ck kn es"
    and ok: "name_ok hn" "name_ok kn" "\<forall>x \<in> set es. name_ok (fst x)" and w: "w \<noteq> NULL" "cstr s kp k" "kp \<noteq> NULL"
  shows "read_key s w kp = Some (if k = kn then w + 73 else NULL)"
proof -
  note p = hive_image_parts [OF img ok]
  have "be32toh (load32 s (w + 4)) = 1"
    using p(1) bytes_word_word_bytes [of 4 "1 :: u32"] by (simp add: be32toh_load del: load_bytes.simps word_bytes.simps)
  moreover have "load32 s (w + 73) = KEY_MAGIC"
    using p(2) bytes_word_word_bytes [of 4 "KEY_MAGIC"] by (simp add: load32_def del: load_bytes.simps word_bytes.simps)
  moreover have "cstr s (w + 73 + 12) kn" using name_field_cstr [OF p(4) ok(2)] by (simp add: add.assoc)
  ultimately show ?thesis
    using read_key_loop_first [OF _ w(2), of "w + 73" kn 1] w by (auto simp: read_key_def field_def simp del: read_key_loop.simps)
qed

lemma entry_of_image:
  assumes img: "load_bytes s w (length (hive_image hn ck kn es)) = hive_image hn ck kn es"
    and ok: "name_ok hn" "name_ok kn" "\<forall>x \<in> set es. name_ok (fst x)" and n: "length es < 60"
    and w: "w + 73 \<noteq> NULL" "cstr s np nm" "np \<noteq> NULL"
  shows "read_entry s (w + 73) np = Some (entry_pos (w + 149) (map fst es) nm)"
proof -
  note p = hive_image_parts [OF img ok]
  have "be32toh (load32 s (w + 77)) = of_nat (length es)"
    using p(3) bytes_word_word_bytes [of 4 "of_nat (length es) :: u32"]
    by (simp add: be32toh_load take_bit_word_eq_self del: load_bytes.simps word_bytes.simps)
  moreover have "unat (of_nat (length es) :: u32) = length es" using n by (simp add: unat_of_nat take_bit_eq_mod)
  ultimately show ?thesis
    using read_entry_loop_entries [OF p(5) ok(3) w(2)] w by (simp add: read_entry_def field_def add.assoc)
qed


section \<open>The registry from file to entry\<close>


text \<open>A magic number that is wrong is noticed, and the block freed.\<close>

lemma read_hive_rejects:
  assumes "volume_ready h ph pt fs path pp nm s" "map_of fs nm = Some bs" "plain_file h fs nm s" "4 \<le> length bs"
    "length bs \<le> 4088" "\<not> is_hive bs"
  shows "\<exists>t. read_hive path s = Some (Inr (NULL, t)) \<and> used_frames t = used_frames s"
proof -
  obtain w t where f: "read_hive path s = Some (Inr (if is_hive bs then w else NULL, t))" "used_frames t = used_frames s"
    using read_hive_file [OF assms(1-5)] assms(6) by blast
  show ?thesis using f unfolding if_not_P [OF assms(6)] by blast
qed

text \<open>An entry with data is never left for the one behind it.\<close>

lemma next_entry_wrong:
  "next_entry s e = e + 66 + ucast (load8 s (e + 65)) \<longleftrightarrow> load8 s (e + 65) = 0"
proof -
  let ?l = "load8 s (e + 65)"
  have "push_bit 24 (ucast ?l :: u64) = ucast ?l \<longleftrightarrow> ?l = 0"
  proof
    assume eq: "push_bit 24 (ucast ?l :: u64) = ucast ?l"
    have "\<not> bit ?l i" for i
    proof
      assume b: "bit ?l i"
      then have i: "i < 8" using bit_imp_le_length [OF b] by simp
      have "bit (push_bit 24 (ucast ?l :: u64)) (i + 24)" using b i by (simp add: bit_simps)
      then have "bit ?l (i + 24)" unfolding eq by (simp add: bit_simps)
      then have "i + 24 < 8" using bit_imp_le_length by fastforce
      then show False by simp
    qed
    then show "?l = 0" by (intro bit_word_eqI) simp
  qed simp
  then show ?thesis by (simp add: next_entry_stride)
qed


text \<open>A machine with the archive mounted, of one hive with one key and one entry.\<close>

abbreviation (input) sample_image :: "u8 list" where
  "sample_image \<equiv> hive_image [104] 0 [107] [([97], 1)]"

definition hive_mem :: "u64 \<Rightarrow> u8" where
  "hive_mem = bytes_at 0x3200 sample_image (bytes_at 0x307C [48, 48, 48, 48, 48, 48, 48, 48, 51, 50, 55]
     (bytes_at 0x3800 [0, 0x30, 0, 0, 0, 0, 0, 0] (bytes_at 0x3000 [97] (sample_mem 0x0F))))"

definition sample_hive :: "unit fsstate_scheme" where
  "sample_hive = volume_with hive_mem"

lemma length_sample_image: "length sample_image = 215"
  by (simp add: length_hive_image name_ok_def)

lemma hive_mem_other: "unat q < 0x3000 \<or> 0x4000 \<le> unat q \<Longrightarrow> hive_mem q = sample_mem 0x0F q"
  using bytes_at_frame [of "0x3200" sample_image q] bytes_at_frame [of "0x3000" "[97]" q]
    bytes_at_frame [of "0x307C" "[48, 48, 48, 48, 48, 48, 48, 48, 51, 50, 55]" q]
    bytes_at_frame [of "0x3800" "[0, 0x30, 0, 0, 0, 0, 0, 0]" q]
  by (simp add: hive_mem_def length_sample_image)

lemmas sample_hive_heap = volume_with_heap [OF hive_mem_other, folded sample_hive_def]

lemma sample_hive_image: "load_bytes sample_hive 0x3200 (length sample_image) = sample_image"
proof (rule nth_equalityI)
  fix i assume "i < length (load_bytes sample_hive 0x3200 (length sample_image))"
  then have i: "i < length sample_image" "i < 215" by (simp_all add: length_sample_image)
  have "unat (of_nat i :: u64) = i" using i(2) by (intro unat_of_nat_u64) simp
  moreover have "unat (0x3200 + of_nat i :: u64) = 0x3200 + i" using i(2) by (subst unat_add_of_nat) simp_all
  ultimately show "load_bytes sample_hive 0x3200 (length sample_image) ! i = sample_image ! i"
    using i by (simp add: load_bytes_map sample_hive_heap(6) hive_mem_def bytes_at_def)
qed simp

lemma sample_hive_tar:
  "tar_at sample_hive 0x3000 [([97], sample_image)]" "plain_file 0x3000 [([97], sample_image)] [97] sample_hive"
  "load64 sample_hive 0x3800 = 0x3000"
proof -
  note ev = sample_hive_heap(6) hive_mem_def bytes_at_def length_sample_image sample_mem_def
  have "(11 :: nat) = Suc (Suc (Suc (Suc (Suc (Suc (Suc (Suc (Suc (Suc (Suc 0))))))))))" by simp
  then have "load_bytes sample_hive 0x307C 11 = [48, 48, 48, 48, 48, 48, 48, 48, 51, 50, 55]"
    by (simp only: load_bytes.simps) (simp add: ev)
  then have "size_field sample_hive 0x307C 215"
    by (simp add: size_field_def is_octal_def digits_value_def)
  moreover have "cstr sample_hive 0x3000 [97]" "load8 sample_hive 0x3400 = 0" by (simp_all add: ev)
  ultimately show "tar_at sample_hive 0x3000 [([97], sample_image)]"
    using sample_hive_image by (simp add: file_at_def file_span_def length_sample_image del: load_bytes.simps)
  show "plain_file 0x3000 [([97], sample_image)] [97] sample_hive" by (simp add: plain_file_def ev)
  have "(8 :: nat) = Suc (Suc (Suc (Suc (Suc (Suc (Suc (Suc 0)))))))" by simp
  then have "load_bytes sample_hive 0x3800 8 = [0, 0x30, 0, 0, 0, 0, 0, 0]"
    by (simp only: load_bytes.simps) (simp add: ev)
  then show "load64 sample_hive 0x3800 = 0x3000" by (simp add: load64_def del: load_bytes.simps)
qed

lemma sample_hive_volume: "volume_ready 0x3000 0x3000 0x3800 [([97], sample_image)] 0x3000 0x3000 [97] sample_hive"
proof -
  have "tar_len [([97], sample_image)] = 1024" by (simp add: file_span_def length_sample_image)
  moreover have "cstr sample_hive 0x3000 [97]" using sample_hive_tar(1) by (simp add: file_at_def)
  ultimately show ?thesis
    using sample_hive_tar(1,3) unfolding sample_hive_def by (intro volume_with_ready hive_mem_other) simp_all
qed


end
