(* ===== verification/Syscall.thy ===== *)
theory Syscall
  imports Events
begin

text \<open>
  The system calls: the dispatcher of \<open>core/sys/syscall.c\<close> and the handler of interrupt
  \<open>0x80\<close> in \<open>arch/x86_64/constant_isrs.c\<close>. Event ids and process ids are \<open>u32\<close>, so the
  64-bit arguments are cut to their low half.
\<close>

section \<open>The code\<close>

definition syscall ::
    "u64 \<Rightarrow> u64 \<Rightarrow> u64 \<Rightarrow> u64 \<Rightarrow> 'z evstate_scheme \<Rightarrow> (u64, 'z evstate_scheme) result" where
  "syscall number arg1 arg2 arg3 s =
     (if number = 0 then then_do (sched_kill (sched_current_pid s) s) (\<lambda>_ s. Inr (0, s))
      else if number = 1 then then_do (event_create s) (\<lambda>e s. Inr (ucast e, s))
      else if number = 2 then then_do (event_destroy (ucast arg1) s) (\<lambda>_ s. Inr (0, s))
      else if number = 3 then
        then_do (event_subscribe (sched_current_pid s) (ucast arg1) arg2 s) (\<lambda>_ s. Inr (0, s))
      else if number = 4 then
        then_do (event_unsubscribe (sched_current_pid s) (ucast arg1) s) (\<lambda>_ s. Inr (0, s))
      else if number = 5 then then_do (event_fire (ucast arg1) arg2 s) (\<lambda>_ s. Inr (0, s))
      else if number = 6 then then_do (event_exit s) (\<lambda>r s. Inr (ucast r, s))
      else Inr (0, s))"

definition syscall_handler ::
    "Registers \<Rightarrow> 'z evstate_scheme \<Rightarrow> (Registers, 'z evstate_scheme) result" where
  "syscall_handler r s =
     then_do (syscall (rax r) (rdi r) (rsi r) (rdx r) s) (\<lambda>v s. Inr (r\<lparr>rax := v\<rparr>, s))"

section \<open>Facts\<close>

lemmas syscall_simps = syscall_handler_def syscall_def

text \<open>An event id that came from the kernel survives the trip through a 64-bit register.\<close>

lemma ucast_u32_u64 [simp]: "ucast (ucast (e :: u32) :: u64) = e"
  by (rule bit_word_eqI) (auto simp: bit_simps)

lemma syscall_unknown:
  "6 < rax r \<Longrightarrow> syscall_handler r s = Inr (r\<lparr>rax := 0\<rparr>, s)"
  by (auto simp: syscall_simps)

lemma handler_regs:
  assumes "syscall_handler r s = Inr (r', t)"
  shows "r' = r\<lparr>rax := rax r'\<rparr>"
  using assms by (auto simp: syscall_handler_def then_do_Inr_iff)

text \<open>Every call that returns keeps the event invariant, unless an array outgrows its page.\<close>

lemma evs_ok_sched [simp]:
  "evs_ok (s\<lparr>processes := x\<rparr>) = evs_ok s" "evs_ok (s\<lparr>soft_ints := y\<rparr>) = evs_ok s"
proof -
  have l: "load_bytes (s\<lparr>processes := x\<rparr>) a n = load_bytes s a n"
      "load_bytes (s\<lparr>soft_ints := y\<rparr>) a n = load_bytes s a n" for a n
    by (induction n arbitrary: a) (simp_all add: load8_def)
  have p: "page_block (s\<lparr>processes := x\<rparr>) = page_block s" "page_block (s\<lparr>soft_ints := y\<rparr>) = page_block s"
    "page_of (s\<lparr>processes := x\<rparr>) = page_of s" "page_of (s\<lparr>soft_ints := y\<rparr>) = page_of s"
    by (simp_all add: page_block_def block_def page_of_def base_def VIRT_TO_PHYS_def fun_eq_iff
        heap_state_defs load64_def l)
  have h: "heap_ok (s\<lparr>processes := x\<rparr>) = heap_ok s" "heap_ok (s\<lparr>soft_ints := y\<rparr>) = heap_ok s"
    by (simp_all add: heap_state_defs)
  show "evs_ok (s\<lparr>processes := x\<rparr>) = evs_ok s" "evs_ok (s\<lparr>soft_ints := y\<rparr>) = evs_ok s"
    by (simp_all add: evs_ok_def arrays_ok_def live_def hp.separate_def p h)
qed

lemma subs_sched [simp]:
  "subs (s\<lparr>processes := x\<rparr>) = subs s" "subs (s\<lparr>soft_ints := y\<rparr>) = subs s"
proof -
  have l: "load_bytes (s\<lparr>processes := x\<rparr>) a n = load_bytes s a n"
      "load_bytes (s\<lparr>soft_ints := y\<rparr>) a n = load_bytes s a n" for a n
    by (induction n arbitrary: a) (simp_all add: load8_def)
  show "subs (s\<lparr>processes := x\<rparr>) = subs s" "subs (s\<lparr>soft_ints := y\<rparr>) = subs s"
    by (simp_all add: subs_def get_sub_def sub_pid_def sub_callback_def load32_def load64_def l fun_eq_iff)
qed

lemma list_update_keeps: "g (f (xs ! i)) = g (xs ! i) \<Longrightarrow> g (xs[i := f (xs ! i)] ! e) = g (xs ! e)"
  by (cases "i < length xs"; cases "e = i") (simp_all add: not_less list_update_beyond)

lemma evs_ok_event_name:
  assumes "evs_ok s"
  shows "evs_ok (s\<lparr>events := (events s)[i := (events s ! i)\<lparr>event := x\<rparr>]\<rparr>)"
proof -
  let ?s = "s\<lparr>events := (events s)[i := (events s ! i)\<lparr>event := x\<rparr>]\<rparr>"
  obtain sz where sz: "arrays_ok s sz" using assms by (auto simp: evs_ok_def)
  have f: "subscribers (events ?s ! e) = subscribers (events s ! e)"
    "num_subscribers (events ?s ! e) = num_subscribers (events s ! e)" for e
    using list_update_keeps [of subscribers "event_update (\<lambda>_. x)" "events s" i e]
      list_update_keeps [of num_subscribers "event_update (\<lambda>_. x)" "events s" i e] by simp_all
  have "live ?s = live s" unfolding live_def f by simp
  then have "arrays_ok ?s sz" using sz unfolding arrays_ok_def f by simp
  then show ?thesis using assms by (auto simp: evs_ok_def)
qed

lemma upd_process_Inr:
  "upd_process pid f s = Inr (u, t) \<Longrightarrow>
   t = s\<lparr>processes := (processes s)[unat pid := f (processes s ! unat pid)]\<rparr>"
  by (auto simp: upd_process_def split: if_splits)

lemma fire_loop_Inr:
  "fire_loop ev e a k i w s = Inr (b, t) \<Longrightarrow> \<exists>ps. t = s\<lparr>processes := ps\<rparr> \<and> length ps = length (processes s)"
proof (induction k arbitrary: i w s)
  case 0
  then show ?case by (auto intro: exI [of _ "processes s"])
next
  case (Suc k)
  then obtain h s1 where f: "fire_one e a (sub_addr ev i) s = Inr (h, s1)"
    and l: "fire_loop ev e a k (i + 1) (w \<or> h) s1 = Inr (b, t)"
    by (auto simp: then_do_Inr_iff)
  obtain ps where "s1 = s\<lparr>processes := ps\<rparr>" "length ps = length (processes s)"
    using f by (auto simp: fire_one_def sched_save_state_def then_do_Inr_iff dest!: upd_process_Inr)
  then show ?case using Suc.IH [OF l] by auto
qed

lemma syscall_keeps_evs_ok:
  assumes ok: "evs_ok s" and r: "syscall number arg1 arg2 arg3 s = Inr (v, t)"
    and room: "number = 3 \<Longrightarrow> unat (num_subscribers (events s ! unat (ucast arg1 :: u32))) < 255"
  shows "evs_ok t"
proof -
  consider "number = 0" | "number = 1" | "number = 2" | "number = 3" | "number = 4" | "number = 5" | "number = 6" |
    "number \<notin> {0, 1, 2, 3, 4, 5, 6}" by auto
  then show ?thesis
  proof cases
    case 1
    then show ?thesis using r ok
      by (auto simp: syscall_def sched_kill_def then_do_Inr_iff raise_int_def split: if_splits dest!: upd_process_Inr)
  next
    case 2
    show ?thesis
    proof (cases "num_events s < 64")
      case True
      then obtain s' where "event_create s = Inr (num_events s, s')" "evs_ok s'"
        using event_create_facts [OF ok] by metis
      then show ?thesis using 2 r by (simp add: syscall_def)
    qed (use 2 r ok in \<open>simp add: syscall_def event_create_def\<close>)
  next
    case 3
    then show ?thesis using r ok evs_ok_event_name [OF ok]
      by (auto simp: syscall_def event_destroy_def upd_event_def then_do_Inr_iff split: if_splits)
  next
    case 4
    then have e: "event_subscribe (sched_current_pid s) (ucast arg1) arg2 s = Inr ((), t)"
      using r by (auto simp: syscall_def then_do_Inr_iff)
    show ?thesis
    proof (cases "(ucast arg1 :: u32) < num_events s")
      case True
      show ?thesis by (rule event_subscribe_facts(1) [OF ok True room [OF 4] e])
    qed (use e ok in \<open>simp add: event_subscribe_def\<close>)
  next
    case 5
    then have e: "event_unsubscribe (sched_current_pid s) (ucast arg1) s = Inr ((), t)"
      using r by (auto simp: syscall_def then_do_Inr_iff)
    show ?thesis
    proof (cases "(ucast arg1 :: u32) < num_events s")
      case True
      then show ?thesis using event_unsubscribe_facts [OF ok True] e by (metis Pair_inject sum.inject(2))
    qed (use e ok in \<open>simp add: event_unsubscribe_def\<close>)
  next
    case 6
    then obtain b s1 where "(if ucast arg1 < num_events s then let ev = events s ! unat (ucast arg1 :: u32) in
        fire_loop ev (ucast arg1) arg2 (unat (num_subscribers ev)) 0 False s else Inr (False, s)) = Inr (b, s1)"
      and t: "t = (if b then raise_int 0x20 s1 else s1)"
      using r by (auto simp: syscall_def event_fire_def then_do_Inr_iff)
    then have "\<exists>ps. s1 = s\<lparr>processes := ps\<rparr>"
      by (auto simp: Let_def dest: fire_loop_Inr intro: exI [of _ "processes s"] split: if_splits)
    then show ?thesis using ok t by (auto simp: raise_int_def)
  next
    case 7
    then have "unat (sched_current_pid s) < length (processes s)" using r
      by (auto simp: syscall_def event_exit_def sched_restore_state_def upd_process_def then_do_Inr_iff
          split: if_splits)
    from event_exit_eq [OF this] show ?thesis using r ok 7 by (auto simp: syscall_def)
  next
    case 8
    then show ?thesis using r ok by (simp add: syscall_def)
  qed
qed

lemma event_create_keeps:
  "event_create s = Inr (e, t) \<Longrightarrow> first_free t = first_free s \<and> sched_current_pid t = sched_current_pid s"
  by (auto simp: event_create_def upd_event_def first_free_def used_def [abs_def] bmp_bit_def load8_def
      then_do_Inr_iff split: if_splits)

section \<open>Properties\<close>



text \<open>
  The event calls as a process makes them: create (1) returns the new id in \<open>rax\<close>, and
  subscribe (3) with that id registers the callback for the calling process, whatever the upper
  half of the argument register holds.
\<close>

theorem syscall_create_subscribe:
  assumes "evs_ok s" "num_events s < 64" "first_free s \<noteq> None"
    and "rax r1 = 1" "rax r3 = 3" "ucast (rdi r3) = num_events s"
  shows "\<exists>r2 t r4 u. syscall_handler r1 s = Inr (r2, t) \<and> rax r2 = ucast (num_events s) \<and>
    syscall_handler r3 t = Inr (r4, u) \<and>
    ev_subs u (unat (num_events s)) = [(sched_current_pid s, rsi r3)]"
proof -
  obtain t where t: "event_create s = Inr (num_events s, t)" "evs_ok t"
      "unat (num_events t) = Suc (unat (num_events s))" "ev_subs t (unat (num_events s)) = []"
    using event_create_facts [OF assms(1,2)] by metis
  have same: "first_free t = first_free s" "sched_current_pid t = sched_current_pid s"
    using event_create_keeps [OF t(1)] by simp_all
  have h1: "syscall_handler r1 s = Inr (r1\<lparr>rax := ucast (num_events s)\<rparr>, t)"
    using t(1) assms(4) by (simp add: syscall_simps)
  have ev: "num_events s < num_events t" using t(3) by (simp add: word_less_nat_alt)
  have n: "unat (num_subscribers (events t ! unat (num_events s))) < 255"
    using arg_cong [OF t(4), of length] by simp
  obtain u where u: "event_subscribe (sched_current_pid t) (num_events s) (rsi r3) t = Inr ((), u)"
    using event_subscribe_fails [OF t(2) ev n] assms(3) same(1)
    by (cases "event_subscribe (sched_current_pid t) (num_events s) (rsi r3) t") auto
  then have "syscall_handler r3 t = Inr (r3\<lparr>rax := 0\<rparr>, u)" using assms(5,6) by (simp add: syscall_simps)
  moreover have "ev_subs u (unat (num_events s)) = [(sched_current_pid s, rsi r3)]"
    using event_subscribe_facts(2) [OF t(2) ev n u] t(4) same(2) by simp
  ultimately show ?thesis using h1 by auto
qed

theorem syscall_create_subscribe_witness:
  "\<exists>r2 t r4 u. syscall_handler (zero_regs\<lparr>rax := 1\<rparr>) (sample_evs [READY] 1 0 5) = Inr (r2, t) \<and> rax r2 = 5 \<and>
    syscall_handler (zero_regs\<lparr>rax := 3, rdi := 0xAB00000005, rsi := 0xF00\<rparr>) t = Inr (r4, u) \<and>
    ev_subs u 5 = [(0, 0xF00)]"
proof -
  have "evs_ok (sample_evs [READY] 1 0 5)" by (rule sample_evs_ok) simp
  from syscall_create_subscribe [OF this, of "zero_regs\<lparr>rax := 1\<rparr>"
      "zero_regs\<lparr>rax := 3, rdi := 0xAB00000005, rsi := 0xF00\<rparr>"]
  show ?thesis by (simp add: sample_evs_free)
qed

end
