(* ===== verification/Dispatch.thy ===== *)
theory Dispatch
  imports Siv Syscall
begin

text \<open>
  The entry point of every interrupt, \<open>ISR_Handler\<close> of \<open>ISR.c\<close>: it looks the handler up that
  \<open>cisrs_register\<close> and \<open>ps2_init\<close> have registered and calls it. The stub of \<open>ISR.asm\<close> that calls it
  pushes the frame before and pops it afterwards (\<open>Entry\<close>); it leaves \<open>cr3\<close> alone.
\<close>

section \<open>The code\<close>

text \<open>
  A call through the table. The value is the frame that the stub pops; \<open>None\<close> is the endless search
  of \<open>next_process\<close>. What \<open>dprintf\<close> prints about a vector without handler is not kept.
\<close>

definition call_handler ::
    "ISRHandler \<Rightarrow> Registers \<Rightarrow> 'z kbstate_scheme \<Rightarrow> (Registers, 'z kbstate_scheme) result option" where
  "call_handler h r s =
     (case h of
        schedule_isr \<Rightarrow> schedule r s
      | syscall_handler_isr \<Rightarrow> Some (syscall_handler r s)
      | keyboard_isr \<Rightarrow> Some (then_do (handler s) (\<lambda>_ s. Inr (r, s))))"

definition ISR_Handler ::
    "Registers \<Rightarrow> 'z kbstate_scheme \<Rightarrow> (Registers, 'z kbstate_scheme) result option" where
  "ISR_Handler r s =
     (let s = s\<lparr>cr3 := hn_pagemap s\<rparr> in
      if interrupt r < 32 then Some (Inl (Psod (unat (interrupt r))))
      else if \<not> unat (interrupt r) < length (ISRHandlers s) then Some (Inl Oob)
      else case ISRHandlers s ! unat (interrupt r) of
        Some h \<Rightarrow> call_handler h r s
      | None \<Rightarrow> Some (Inr (r, s)))"

section \<open>The table of handlers\<close>

text \<open>The handlers as they are after start-up, and nothing else registered.\<close>

definition handlers_ok :: "'z intstate_scheme \<Rightarrow> bool" where
  "handlers_ok s \<longleftrightarrow>
     ISRHandlers s = (replicate 255 None)[33 := Some keyboard_isr, 32 := Some schedule_isr, 0x80 := Some syscall_handler_isr]"

lemma handlers_nth:
  assumes "handlers_ok s" "n < 255"
  shows "ISRHandlers s ! n = (if n = 32 then Some schedule_isr else if n = 33 then Some keyboard_isr
    else if n = 0x80 then Some syscall_handler_isr else None)"
  using assms by (simp add: handlers_ok_def nth_list_update)

lemma length_handlers: "handlers_ok s \<Longrightarrow> length (ISRHandlers s) = 255"
  by (simp add: handlers_ok_def)

lemma ioapic_write_handlers [simp]: "ISRHandlers (ioapic_write r v s) = ISRHandlers s"
  by (simp add: ioapic_write_def mmio_write_def)

text \<open>\<open>cisrs_register\<close> and \<open>ps2_init\<close> fill the empty table.\<close>

lemma unmask_handlers [simp]: "ISRHandlers (ioapic_unmask v s) = ISRHandlers s"
  by (simp add: ioapic_unmask_def Let_def split: prod.splits option.splits)

lemma start_up_handlers:
  assumes "ISRHandlers s = replicate 255 None" "ps2_init s = Inr ((), t)" "cisrs_register t = Inr ((), u)"
  shows "handlers_ok u"
  using assms
  by (auto simp: handlers_ok_def ps2_init_def cisrs_register_def register_ISR_def ISR_RegisterHandler_def then_do_Inr_iff
      port_simps Let_def split: if_splits)

lemma ISR_Handler_cases:
  assumes "handlers_ok s"
  shows "interrupt r < 32 \<Longrightarrow> ISR_Handler r s = Some (Inl (Psod (unat (interrupt r))))"
    "interrupt r = 32 \<Longrightarrow> ISR_Handler r s = schedule r (s\<lparr>cr3 := hn_pagemap s\<rparr>)"
    "interrupt r = 33 \<Longrightarrow> ISR_Handler r s = Some (then_do (handler (s\<lparr>cr3 := hn_pagemap s\<rparr>)) (\<lambda>_ s. Inr (r, s)))"
    "interrupt r = 0x80 \<Longrightarrow> ISR_Handler r s = Some (syscall_handler r (s\<lparr>cr3 := hn_pagemap s\<rparr>))"
    "interrupt r \<ge> 32 \<Longrightarrow> interrupt r < 255 \<Longrightarrow> interrupt r \<notin> {32, 33, 0x80} \<Longrightarrow>
       ISR_Handler r s = Some (Inr (r, s\<lparr>cr3 := hn_pagemap s\<rparr>))"
    "255 \<le> interrupt r \<Longrightarrow> ISR_Handler r s = Some (Inl Oob)"
  using handlers_nth [OF assms, of "unat (interrupt r)"] length_handlers [OF assms]
  by (auto simp: ISR_Handler_def call_handler_def Let_def word_less_nat_alt word_le_nat_alt word_unat_eq_iff)


section \<open>What an interrupt leaves alone\<close>

text \<open>The scheduler's table keeps its shape, and what lies above the events its value.\<close>

definition same_table :: "'z evstate_scheme \<Rightarrow> 'z evstate_scheme \<Rightarrow> bool" where
  "same_table s t \<longleftrightarrow> length (processes t) = length (processes s) \<and> sched_num_procs t = sched_num_procs s \<and>
     sched_current_pid t = sched_current_pid s \<and> sched_running t = sched_running s \<and>
     hn_pagemap t = hn_pagemap s \<and> cr3 t = cr3 s \<and> hhdm_off t = hhdm_off s \<and> evstate.more t = evstate.more s"

lemma same_table_inv: "same_table s t \<Longrightarrow> sched_inv s \<Longrightarrow> sched_inv t"
  by (simp add: same_table_def sched_inv_def sched_ok_def slots_def)

lemma same_table_more:
  assumes "pmm.more t = pmm.more s" "hhdm_off t = hhdm_off s"
  shows "same_table s t"
  using assms by (cases s; cases t) (simp add: same_table_def)

lemma same_table_pmem: "same_table s (s\<lparr>pmem := m\<rparr>)"
  by (simp add: same_table_def)

lemma same_table_refl [simp]: "same_table s s"
  by (simp add: same_table_def)

lemma same_table_trans: "same_table s t \<Longrightarrow> same_table t u \<Longrightarrow> same_table s u"
  by (simp add: same_table_def)

lemma same_table_store: "same_table s (store_bytes a bs s)"
  using same_table_pmem store_bytes_pmem_only by metis

lemma same_table_shift: "same_table s (shift_subs ev k j s)"
proof (induction k arbitrary: j s)
  case (Suc k)
  show ?case unfolding shift_subs.simps by (rule same_table_trans [OF same_table_store Suc.IH])
qed (simp add: same_table_def)

lemma same_table_events [simp]: "same_table s (t\<lparr>events := x\<rparr>) = same_table s t"
  by (simp add: same_table_def)

lemma event_subscribe_table:
  assumes "evs_ok s" "event_subscribe pid ev cb s = Inr ((), t)"
    "unat (num_subscribers (events s ! unat ev)) < 255"
  shows "same_table s t"
proof (cases "ev < num_events s")
  case True
  obtain p s1 k n e where s: "realloc (subscribers (events s ! unat ev)) k s = Inr (p, s1)" "pmm.more s1 = pmm.more s"
    "t = (put_sub p n pid cb s1)\<lparr>events := e\<rparr>"
    using event_subscribe_steps [OF assms(1) True assms(3,2)] by metis
  have "pmm_ok s" using assms(1) by (simp add: evs_ok_def heap_ok_def pmm_inv_def)
  from realloc_same [OF this s(1)] have h: "hhdm_off s1 = hhdm_off s" by (simp add: pmm_same_def)
  have "same_table s1 (put_sub p n pid cb s1)"
    unfolding put_sub_def by (blast intro: same_table_trans same_table_store)
  then show ?thesis using same_table_more [OF s(2) h] by (auto simp: s(3) intro: same_table_trans)
qed (use assms in \<open>simp add: event_subscribe_def same_table_def\<close>)

lemma syscall_table:
  assumes ok: "evs_ok s" and r: "syscall number arg1 arg2 arg3 s = Inr (v, t)"
    and room: "number = 3 \<Longrightarrow> unat (num_subscribers (events s ! unat (ucast arg1 :: u32))) < 255"
  shows "same_table s t"
proof -
  consider "number = 0" | "number = 1 \<or> number = 2" | "number = 3" | "number = 4" | "number = 5" | "number = 6" |
    "number \<notin> {0, 1, 2, 3, 4, 5, 6}" by auto
  then show ?thesis
  proof cases
    case 1
    then show ?thesis using r
      by (auto simp: syscall_def sched_kill_def same_table_def raise_int_def then_do_Inr_iff split: if_splits
          dest!: upd_process_Inr)
  next
    case 2
    then show ?thesis using r
      by (auto simp: syscall_def event_create_def event_destroy_def upd_event_def same_table_def then_do_Inr_iff
          split: if_splits)
  next
    case 3
    then show ?thesis using r event_subscribe_table [OF ok] room by (auto simp: syscall_def then_do_Inr_iff)
  next
    case 4
    then show ?thesis using r same_table_shift
      by (auto simp: syscall_def event_unsubscribe_def upd_event_def then_do_Inr_iff Let_def
          split: if_splits option.splits) (simp add: same_table_def)
  next
    case 5
    then show ?thesis using r
      by (auto simp: syscall_def event_fire_def same_table_def raise_int_def then_do_Inr_iff Let_def
          split: if_splits dest!: fire_loop_Inr)
  next
    case 6
    then show ?thesis using r
      by (auto simp: syscall_def event_exit_def sched_restore_state_def upd_process_def same_table_def raise_int_def
          split: if_splits)
  next
    case 7
    then show ?thesis using r by (simp add: syscall_def same_table_def)
  qed
qed


text \<open>The event invariant speaks of memory, the page allocator and the event table only.\<close>

lemma evs_ok_cong:
  fixes s t :: "'z evstate_scheme"
  assumes "pmm.truncate t = pmm.truncate s" "events t = events s" "num_events t = num_events s"
  shows "evs_ok t = evs_ok s" "subs t = subs s"
proof -
  have f: "pmem t = pmem s" "hhdm_off t = hhdm_off s" "total_mem t = total_mem s" "free_mem t = free_mem s"
    "used_mem t = used_mem s" "highest_block t = highest_block s" "page_bmp t = page_bmp s"
    using assms(1) by (simp_all add: pmm.defs)
  have l: "load_bytes t a n = load_bytes s a n" for a n
    by (induction n arbitrary: a) (simp_all add: load8_def f)
  have h: "heap_ok t = heap_ok s" by (simp add: heap_state_defs f)
  have p: "page_block t = page_block s" "page_of t = page_of s"
    by (simp_all add: page_block_def block_def page_of_def base_def VIRT_TO_PHYS_def fun_eq_iff
        heap_state_defs load64_def l f)
  show "evs_ok t = evs_ok s" by (simp add: evs_ok_def arrays_ok_def live_def hp.separate_def p h assms)
  show "subs t = subs s"
    by (simp add: subs_def get_sub_def sub_pid_def sub_callback_def load32_def load64_def l fun_eq_iff)
qed

lemma schedule_frame:
  fixes s :: "'z evstate_scheme"
  assumes "sched_inv s" "schedule r s = Some (Inr (r', t))"
  shows "pmm.truncate t = pmm.truncate s" "sched.more t = sched.more s" "hn_pagemap t = hn_pagemap s"
proof -
  let ?s = "s\<lparr>processes := (processes s)[unat (sched_current_pid s) :=
        (processes s ! unat (sched_current_pid s))\<lparr>regs := r\<rparr>]\<rparr>"
  obtain u where u: "next_process ?s = Some (Inr u)"
    and t: "t = (lapic_eoi (lapic_timer_oneshot 5 32 u))
      \<lparr>cr3 := VIRT_TO_PHYS u (pagemap (processes u ! unat (sched_current_pid u)))\<rparr>"
    by (rule schedule_Inr [OF assms])
  have "sched_ok ?s" "unat (sched_current_pid ?s) < slots ?s"
    using assms(1) by (simp_all add: sched_inv_def sched_ok_def slots_def)
  from next_process_Some [OF this u] obtain k where "u = picked (unat (sched_current_pid ?s)) k ?s" by blast
  then show "pmm.truncate t = pmm.truncate s" "sched.more t = sched.more s" "hn_pagemap t = hn_pagemap s"
    by (simp_all add: t picked_def timer_defs wreg_def pmm.defs)
qed

section \<open>The kernel between interrupts\<close>

text \<open>
  The invariant that holds between two interrupts once the scheduler runs, and the steps from one to
  the next. A subscription to an event that has 255 subscribers outgrows the page of its array and is
  not a step.
\<close>

definition kernel_inv :: "'z kbstate_scheme \<Rightarrow> bool" where
  "kernel_inv s \<longleftrightarrow> sched_inv s \<and> evs_ok s \<and> handlers_ok s \<and> (\<exists>shift. in_state shift (keyboard s))"

definition room_for :: "Registers \<Rightarrow> 'z evstate_scheme \<Rightarrow> bool" where
  "room_for r s \<longleftrightarrow>
     interrupt r \<noteq> 0x80 \<or> rax r \<noteq> 3 \<or> unat (num_subscribers (events s ! unat (ucast (rdi r) :: u32))) < 255"

inductive irq_step :: "'z kbstate_scheme \<Rightarrow> 'z kbstate_scheme \<Rightarrow> bool" where
  irq_step: "ISR_Handler r s = Some (Inr (r', t)) \<Longrightarrow> room_for r s \<Longrightarrow> irq_step s t"

inductive irq_steps :: "'z kbstate_scheme \<Rightarrow> 'z kbstate_scheme \<Rightarrow> bool" for s where
  irq_none: "irq_steps s s"
| irq_more: "irq_steps s t \<Longrightarrow> irq_step t u \<Longrightarrow> irq_steps s u"

inductive_cases irq_stepE: "irq_step s t"

lemma kernel_inv_cong:
  fixes s t :: "'z kbstate_scheme"
  assumes "sched_inv s \<Longrightarrow> sched_inv t" "pmm.truncate t = pmm.truncate s" "sched.more t = sched.more s" "kernel_inv s"
  shows "kernel_inv t"
proof -
  have "events t = events s" "num_events t = num_events s" "ISRHandlers t = ISRHandlers s" "keyboard t = keyboard s"
    using assms(3) by (cases s; cases t; simp)+
  then show ?thesis using assms evs_ok_cong(1) [OF assms(2)] by (simp add: kernel_inv_def handlers_ok_def)
qed

lemma kernel_inv_cr3: "kernel_inv s \<Longrightarrow> kernel_inv (s\<lparr>cr3 := x\<rparr>)"
  by (rule kernel_inv_cong [of s]) (simp_all add: sched_inv_def sched_ok_def slots_def pmm.defs)

lemma handler_keeps:
  assumes "kernel_inv s" "handler s = Inr (u, t)"
  shows "kernel_inv t" "cr3 t = cr3 s" "sched_current_pid t = sched_current_pid s" "hhdm_off t = hhdm_off s"
proof -
  obtain shift where st: "in_state shift (keyboard s)" using assms(1) by (auto simp: kernel_inv_def)
  obtain sc s1 k where sc: "inb8 PS2_DATA s = (sc, s1)" "key_event sc (keyboard s1) = Inr k"
    "t = lapic_eoi (s1\<lparr>keyboard := k\<rparr>)"
    using assms(2) by (auto simp: handler_def split: prod.splits sum.splits)
  then obtain m where s1: "s1 = s\<lparr>port_log := m\<rparr>" by (auto simp: port_simps)
  then obtain shift' where k: "in_state shift' k"
    using key_event_press [OF st, of sc] sc(2) by (auto split: option.splits)
  have "evs_ok t = evs_ok s" by (rule evs_ok_cong(1)) (simp_all add: sc(3) s1 lapic_eoi_def wreg_def pmm.defs)
  then show "kernel_inv t"
    using assms(1) k
    by (auto simp: kernel_inv_def sc(3) s1 lapic_eoi_def wreg_def sched_inv_def sched_ok_def slots_def handlers_ok_def)
  show "cr3 t = cr3 s" "sched_current_pid t = sched_current_pid s" "hhdm_off t = hhdm_off s"
    by (simp_all add: sc(3) s1 lapic_eoi_def wreg_def)
qed

lemma syscall_handler_keeps:
  assumes inv: "kernel_inv s" and r: "syscall_handler r s = Inr (r', t)"
    and room: "rax r = 3 \<Longrightarrow> unat (num_subscribers (events s ! unat (ucast (rdi r) :: u32))) < 255"
  shows "kernel_inv t" "cr3 t = cr3 s" "sched_current_pid t = sched_current_pid s" "r' = r\<lparr>rax := rax r'\<rparr>"
    "hhdm_off t = hhdm_off s"
proof -
  have ok: "evs_ok s" using inv by (simp add: kernel_inv_def)
  obtain v where v: "syscall (rax r) (rdi r) (rsi r) (rdx r) s = Inr (v, t)"
    using r by (auto simp: syscall_handler_def then_do_Inr_iff)
  have tab: "same_table s t" by (rule syscall_table [OF ok v room])
  show "cr3 t = cr3 s" "sched_current_pid t = sched_current_pid s" "hhdm_off t = hhdm_off s"
    using tab by (simp_all add: same_table_def)
  show "r' = r\<lparr>rax := rax r'\<rparr>" by (rule handler_regs [OF r])
  have "evstate.more t = evstate.more s" using tab by (simp add: same_table_def)
  then have "ISRHandlers t = ISRHandlers s" "keyboard t = keyboard s" by (cases s; cases t; simp)+
  then show "kernel_inv t"
    using inv same_table_inv [OF tab] syscall_keeps_evs_ok [OF ok v room]
    by (simp add: kernel_inv_def handlers_ok_def)
qed

lemma schedule_keeps:
  assumes "kernel_inv s" "schedule r s = Some (Inr (r', t))"
  shows "kernel_inv t" "hhdm_off t = hhdm_off s"
proof -
  have inv: "sched_inv s" using assms(1) by (simp add: kernel_inv_def)
  show "kernel_inv t"
    using kernel_inv_cong [OF _ schedule_frame(1,2) [OF inv assms(2)] assms(1)] schedule_step(1) [OF inv assms(2)] by blast
  show "hhdm_off t = hhdm_off s" using schedule_frame(1) [OF inv assms(2)] by (simp add: pmm.defs)
qed

text \<open>What one interrupt does to the invariant, the page map and the frame.\<close>

definition served :: "Registers \<Rightarrow> 'z sched_scheme \<Rightarrow> Registers \<Rightarrow> 'z sched_scheme \<Rightarrow> bool" where
  "served r s r' t \<longleftrightarrow> hhdm_off t = hhdm_off s \<and>
     (if interrupt r = 32
      then cr3 t = VIRT_TO_PHYS t (pagemap (processes t ! unat (sched_current_pid t))) \<and>
        r' = regs (processes t ! unat (sched_current_pid t))
      else cr3 t = hn_pagemap s \<and> sched_current_pid t = sched_current_pid s \<and> r' = r\<lparr>rax := rax r'\<rparr>)"

lemma ISR_Handler_serves:
  assumes inv: "kernel_inv s" and r: "ISR_Handler r s = Some (Inr (r', t))" and room: "room_for r s"
  shows "kernel_inv t \<and> served r s r' t"
proof -
  let ?s = "s\<lparr>cr3 := hn_pagemap s\<rparr>"
  have h: "handlers_ok s" using inv by (simp add: kernel_inv_def)
  note c = ISR_Handler_cases [OF h, of r] and i = kernel_inv_cr3 [OF inv, of "hn_pagemap s"]
  consider "interrupt r < 32" | "255 \<le> interrupt r" | "interrupt r = 32" | "interrupt r = 33" | "interrupt r = 0x80" |
    "interrupt r \<ge> 32" "interrupt r < 255" "interrupt r \<notin> {32, 33, 0x80}" by fastforce
  then show ?thesis
  proof cases
    case 1
    then show ?thesis using r c(1) by simp
  next
    case 2
    then show ?thesis using r c(6) by simp
  next
    case 3
    then have sc: "schedule r ?s = Some (Inr (r', t))" using r c(2) by simp
    have si: "sched_inv ?s" using i by (simp add: kernel_inv_def)
    show ?thesis using schedule_keeps [OF i sc] schedule_step(4,5) [OF si sc] 3 by (simp add: served_def)
  next
    case 4
    then obtain u where u: "handler ?s = Inr (u, t)" "r' = r" using r c(3) by (auto simp: then_do_Inr_iff)
    show ?thesis using handler_keeps [OF i u(1)] 4 u(2) by (simp add: served_def)
  next
    case 5
    then have "syscall_handler r ?s = Inr (r', t)" using r c(4) by simp
    from syscall_handler_keeps [OF i this] show ?thesis using room 5 by (simp add: room_for_def served_def)
  next
    case 6
    then show ?thesis using r c(5) i by (auto simp: served_def)
  qed
qed

section \<open>Properties\<close>



text \<open>A kernel with two processes.\<close>

definition sample_kernel :: kbstate where
  "sample_kernel = (sample_int
     \<lparr>ACPI_ver = 0, rsdt = NULL, xsdt = NULL, use_xsdt = False, end_addr = NULL,
      num_madt_entries = 0, entry_ptrs = replicate 64 NULL, num_mcfg_entries = 0, mcfg_entries = NULL,
      hpet_regs = NULL, ioapicaddr = NULL, vector_count = 0, mmio_log = [], mmio_dev = (\<lambda>w l a. 0), keyboard = sample_kb\<rparr>)
     \<lparr>processes := sample_procs [READY, READY], sched_num_procs := 2,
      ISRHandlers := (replicate 255 None)[33 := Some keyboard_isr, 32 := Some schedule_isr, 0x80 := Some syscall_handler_isr]\<rparr>"

lemma sample_kernel_pmm: "sample_kernel = sample (pmm.more sample_kernel)"
  by (simp add: sample_kernel_def sample_int_def sample_io_def sample_def sample_with_def)

lemma evs_ok_empty: "heap_ok s \<Longrightarrow> length (events s) = 64 \<Longrightarrow> num_events s = 0 \<Longrightarrow> evs_ok s"
  by (auto simp: evs_ok_def arrays_ok_def live_def hp.separate_def)

lemma sample_kernel_sched: "sample_kernel = sample_sched [READY, READY] 2 0 (sched.more sample_kernel)"
  by (simp add: sample_kernel_def sample_int_def sample_io_def sample_sched_def)

lemma sample_kernel_inv: "kernel_inv sample_kernel"
proof -
  have "sched_inv sample_kernel" by (subst sample_kernel_sched) (simp add: sample_sched_inv)
  moreover have "handlers_ok sample_kernel" "in_state False (keyboard sample_kernel)"
    by (simp_all add: handlers_ok_def sample_kernel_def sample_kb_def in_state_def sample_int_def sample_io_def)
  moreover have "heap_ok sample_kernel" by (subst sample_kernel_pmm) (rule sample_heap_ok)
  then have "evs_ok sample_kernel"
    by (rule evs_ok_empty) (simp_all add: sample_kernel_def sample_int_def sample_io_def)
  ultimately show ?thesis by (auto simp: kernel_inv_def)
qed


text \<open>The timer interrupt, then a system call that has no meaning, then a stray interrupt.\<close>

lemma sample_kernel_steps:
  obtains r' t where "ISR_Handler (zero_regs\<lparr>interrupt := 32\<rparr>) sample_kernel = Some (Inr (r', t))"
proof -
  let ?s = "sample_kernel\<lparr>cr3 := hn_pagemap sample_kernel\<rparr>"
  have eq: "?s = sample_sched [READY, READY] 2 0 (sched.more sample_kernel)"
    by (simp add: sample_kernel_def sample_int_def sample_io_def sample_sched_def)
  let ?k = "sample_sched [READY, READY] 2 0 (sched.more sample_kernel)"
  have inv: "sched_inv ?k" by (rule sample_sched_inv) simp_all
  obtain r' t where "schedule (zero_regs\<lparr>interrupt := 32\<rparr>) ?k = Some (Inr (r', t))"
    by (rule schedule_runs [OF inv, of 1]) (simp_all add: sample_ready)
  then have "schedule (zero_regs\<lparr>interrupt := 32\<rparr>) ?s = Some (Inr (r', t))" by (simp only: eq)
  moreover have "handlers_ok sample_kernel" using sample_kernel_inv by (simp add: kernel_inv_def)
  then have "ISR_Handler (zero_regs\<lparr>interrupt := 32\<rparr>) sample_kernel = schedule (zero_regs\<lparr>interrupt := 32\<rparr>) ?s"
    by (rule ISR_Handler_cases(2)) simp
  ultimately show thesis using that by simp
qed



end
