(* ===== verification/Pager.thy ===== *)
theory Pager
  imports Heap Sched
begin

unbundle bit_operations_syntax

text \<open>
  The four-level page tables of \<open>arch/x86_64/pager.c\<close>. Tables live in page frames and are
  accessed through the direct map; new tables come from the page allocator. The trace output is
  not modelled.
\<close>

section \<open>The code\<close>

abbreviation (input) FLAGS_R :: u64 where "FLAGS_R \<equiv> 1"
abbreviation (input) FLAGS_W :: u64 where "FLAGS_W \<equiv> 2"
abbreviation (input) FLAGS_X :: u64 where "FLAGS_X \<equiv> 4"
abbreviation (input) FLAGS_U :: u64 where "FLAGS_U \<equiv> 8"

abbreviation (input) PRESENT :: u64 where "PRESENT \<equiv> 1"
abbreviation (input) WRITABLE :: u64 where "WRITABLE \<equiv> 2"
abbreviation (input) USER :: u64 where "USER \<equiv> 4"
abbreviation (input) ADDR_MASK :: u64 where "ADDR_MASK \<equiv> 0x000FFFFFFFFFF000"
abbreviation (input) XD :: u64 where "XD \<equiv> 0x8000000000000000"

definition PML4_GET_ADDR :: "u64 \<Rightarrow> u64" where
  "PML4_GET_ADDR v = v AND ADDR_MASK"

definition transform_flags :: "u64 \<Rightarrow> u64" where
  "transform_flags flags =
     (let f = XD;
          f = (if flags AND FLAGS_R \<noteq> 0 then f OR PRESENT else f);
          f = (if flags AND FLAGS_W \<noteq> 0 then f OR WRITABLE else f);
          f = (if flags AND FLAGS_X \<noteq> 0 then f AND NOT XD else f)
      in if flags AND FLAGS_U \<noteq> 0 then f OR USER else f)"

definition get_next_lvl ::
    "ptr \<Rightarrow> usize \<Rightarrow> u64 \<Rightarrow> bool \<Rightarrow> 'z pmm_scheme \<Rightarrow> (ptr, 'z pmm_scheme) result" where
  "get_next_lvl lvl index flags alloc s =
     (if load64 s (lvl + 8 * index) AND PRESENT \<noteq> 0
      then Inr (PHYS_TO_VIRT s (PML4_GET_ADDR (load64 s (lvl + 8 * index))), s)
      else if alloc then
        then_do (request_pages 1 s) (\<lambda>p s.
          let new_lvl = PHYS_TO_VIRT s p;
              s = memset new_lvl 0 PAGE_SIZE s;
              s = store64 (lvl + 8 * index) (VIRT_TO_PHYS s new_lvl OR flags) s
          in Inr (new_lvl, s))
      else Inr (NULL, s))"

definition pml_index :: "nat \<Rightarrow> u64 \<Rightarrow> usize" where
  "pml_index shift vaddr = drop_bit shift vaddr AND 0x1ff"

primrec copy_upper :: "nat \<Rightarrow> usize \<Rightarrow> ptr \<Rightarrow> ptr \<Rightarrow> 'z machine_scheme \<Rightarrow> 'z machine_scheme" where
  "copy_upper 0 i dst src s = s"
| "copy_upper (Suc n) i dst src s =
     copy_upper n (i + 1) dst src (store64 (dst + 8 * i) (load64 s (src + 8 * i)) s)"

definition vmm_create_pagemap :: "'z sched_scheme \<Rightarrow> (u64, 'z sched_scheme) result" where
  "vmm_create_pagemap s =
     then_do (request_pages 1 s) (\<lambda>p s.
       let pml4 = PHYS_TO_VIRT s p;
           s = memset pml4 0 PAGE_SIZE s;
           s = copy_upper 256 256 pml4 (PHYS_TO_VIRT s (hn_pagemap s)) s
       in Inr (pml4, s))"

definition vmm_bind_pagemap :: "u64 \<Rightarrow> 'z sched_scheme \<Rightarrow> 'z sched_scheme" where
  "vmm_bind_pagemap pml4 s = s\<lparr>cr3 := pml4\<rparr>"

definition vmm_get_pagemap :: "'z sched_scheme \<Rightarrow> u64" where
  "vmm_get_pagemap s = cr3 s AND 0xFFFFFFFFFFFFF000"

text \<open>The three calls of \<open>get_next_lvl\<close> that several functions begin with.\<close>

definition walk_tables ::
    "u64 \<Rightarrow> u64 \<Rightarrow> u64 \<Rightarrow> 'z pmm_scheme \<Rightarrow> (ptr, 'z pmm_scheme) result" where
  "walk_tables pml4 vaddr flags s =
     then_do (get_next_lvl pml4 (pml_index 39 vaddr) flags True s) (\<lambda>pml3 s.
     then_do (get_next_lvl pml3 (pml_index 30 vaddr) flags True s) (\<lambda>pml2 s.
       get_next_lvl pml2 (pml_index 21 vaddr) flags True s))"

definition vmm_map_page ::
    "u64 \<Rightarrow> u64 \<Rightarrow> u64 \<Rightarrow> u64 \<Rightarrow> 'z pmm_scheme \<Rightarrow> (bool, 'z pmm_scheme) result" where
  "vmm_map_page pml4 vaddr paddr flags s =
     then_do (walk_tables pml4 vaddr (transform_flags flags) s) (\<lambda>pml1 s.
       Inr (True, store64 (pml1 + 8 * pml_index 12 vaddr) (paddr OR transform_flags flags) s))"

definition vmm_edit_flags ::
    "u64 \<Rightarrow> u64 \<Rightarrow> u64 \<Rightarrow> 'z pmm_scheme \<Rightarrow> (bool, 'z pmm_scheme) result" where
  "vmm_edit_flags pml4 vaddr flags s =
     then_do (walk_tables pml4 vaddr (transform_flags flags) s) (\<lambda>pml1 s.
       let a = pml1 + 8 * pml_index 12 vaddr in
       Inr (True, store64 a (PML4_GET_ADDR (load64 s a) OR transform_flags flags) s))"

definition vmm_virt_to_phys :: "u64 \<Rightarrow> u64 \<Rightarrow> 'z pmm_scheme \<Rightarrow> (u64, 'z pmm_scheme) result" where
  "vmm_virt_to_phys pml4 vaddr s =
     then_do (walk_tables pml4 vaddr 0 s) (\<lambda>pml1 s.
       Inr (PML4_GET_ADDR (load64 s (pml1 + 8 * pml_index 12 vaddr)), s))"

text \<open>The loops over \<open>i < num_pages\<close>: a recursion on the rounds left.\<close>

primrec map_range_loop ::
    "u64 \<Rightarrow> u64 \<Rightarrow> u64 \<Rightarrow> u64 \<Rightarrow> nat \<Rightarrow> u64 \<Rightarrow> bool \<Rightarrow> 'z pmm_scheme \<Rightarrow> (bool, 'z pmm_scheme) result" where
  "map_range_loop pml4 vaddr paddr flags 0 i success s = Inr (success, s)"
| "map_range_loop pml4 vaddr paddr flags (Suc n) i success s =
     then_do (vmm_map_page pml4 (vaddr + i * PAGE_SIZE) (paddr + i * PAGE_SIZE) flags s) (\<lambda>ok s.
       map_range_loop pml4 vaddr paddr flags n (i + 1) (success \<and> ok) s)"

definition vmm_map_range ::
    "u64 \<Rightarrow> u64 \<Rightarrow> u64 \<Rightarrow> u64 \<Rightarrow> u64 \<Rightarrow> 'z pmm_scheme \<Rightarrow> (bool, 'z pmm_scheme) result" where
  "vmm_map_range pml4 vaddr paddr num_pages flags s =
     map_range_loop pml4 vaddr paddr flags (unat num_pages) 0 True s"

text \<open>
  \<open>vmm_unmap_page\<close> follows the entries without \<open>PHYS_TO_VIRT\<close>, and \<open>~0xFFF\<close> leaves the bits
  above the address in place.
\<close>

definition vmm_unmap_page :: "u64 \<Rightarrow> u64 \<Rightarrow> 'z machine_scheme \<Rightarrow> bool \<times> 'z machine_scheme" where
  "vmm_unmap_page pml4 vaddr s =
     (let e4 = load64 s (pml4 + 8 * pml_index 39 vaddr) in
      if e4 AND PRESENT = 0 then (False, s)
      else
        let pml3 = e4 AND NOT 0xFFF; e3 = load64 s (pml3 + 8 * pml_index 30 vaddr) in
        if e3 AND PRESENT = 0 then (False, s)
        else
          let pml2 = e3 AND NOT 0xFFF; e2 = load64 s (pml2 + 8 * pml_index 21 vaddr) in
          if e2 AND PRESENT = 0 then (False, s)
          else
            let pml1 = e2 AND NOT 0xFFF in
            (True, store64 (pml1 + 8 * pml_index 12 vaddr) 0 s))"

primrec unmap_range_loop ::
    "u64 \<Rightarrow> u64 \<Rightarrow> nat \<Rightarrow> u64 \<Rightarrow> bool \<Rightarrow> 'z machine_scheme \<Rightarrow> bool \<times> 'z machine_scheme" where
  "unmap_range_loop pml4 vaddr 0 i success s = (success, s)"
| "unmap_range_loop pml4 vaddr (Suc n) i success s =
     (let (ok, s) = vmm_unmap_page pml4 (vaddr + i * PAGE_SIZE) s in
      unmap_range_loop pml4 vaddr n (i + 1) (success \<and> ok) s)"

definition vmm_unmap_range :: "u64 \<Rightarrow> u64 \<Rightarrow> u64 \<Rightarrow> 'z machine_scheme \<Rightarrow> bool \<times> 'z machine_scheme" where
  "vmm_unmap_range pml4 vaddr num_pages s = unmap_range_loop pml4 vaddr (unat num_pages) 0 True s"

section \<open>Radix trees\<close>

text \<open>
  The abstract view: \<open>E a i\<close> is entry \<open>i\<close> of the table at physical address \<open>a\<close>, a path is a
  list of indices from the root. Everything about tables that does not depend on how they lie
  in memory is proved here.
\<close>

type_synonym tables = "u64 \<Rightarrow> nat \<Rightarrow> u64"

definition present :: "u64 \<Rightarrow> bool" where "present e \<longleftrightarrow> e AND PRESENT \<noteq> 0"

fun descend :: "tables \<Rightarrow> u64 \<Rightarrow> nat list \<Rightarrow> u64 option" where
  "descend E a [] = Some a"
| "descend E a (i # p) = (if present (E a i) then descend E (PML4_GET_ADDR (E a i)) p else None)"

lemma descend_append:
  "descend E a (p @ q) = (case descend E a p of None \<Rightarrow> None | Some b \<Rightarrow> descend E b q)"
  by (induction p arbitrary: a) auto

lemma descend_snoc:
  "descend E a (p @ [i]) = (case descend E a p of None \<Rightarrow> None
     | Some b \<Rightarrow> if present (E b i) then Some (PML4_GET_ADDR (E b i)) else None)"
  by (simp add: descend_append split: option.splits)

lemma descend_prefix: "descend E a (p @ q) = Some c \<Longrightarrow> \<exists>b. descend E a p = Some b"
  by (auto simp: descend_append split: option.splits)

text \<open>
  \<open>domain D\<close>: the paths of at most three indices whose first index satisfies \<open>D\<close>.
  \<open>tree E root D\<close>: different paths lead to different tables.
\<close>

definition domain :: "(nat \<Rightarrow> bool) \<Rightarrow> nat list set" where
  "domain D = {p. length p \<le> 3 \<and> (p \<noteq> [] \<longrightarrow> D (hd p)) \<and> (\<forall>i \<in> set p. i < 512)}"

definition reached :: "tables \<Rightarrow> u64 \<Rightarrow> (nat \<Rightarrow> bool) \<Rightarrow> u64 set" where
  "reached E a D = {b. \<exists>p \<in> domain D. descend E a p = Some b}"

definition tree :: "tables \<Rightarrow> u64 \<Rightarrow> (nat \<Rightarrow> bool) \<Rightarrow> bool" where
  "tree E a D \<longleftrightarrow> (\<forall>p \<in> domain D. \<forall>q \<in> domain D. \<forall>b. descend E a p = Some b \<longrightarrow> descend E a q = Some b \<longrightarrow> p = q)"

lemma domain_take: "p @ q \<in> domain D \<Longrightarrow> p \<in> domain D"
  by (cases p) (auto simp: domain_def)

lemma domain_Nil [simp]: "[] \<in> domain D"
  by (simp add: domain_def)

text \<open>A change of one entry is seen by the paths that go through it only.\<close>

definition set_entry :: "u64 \<Rightarrow> nat \<Rightarrow> u64 \<Rightarrow> tables \<Rightarrow> tables" where
  "set_entry a i w E = E(a := (E a)(i := w))"

lemma set_entry_apply: "set_entry a i w E b j = (if b = a \<and> j = i then w else E b j)"
  by (simp add: set_entry_def)

lemma descend_cong:
  assumes "\<And>q i r b. p = q @ i # r \<Longrightarrow> descend E a q = Some b \<Longrightarrow> E' b i = E b i"
  shows "descend E' a p = descend E a p"
  using assms
proof (induction p rule: rev_induct)
  case (snoc i p)
  have "descend E' a p = descend E a p"
  proof (rule snoc.IH)
    fix q j r b assume "p = q @ j # r" "descend E a q = Some b"
    then show "E' b j = E b j" using snoc.prems [of q j "r @ [i]" b] by simp
  qed
  moreover have "E' b i = E b i" if "descend E a p = Some b" for b
    using snoc.prems [of p i "[]" b] that by simp
  ultimately show ?case by (auto simp: descend_snoc split: option.splits)
qed simp

text \<open>Leaf entries: a path of three indices leads to a table whose entries are never followed.\<close>

lemma descend_leaf_change:
  assumes "tree E a D" "p \<in> domain D" "length p = 3" "descend E a p = Some b" "q \<in> domain D"
  shows "descend (set_entry b i w E) a q = descend E a q"
proof (rule descend_cong)
  fix r j r' c assume q: "q = r @ j # r'" and c: "descend E a r = Some c"
  have "r \<in> domain D" using assms(5) q domain_take by blast
  moreover have "length r < 3" using assms(5) q by (simp add: domain_def)
  ultimately have "c \<noteq> b" using assms(1-4) c unfolding tree_def by (metis less_irrefl)
  then show "set_entry b i w E c j = E c j" by (simp add: set_entry_apply)
qed

text \<open>A fresh, zeroed table \<open>n\<close> hung below the table that path \<open>p\<close> leads to.\<close>

definition hang :: "u64 \<Rightarrow> nat \<Rightarrow> u64 \<Rightarrow> u64 \<Rightarrow> tables \<Rightarrow> tables" where
  "hang b i w n E = set_entry b i w (E(n := \<lambda>_. 0))"

lemma not_present_0 [simp]: "\<not> present 0"
  by (simp add: present_def)

lemma hang_apply:
  "n \<noteq> b \<Longrightarrow> hang b i w n E c j = (if c = b \<and> j = i then w else if c = n then 0 else E c j)"
  by (auto simp: hang_def set_entry_apply)

lemma descend_hang:
  assumes t: "tree E a D" and p: "p @ [i] \<in> domain D" "descend E a p = Some b" and np: "\<not> present (E b i)"
    and n: "n \<notin> reached E a D" and w: "present w" "PML4_GET_ADDR w = n"
  shows "descend (hang b i w n E) a (p @ [i]) = Some n"
    and "q \<in> domain D \<Longrightarrow> q \<noteq> p @ [i] \<Longrightarrow> descend (hang b i w n E) a q = descend E a q"
proof -
  let ?E = "hang b i w n E"
  have pd: "p \<in> domain D" using domain_take p(1) by blast
  have "b \<in> reached E a D" using pd p(2) by (auto simp: reached_def)
  then have nb: "n \<noteq> b" using n by blast
  note ap = hang_apply [OF nb, of i w E]
  have other: "descend ?E a q = descend E a q"
    if q: "q \<in> domain D" and npre: "\<And>r. q \<noteq> (p @ [i]) @ r" for q
  proof (rule descend_cong)
    fix r j r' c assume qr: "q = r @ j # r'" and c: "descend E a r = Some c"
    have rd: "r \<in> domain D" using q qr domain_take by blast
    then have "c \<in> reached E a D" using c by (auto simp: reached_def)
    moreover have "\<not> (c = b \<and> j = i)"
    proof
      assume "c = b \<and> j = i"
      then have "r = p" using t rd pd c p(2) unfolding tree_def by blast
      then show False using npre [of r'] qr \<open>c = b \<and> j = i\<close> by simp
    qed
    ultimately show "?E c j = E c j" using n by (auto simp: ap)
  qed
  have "descend ?E a p = Some b" using other [OF pd] p(2) by simp
  then show hit: "descend ?E a (p @ [i]) = Some n" using w by (simp add: descend_snoc ap)
  show "descend ?E a q = descend E a q" if q: "q \<in> domain D" "q \<noteq> p @ [i]"
  proof (cases "\<exists>r. q = (p @ [i]) @ r")
    case True
    then obtain j r where q': "q = (p @ [i]) @ j # r" using q(2) by (metis append_Nil2 neq_Nil_conv)
    have "?E n j = 0" using nb by (simp add: ap)
    then have "descend ?E n (j # r) = None" by simp
    then have "descend ?E a q = None" unfolding q' descend_append [of ?E a "p @ [i]"] hit by simp
    moreover have "descend E a (p @ [i]) = None" using p(2) np by (simp add: descend_snoc)
    then have "descend E a q = None" unfolding q' descend_append [of E a "p @ [i]"] by simp
    ultimately show ?thesis by simp
  qed (use other q in blast)
qed

lemma tree_hang:
  assumes t: "tree E a D" and p: "p @ [i] \<in> domain D" "descend E a p = Some b" and np: "\<not> present (E b i)"
    and n: "n \<notin> reached E a D" and w: "present w" "PML4_GET_ADDR w = n"
  shows "tree (hang b i w n E) a D" "reached (hang b i w n E) a D = insert n (reached E a D)"
proof -
  let ?E = "hang b i w n E"
  note d = descend_hang [OF assms]
  have none: "descend E a (p @ [i]) = None" using p(2) np by (simp add: descend_snoc)
  show "tree ?E a D"
    unfolding tree_def
  proof (intro ballI allI impI)
    fix q r c assume q: "q \<in> domain D" "r \<in> domain D" "descend ?E a q = Some c" "descend ?E a r = Some c"
    have eq: "x \<noteq> p @ [i] \<Longrightarrow> x \<in> domain D \<Longrightarrow> descend ?E a x = Some c \<Longrightarrow> descend E a x = Some c \<and> c \<noteq> n" for x
      using d(2) [of x] n by (auto simp: reached_def)
    show "q = r" using q eq [of q] eq [of r] d(1) t unfolding tree_def by (metis option.inject)
  qed
  show "reached ?E a D = insert n (reached E a D)"
  proof (intro equalityI subsetI)
    fix c assume "c \<in> reached ?E a D"
    then obtain q where "q \<in> domain D" "descend ?E a q = Some c" by (auto simp: reached_def)
    then show "c \<in> insert n (reached E a D)" using d by (cases "q = p @ [i]") (auto simp: reached_def)
  next
    fix c assume "c \<in> insert n (reached E a D)"
    then consider "c = n" | q where "q \<in> domain D" "descend E a q = Some c" by (auto simp: reached_def)
    then show "c \<in> reached ?E a D"
    proof cases
      case 2
      then have "q \<noteq> p @ [i]" using none by auto
      then show ?thesis using 2 d(2) [of q] by (auto simp: reached_def)
    qed (use d(1) p(1) in \<open>auto simp: reached_def\<close>)
  qed
qed

section \<open>Tables in memory\<close>

definition entry :: "'z machine_scheme \<Rightarrow> tables" where
  "entry s b i = load64 s (PHYS_TO_VIRT s b + 8 * of_nat i)"

text \<open>A page that can hold a table: a frame of the direct map.\<close>

definition table_page :: "'z pmm_scheme \<Rightarrow> u64 \<Rightarrow> bool" where
  "table_page s b \<longleftrightarrow> unat b = 4096 * frame b \<and> frame b < nframes s"

lemma entry_span:
  assumes "heap_ok s" "table_page s b" "i < 512"
  shows "span (hhdm_off s) (PHYS_TO_VIRT s b + 8 * of_nat i) 8 (b + of_nat (8 * i))"
    "unat (b + of_nat (8 * i)) = unat b + 8 * i"
proof -
  have "unat b + 4096 \<le> 4096 * nframes s + 2 ^ 32"
    using assms(2) frame_bound [of b s] by (simp add: table_page_def)
  from heap_span [OF assms(1) this] have sp: "span (hhdm_off s) (PHYS_TO_VIRT s b) 4096 b" .
  from span_shift [OF sp, of "8 * i" 8] assms(3)
  show "span (hhdm_off s) (PHYS_TO_VIRT s b + 8 * of_nat i) 8 (b + of_nat (8 * i))" by simp
  show "unat (b + of_nat (8 * i)) = unat b + 8 * i"
    using span_bound [OF sp] assms(3) by (intro unat_add_of_nat) simp
qed

lemma entry_frame:
  assumes "heap_ok s" "table_page s b" "i < 512" "q \<in> prange (b + of_nat (8 * i)) 8"
  shows "frame q = frame b"
proof -
  have "4096 * frame b \<le> unat q" "unat q < 4096 * frame b + 4096"
    using assms entry_span(2) [OF assms(1-3)] by (auto simp: prange_def table_page_def)
  then show ?thesis unfolding frame_def by (intro div_nat_eqI) simp_all
qed

lemma entry_cong:
  assumes "heap_ok s" "table_page s b" "i < 512" "hhdm_off t = hhdm_off s"
    and "\<And>q. frame q = frame b \<Longrightarrow> pmem t q = pmem s q"
  shows "entry t b i = entry s b i"
  unfolding entry_def PHYS_TO_VIRT_cong [OF assms(4)]
  by (rule load64_cong [OF entry_span(1) [OF assms(1-3)] assms(4)])
    (use assms(5) entry_frame [OF assms(1-3)] in blast)

lemma table_page_eqI: "table_page s b \<Longrightarrow> table_page s c \<Longrightarrow> frame b = frame c \<Longrightarrow> b = c"
  by (simp add: table_page_def word_unat_eq_iff)

lemma entry_store:
  assumes "heap_ok s" "table_page s b" "i < 512" "table_page s c" "j < 512"
  shows "entry (store64 (PHYS_TO_VIRT s b + 8 * of_nat i) w s) c j = (if c = b \<and> j = i then w else entry s c j)"
proof -
  note sb = entry_span [OF assms(1-3)] and sc = entry_span [OF assms(1,4,5)]
  let ?t = "store64 (PHYS_TO_VIRT s b + 8 * of_nat i) w s"
  have pv: "PHYS_TO_VIRT ?t c = PHYS_TO_VIRT s c" by (rule PHYS_TO_VIRT_cong) simp
  show ?thesis
  proof (cases "c = b \<and> j = i")
    case True
    then show ?thesis using load64_store64 [OF sb(1)] pv by (simp add: entry_def)
  next
    case False
    have "prange (b + of_nat (8 * i)) 8 \<inter> prange (c + of_nat (8 * j)) 8 = {}"
    proof (cases "c = b")
      case True
      with False have "8 * i + 8 \<le> 8 * j \<or> 8 * j + 8 \<le> 8 * i" by auto
      then show ?thesis using sb(2) sc(2) True by (intro prange_disjoint) auto
    next
      case ne: False
      then have "frame b \<noteq> frame c" using table_page_eqI assms by blast
      then show ?thesis using entry_frame [OF assms(1-3)] entry_frame [OF assms(1,4,5)] by (metis disjoint_iff)
    qed
    from load64_store64_other [OF sb(1) sc(1) this] False show ?thesis using pv by (auto simp: entry_def)
  qed
qed

section \<open>Invariant\<close>

text \<open>
  The tables reached from \<open>r\<close> through the top-level entries in \<open>D\<close> form a tree of used frames
  clear of the bitmap, and physical addresses fit the address field of an entry.
\<close>

definition table_ok :: "'z pmm_scheme \<Rightarrow> u64 \<Rightarrow> bool" where
  "table_ok s b \<longleftrightarrow> table_page s b \<and> frame b \<in> used_frames s \<and> frame b \<notin> frame ` bmp_region (page_bmp s) s"

definition pt_ok :: "'z pmm_scheme \<Rightarrow> u64 \<Rightarrow> (nat \<Rightarrow> bool) \<Rightarrow> bool" where
  "pt_ok s r D \<longleftrightarrow> heap_ok s \<and> nframes s \<le> 2 ^ 40 \<and> tree (entry s) r D \<and>
     (\<forall>b \<in> reached (entry s) r D. table_ok s b)"

lemma pt_okD:
  assumes "pt_ok s r D" "b \<in> reached (entry s) r D"
  shows "table_page s b" "frame b \<in> used_frames s" "q \<in> bmp_region (page_bmp s) s \<Longrightarrow> frame q \<noteq> frame b"
  using assms unfolding pt_ok_def table_ok_def by (blast, blast, metis imageI)

text \<open>Only the entries of reached tables matter.\<close>

lemma descend_agree:
  assumes "\<And>b i. b \<in> reached E a D \<Longrightarrow> i < 512 \<Longrightarrow> E' b i = E b i" "p \<in> domain D"
  shows "descend E' a p = descend E a p"
proof (rule descend_cong)
  fix q i r b assume p: "p = q @ i # r" and b: "descend E a q = Some b"
  have "q \<in> domain D" using assms(2) p domain_take by blast
  then have "b \<in> reached E a D" using b by (auto simp: reached_def)
  moreover have "i < 512" using assms(2) p by (simp add: domain_def)
  ultimately show "E' b i = E b i" using assms(1) by blast
qed

lemma tree_agree:
  assumes "\<And>b i. b \<in> reached E a D \<Longrightarrow> i < 512 \<Longrightarrow> E' b i = E b i"
  shows "tree E' a D = tree E a D" "reached E' a D = reached E a D"
  using descend_agree [OF assms] by (auto simp: tree_def reached_def)

text \<open>What a path of three indices and a last index map to: the leaf entry if it is present.\<close>

definition leaf :: "tables \<Rightarrow> u64 \<Rightarrow> nat list \<Rightarrow> nat \<Rightarrow> u64 option" where
  "leaf E a p j = (case descend E a p of None \<Rightarrow> None | Some b \<Rightarrow> if present (E b j) then Some (E b j) else None)"

lemma leaf_agree:
  assumes "\<And>b i. b \<in> reached E a D \<Longrightarrow> i < 512 \<Longrightarrow> E' b i = E b i" "p \<in> domain D" "j < 512"
  shows "leaf E' a p j = leaf E a p j"
proof (cases "descend E a p")
  case (Some b)
  then have "E' b j = E b j" using assms by (auto simp: reached_def)
  then show ?thesis using descend_agree [OF assms(1,2)] Some by (simp add: leaf_def)
qed (use descend_agree [OF assms(1,2)] in \<open>simp add: leaf_def\<close>)

lemma leaf_hang:
  assumes t: "tree E a D" and p: "p @ [i] \<in> domain D" "descend E a p = Some b" and np: "\<not> present (E b i)"
    and n: "n \<notin> reached E a D" and w: "present w" "PML4_GET_ADDR w = n"
    and q: "q \<in> domain D" "length q = 3"
  shows "leaf (hang b i w n E) a q j = leaf E a q j"
proof -
  note d = descend_hang [OF assms(1-7)]
  have pd: "p \<in> domain D" using domain_take p(1) by blast
  then have "b \<in> reached E a D" using p(2) by (auto simp: reached_def)
  then have nb: "n \<noteq> b" using n by blast
  show ?thesis
  proof (cases "q = p @ [i]")
    case True
    then have "descend E a q = None" using p(2) np by (simp add: descend_snoc)
    then show ?thesis using d(1) True nb by (simp add: leaf_def hang_apply)
  next
    case False
    have "c \<noteq> n \<and> c \<noteq> b" if c: "descend E a q = Some c" for c
    proof -
      have "c \<noteq> n" using c n q(1) by (auto simp: reached_def)
      moreover have "length p < 3" using p(1) by (simp add: domain_def)
      then have "c \<noteq> b" using t c p(2) pd q unfolding tree_def by (metis less_irrefl)
      ultimately show ?thesis by blast
    qed
    then show ?thesis using d(2) [OF q(1) False] nb
      by (cases "descend E a q") (auto simp: leaf_def hang_apply)
  qed
qed

section \<open>A new table\<close>

lemma load64_zero:
  assumes "span (hhdm_off s) a 8 p" "\<And>q. q \<in> prange p 8 \<Longrightarrow> pmem s q = 0"
  shows "load64 s a = 0"
proof -
  have "pmem s (p + of_nat i) = 0" if "i < 8" for i
    using assms(2) prange_offset [OF that span_bound [OF assms(1)]] by blast
  then have "load_bytes s a 8 = map (\<lambda>i. 0) [0..<8]"
    by (simp add: load_bytes_span [OF assms(1)] del: upt_rec_numeral)
  moreover have "bytes_word (map (\<lambda>i. 0) xs) = (0 :: u64)" for xs :: "nat list"
    by (induction xs) simp_all
  ultimately show ?thesis by (simp add: load64_def)
qed

text \<open>A change of memory confined to one used frame off the bitmap.\<close>

lemma frame_write:
  assumes ok: "heap_ok s" and t: "t = s\<lparr>pmem := m\<rparr>" and m: "\<And>q. frame q \<noteq> n \<Longrightarrow> m q = pmem s q"
    and n: "n \<notin> frame ` bmp_region (page_bmp s) s"
  shows "heap_ok t" "used_frames t = used_frames s" "nframes t = nframes s" "page_bmp t = page_bmp s"
    "hhdm_off t = hhdm_off s" "bmp_region (page_bmp t) t = bmp_region (page_bmp s) s" "balance t = balance s"
proof -
  have "m q = pmem s q" if "q \<in> bmp_region (page_bmp s) s" for q
    using m [of q] n that by (cases "frame q = n") auto
  then have dw: "data_write s t" by (simp add: data_write_def t)
  have "pmm_inv s" using ok by (simp add: heap_ok_def)
  note d = data_write_facts [OF dw this]
  show "heap_ok t" "used_frames t = used_frames s" "nframes t = nframes s" "page_bmp t = page_bmp s"
    "hhdm_off t = hhdm_off s" "balance t = balance s"
    using d ok by simp_all
  show "bmp_region (page_bmp t) t = bmp_region (page_bmp s) s"
    using d bmp_region_cong [of t s] by simp
qed

lemma fresh_table:
  assumes ok: "heap_ok s" and r: "request_pages 1 s = Inr (p, s1)"
  defines "t \<equiv> memset (PHYS_TO_VIRT s1 p) 0 4096 s1"
  shows "heap_ok t" "used_frames t = insert (frame p) (used_frames s)" "frame p \<notin> used_frames s"
    "table_page t p" "frame p \<notin> frame ` bmp_region (page_bmp t) t" "nframes t = nframes s"
    "page_bmp t = page_bmp s" "hhdm_off t = hhdm_off s" "pmm.more t = pmm.more s"
    "PHYS_TO_VIRT s1 p = PHYS_TO_VIRT t p" "balance t = balance s" "hhdm_off s1 = hhdm_off s"
    "j < 512 \<Longrightarrow> entry t p j = 0"
    "table_ok s c \<Longrightarrow> j < 512 \<Longrightarrow> entry t c j = entry s c j \<and> table_ok t c"
    "q \<notin> bmp_region (page_bmp s) s \<Longrightarrow> frame q \<noteq> frame p \<Longrightarrow> pmem t q = pmem s q"
proof -
  have inv: "pmm_inv s" using ok by (simp add: heap_ok_def)
  note f = request_pages_pmm [OF inv _ r]
  have f4: "used_frames s1 = insert (frame p) (used_frames s)" using f(4) by auto
  have pf: "pmm_frame s s1" and fresh: "frame p \<notin> used_frames s" using f(5,8) by simp_all
  then have hh: "hhdm_off s1 = hhdm_off s" "page_bmp s1 = page_bmp s" "pmm.more s1 = pmm.more s"
    by (simp_all add: pmm_frame_def)
  have ok1: "heap_ok s1" using heap_ok_frame [OF ok pf] f4 by blast
  have reg1: "bmp_region (page_bmp s1) s1 = bmp_region (page_bmp s) s"
    using hh bmp_region_cong [of s1 s] by simp
  have nb: "frame p \<notin> frame ` bmp_region (page_bmp s1) s1"
    using fresh ok unfolding reg1 by (auto simp: heap_ok_def)
  have tp1: "table_page s1 p"
    using unat_page [of p] f(2) scanned_frame [OF inv f(9)] pmm_frame_nframes [OF pf] by (simp add: table_page_def)
  have b4096: "unat p + 4096 \<le> 4096 * nframes s1 + 2 ^ 32"
    using tp1 frame_bound [of p s1] by (simp add: table_page_def)
  have sp: "span (hhdm_off s1) (PHYS_TO_VIRT s1 p) (unat (4096 :: u64)) p"
    using heap_span [OF ok1 b4096] by simp
  have pm: "pmem t q = (if q \<in> prange p 4096 then 0 else pmem s1 q)" for q
    using pmem_memset [OF sp, of 0 q] by (simp add: t_def)
  have inp: "q \<in> prange p 4096 \<longleftrightarrow> frame q = frame p" for q
    using tp1 by (auto simp: prange_def table_page_def frame_eq_iff)
  have tt: "t = s1\<lparr>pmem := pmem t\<rparr>" unfolding t_def by (rule memset_pmem_only)
  note fw = frame_write [OF ok1 tt _ nb]
  have w: "frame q \<noteq> frame p \<Longrightarrow> pmem t q = pmem s1 q" for q by (simp add: pm inp)
  note fw = fw [OF w]
  show "q \<notin> bmp_region (page_bmp s) s \<Longrightarrow> frame q \<noteq> frame p \<Longrightarrow> pmem t q = pmem s q"
    using w [of q] pf by (simp add: pmm_frame_def)
  show "heap_ok t" by (rule fw(1))
  show "used_frames t = insert (frame p) (used_frames s)" using fw(2) f4 by simp
  show "frame p \<notin> used_frames s" by (rule fresh)
  show nf: "nframes t = nframes s" using fw(3) pmm_frame_nframes [OF pf] by simp
  show tp: "table_page t p" using tp1 fw(3) by (simp add: table_page_def)
  show "frame p \<notin> frame ` bmp_region (page_bmp t) t" using nb fw(6) by simp
  show hs: "page_bmp t = page_bmp s" "hhdm_off t = hhdm_off s" "balance t = balance s" "hhdm_off s1 = hhdm_off s"
    using fw(4,5,7) hh f(6) by simp_all
  obtain m where "t = s1\<lparr>pmem := m\<rparr>" using tt by blast
  then show "pmm.more t = pmm.more s" using hh(3) by simp
  show "PHYS_TO_VIRT s1 p = PHYS_TO_VIRT t p" using fw(5) PHYS_TO_VIRT_cong by metis
  show "entry t p j = 0" if "j < 512"
    unfolding entry_def
  proof (rule load64_zero [OF entry_span(1) [OF fw(1) tp that]])
    fix q assume "q \<in> prange (p + of_nat (8 * j)) 8"
    then have "frame q = frame p" using entry_frame [OF fw(1) tp that, of q] by simp
    then show "pmem t q = 0" using pm [of q] inp [of q] by simp
  qed
  show "entry t c j = entry s c j \<and> table_ok t c" if c: "table_ok s c" "j < 512"
  proof
    have ne: "frame c \<noteq> frame p" using c(1) fresh by (auto simp: table_ok_def)
    have "pmem t q = pmem s q" if q: "frame q = frame c" for q
    proof -
      have "q \<notin> bmp_region (page_bmp s) s" using c(1) q by (metis imageI table_ok_def)
      then show ?thesis using pf q ne w [of q] by (simp add: pmm_frame_def)
    qed
    then show "entry t c j = entry s c j"
      using c entry_cong [OF ok _ c(2) hs(2)] by (simp add: table_ok_def)
    have "bmp_region (page_bmp t) t = bmp_region (page_bmp s) s" using fw(6) reg1 by simp
    then show "table_ok t c"
      using c(1) nf fw(2) f4 by (simp add: table_ok_def table_page_def)
  qed
qed

section \<open>Entries\<close>

lemma addr_mask: "ADDR_MASK = push_bit 12 (mask 40)"
  by (simp add: push_bit_eq_mult mask_eq_exp_minus_1)

lemma addr_mask_page:
  assumes "unat p = 4096 * n" "n < 2 ^ 40"
  shows "p AND ADDR_MASK = p"
proof (rule bit_eqI)
  fix k
  have "n < 1099511627776" using assms(2) by simp
  then have "unat p < 2 ^ 52" using assms(1) by simp
  then have t: "take_bit 52 p = p" by (simp add: word_unat_eq_iff unsigned_take_bit_eq take_bit_nat_eq_self)
  have "unat p mod 2 ^ 12 = 0" using assms(1) by simp
  then have l: "take_bit 12 p = 0" by (simp add: word_unat_eq_iff take_bit_eq_mod unat_mod_u64)
  have "bit p k \<Longrightarrow> 12 \<le> k \<and> k < 52"
    using arg_cong [OF t, of "\<lambda>w. bit w k"] arg_cong [OF l, of "\<lambda>w. bit w k"]
    by (auto simp: bit_take_bit_iff not_le)
  then show "bit (p AND ADDR_MASK) k \<longleftrightarrow> bit p k"
    unfolding addr_mask by (auto simp: bit_and_iff bit_push_bit_iff bit_mask_iff dest: bit_imp_le_length)
qed

text \<open>An entry made of a page address and flag bits gives both back.\<close>

lemma make_entry:
  assumes "unat p = 4096 * n" "n < 2 ^ 40" "PML4_GET_ADDR f = 0"
  shows "PML4_GET_ADDR (p OR f) = p" "present f \<Longrightarrow> present (p OR f)" "(p OR f) AND NOT ADDR_MASK = f"
proof -
  have "PML4_GET_ADDR (p OR f) = (p AND ADDR_MASK) OR (f AND ADDR_MASK)"
    by (simp only: PML4_GET_ADDR_def bit.conj_disj_distrib2)
  then show "PML4_GET_ADDR (p OR f) = p"
    using addr_mask_page [OF assms(1,2)] assms(3) by (simp only: PML4_GET_ADDR_def) simp
  have "bit p k \<Longrightarrow> bit ADDR_MASK k" for k
    using addr_mask_page [OF assms(1,2)] by (metis bit_and_iff)
  then have p0: "p AND NOT ADDR_MASK = 0"
    by (intro bit_eqI) (auto simp only: bit_and_iff bit_not_iff bit_0_eq bot_apply bot_bool_def)
  have "f = (f AND ADDR_MASK) OR (f AND NOT ADDR_MASK)"
    by (rule bit_eqI) (auto simp: bit_simps)
  then have "f AND NOT ADDR_MASK = f" using assms(3) by (simp only: PML4_GET_ADDR_def) simp
  then show "(p OR f) AND NOT ADDR_MASK = f"
    using p0 by (simp only: bit.conj_disj_distrib2) simp
  show "present (p OR f)" if "present f"
  proof -
    have "(p OR f) AND 1 = (p AND 1) OR (f AND 1)" by (simp only: bit.conj_disj_distrib2)
    then show ?thesis using that by (auto simp: present_def or_eq_0_iff)
  qed
qed

lemma transform_flags_bits:
  "PML4_GET_ADDR (transform_flags f) = 0" "present (transform_flags f) = (f AND FLAGS_R \<noteq> 0)"
  by (simp_all add: transform_flags_def PML4_GET_ADDR_def present_def Let_def)

section \<open>get_next_lvl\<close>

text \<open>What a step keeps: the tables stay a tree and no leaf changes.\<close>

definition same_leaves :: "tables \<Rightarrow> tables \<Rightarrow> u64 \<Rightarrow> (nat \<Rightarrow> bool) \<Rightarrow> bool" where
  "same_leaves E E' r D \<longleftrightarrow> (\<forall>q \<in> domain D. length q = 3 \<longrightarrow> (\<forall>j < 512. leaf E' r q j = leaf E r q j))"

text \<open>The bytes of used frames apart from the bitmap and the tables under \<open>r\<close>: no table write reaches them.\<close>

definition spared :: "'z pmm_scheme \<Rightarrow> u64 \<Rightarrow> (nat \<Rightarrow> bool) \<Rightarrow> u64 \<Rightarrow> bool" where
  "spared s r D q \<longleftrightarrow> q \<notin> bmp_region (page_bmp s) s \<and> frame q \<in> used_frames s \<and>
     frame q \<notin> frame ` reached (entry s) r D"

definition spares :: "'z pmm_scheme \<Rightarrow> 'z pmm_scheme \<Rightarrow> u64 \<Rightarrow> (nat \<Rightarrow> bool) \<Rightarrow> bool" where
  "spares s t r D \<longleftrightarrow> (\<forall>q. spared s r D q \<longrightarrow> spared t r D q \<and> pmem t q = pmem s q)"

lemma spares_trans: "spares s t r D \<Longrightarrow> spares t u r D \<Longrightarrow> spares s u r D"
  by (simp add: spares_def)

lemma spares_refl [simp]: "spares s s r D"
  by (simp add: spares_def)

definition step_ok :: "'z pmm_scheme \<Rightarrow> 'z pmm_scheme \<Rightarrow> u64 \<Rightarrow> (nat \<Rightarrow> bool) \<Rightarrow> bool" where
  "step_ok s t r D \<longleftrightarrow> pt_ok t r D \<and> same_leaves (entry s) (entry t) r D \<and> hhdm_off t = hhdm_off s \<and>
     page_bmp t = page_bmp s \<and> used_frames s \<subseteq> used_frames t \<and> pmm.more t = pmm.more s \<and>
     (\<forall>q \<in> domain D. \<forall>b. descend (entry s) r q = Some b \<longrightarrow> descend (entry t) r q = Some b) \<and> spares s t r D"

lemma step_ok_refl: "pt_ok s r D \<Longrightarrow> step_ok s s r D"
  by (simp add: step_ok_def same_leaves_def)

lemma step_ok_trans: "step_ok s t r D \<Longrightarrow> step_ok t u r D \<Longrightarrow> step_ok s u r D"
  using spares_trans [of s t r D u] unfolding step_ok_def same_leaves_def by auto

lemma store_table:
  fixes w :: u64
  assumes ok: "heap_ok s" and b: "table_ok s b" "i < 512"
  defines "t \<equiv> store64 (PHYS_TO_VIRT s b + 8 * of_nat i) w s"
  shows "heap_ok t" "used_frames t = used_frames s" "nframes t = nframes s" "page_bmp t = page_bmp s"
    "hhdm_off t = hhdm_off s" "pmm.more t = pmm.more s" "balance t = balance s"
    "table_ok s c \<Longrightarrow> j < 512 \<Longrightarrow> entry t c j = (if c = b \<and> j = i then w else entry s c j)"
    "table_ok t c = table_ok s c" "frame q \<noteq> frame b \<Longrightarrow> pmem t q = pmem s q"
proof -
  have tb: "table_page s b" and nb: "frame b \<notin> frame ` bmp_region (page_bmp s) s"
    using b by (simp_all add: table_ok_def)
  note es = entry_span(1) [OF ok tb b(2)]
  have t2: "t = s\<lparr>pmem := pmem t\<rparr>" unfolding t_def by (rule store64_pmem_only)
  have w: "pmem t q = pmem s q" if "frame q \<noteq> frame b" for q
  proof -
    have "q \<notin> prange (b + of_nat (8 * i)) 8" using that entry_frame [OF ok tb b(2), of q] by auto
    then show ?thesis unfolding t_def by (rule pmem_store64_other [OF es])
  qed
  note fw = frame_write [OF ok t2 w nb]
  show "frame q \<noteq> frame b \<Longrightarrow> pmem t q = pmem s q" by (rule w)
  show "heap_ok t" by (rule fw(1))
  show "used_frames t = used_frames s" by (rule fw(2))
  show "nframes t = nframes s" by (rule fw(3))
  show "page_bmp t = page_bmp s" by (rule fw(4))
  show "hhdm_off t = hhdm_off s" by (rule fw(5))
  show "balance t = balance s" by (rule fw(7))
  obtain m where "t = s\<lparr>pmem := m\<rparr>" using t2 by blast
  then show "pmm.more t = pmm.more s" by simp
  show "table_ok t c = table_ok s c"
    unfolding table_ok_def table_page_def using fw by simp
  show "entry t c j = (if c = b \<and> j = i then w else entry s c j)" if "table_ok s c" "j < 512"
    unfolding t_def using entry_store [OF ok tb b(2) _ that(2)] that(1) by (simp add: table_ok_def)
qed

lemma get_next_lvl_present:
  assumes "present (entry s b i)"
  shows "get_next_lvl (PHYS_TO_VIRT s b) (of_nat i) flags alloc s =
    Inr (PHYS_TO_VIRT s (PML4_GET_ADDR (entry s b i)), s)"
  using assms by (simp add: get_next_lvl_def entry_def present_def)

text \<open>What a call that makes a table does to memory: the new table hangs at its slot, full of zeros.\<close>

lemma get_next_lvl_hang:
  assumes ok: "pt_ok s r D" and b: "b \<in> reached (entry s) r D" and i: "i < 512"
    and np: "\<not> present (entry s b i)" and fl: "present flags" "PML4_GET_ADDR flags = 0"
    and g: "get_next_lvl (PHYS_TO_VIRT s b) (of_nat i) flags True s = Inr (l, t)"
  obtains c where "l = PHYS_TO_VIRT t c" "c \<notin> reached (entry s) r D" "present (c OR flags)" "PML4_GET_ADDR (c OR flags) = c"
    "\<And>x j. x \<in> insert c (reached (entry s) r D) \<Longrightarrow> j < 512 \<Longrightarrow> entry t x j = hang b i (c OR flags) c (entry s) x j"
    "heap_ok t" "nframes t \<le> 2 ^ 40" "\<And>x. x = c \<or> table_ok s x \<Longrightarrow> table_ok t x"
    "hhdm_off t = hhdm_off s" "page_bmp t = page_bmp s" "pmm.more t = pmm.more s"
    "used_frames t = insert (frame c) (used_frames s)" "frame c \<notin> used_frames s"
    "\<And>q. q \<notin> bmp_region (page_bmp s) s \<Longrightarrow> frame q \<noteq> frame c \<Longrightarrow> frame q \<noteq> frame b \<Longrightarrow> pmem t q = pmem s q"
proof -
  have h: "heap_ok s" and nf: "nframes s \<le> 2 ^ 40" and tok: "c \<in> reached (entry s) r D \<Longrightarrow> table_ok s c" for c
    using ok by (auto simp: pt_ok_def)
  obtain c s1 where r1: "request_pages 1 s = Inr (c, s1)" using np g
    by (auto simp: get_next_lvl_def entry_def present_def then_do_Inr_iff)
  define s2 where "s2 = memset (PHYS_TO_VIRT s1 c) 0 4096 s1"
  note ft = fresh_table [OF h r1, folded s2_def]
  have pv: "PHYS_TO_VIRT s2 b = PHYS_TO_VIRT s b" by (rule PHYS_TO_VIRT_cong [OF ft(8)])
  have l: "l = PHYS_TO_VIRT s2 c" and t: "t = store64 (PHYS_TO_VIRT s2 b + 8 * of_nat i) (c OR flags) s2"
    using np g r1 ft(10) VIRT_TO_PHYS_TO_VIRT [of s2 c] unfolding pv
    by (auto simp: get_next_lvl_def entry_def present_def Let_def s2_def [symmetric])
  have bok: "table_ok s2 b" using ft(14) [of b 0] tok [OF b] by simp
  note st = store_table [OF ft(1) bok i, where w = "c OR flags", folded t]
  have nr: "c \<notin> reached (entry s) r D" using tok [of c] ft(3) by (auto simp: table_ok_def)
  have cok: "table_ok s2 c" using ft(2,4,5) by (simp add: table_ok_def)
  have "frame c < 2 ^ 40" using ft(4,6) nf by (simp add: table_page_def)
  moreover have "unat c = 4096 * frame c" using ft(4) by (simp add: table_page_def)
  ultimately have w: "present (c OR flags)" "PML4_GET_ADDR (c OR flags) = c"
    using make_entry(1,2) fl by blast+
  have cb: "c \<noteq> b" using nr b by blast
  have agree: "entry t x j = hang b i (c OR flags) c (entry s) x j"
    if x: "x \<in> insert c (reached (entry s) r D)" "j < 512" for x j
  proof (cases "x = c")
    case True
    then show ?thesis using st(8) [OF cok x(2)] ft(13) [OF x(2)] cb by (simp add: hang_apply)
  next
    case False
    then have "table_ok s x" using x tok by blast
    then show ?thesis using ft(14) [OF _ x(2)] st(8) [OF _ x(2)] False cb by (simp add: hang_apply)
  qed
  show thesis
  proof (rule that [OF _ nr w agree])
    show "l = PHYS_TO_VIRT t c" using l PHYS_TO_VIRT_cong [OF st(5)] by simp
    show "table_ok t x" if "x = c \<or> table_ok s x" for x using that cok ft(14) [of x 0] st(9) by auto
    show "pmem t q = pmem s q" if "q \<notin> bmp_region (page_bmp s) s" "frame q \<noteq> frame c" "frame q \<noteq> frame b" for q
      using st(10) [OF that(3)] ft(15) [OF that(1,2)] by simp
  qed (use st(1-6) ft(2,3,6-9) nf in simp_all)
qed

lemma get_next_lvl_new:
  assumes ok: "pt_ok s r D" and p: "p @ [i] \<in> domain D" "descend (entry s) r p = Some b"
    and np: "\<not> present (entry s b i)" and fl: "present flags" "PML4_GET_ADDR flags = 0"
    and g: "get_next_lvl (PHYS_TO_VIRT s b) (of_nat i) flags True s = Inr (l, t)"
  obtains c where "l = PHYS_TO_VIRT t c" "descend (entry t) r (p @ [i]) = Some c" "step_ok s t r D"
    "\<exists>x. used_frames t \<subseteq> insert x (used_frames s)"
proof -
  have tr: "tree (entry s) r D" and tok: "c \<in> reached (entry s) r D \<Longrightarrow> table_ok s c" for c
    using ok by (auto simp: pt_ok_def)
  have bd: "b \<in> reached (entry s) r D" using p domain_take by (auto simp: reached_def)
  have i: "i < 512" using p(1) by (simp add: domain_def)
  obtain c where c: "l = PHYS_TO_VIRT t c" "c \<notin> reached (entry s) r D" "present (c OR flags)" "PML4_GET_ADDR (c OR flags) = c"
    "\<And>x j. x \<in> insert c (reached (entry s) r D) \<Longrightarrow> j < 512 \<Longrightarrow> entry t x j = hang b i (c OR flags) c (entry s) x j"
    "heap_ok t" "nframes t \<le> 2 ^ 40" "\<And>x. x = c \<or> table_ok s x \<Longrightarrow> table_ok t x"
    "hhdm_off t = hhdm_off s" "page_bmp t = page_bmp s" "pmm.more t = pmm.more s"
    "used_frames t = insert (frame c) (used_frames s)" "frame c \<notin> used_frames s"
    "\<And>q. q \<notin> bmp_region (page_bmp s) s \<Longrightarrow> frame q \<noteq> frame c \<Longrightarrow> frame q \<noteq> frame b \<Longrightarrow> pmem t q = pmem s q"
    by (rule get_next_lvl_hang [OF ok bd i np fl g]) blast
  let ?H = "hang b i (c OR flags) c (entry s)"
  note th = tree_hang [OF tr p np c(2-4)] and dh = descend_hang [OF tr p np c(2-4)]
  note ag = c(5) [folded th(2)]
  have ra: "reached (entry t) r D = insert c (reached (entry s) r D)"
    unfolding th(2) [symmetric] by (rule tree_agree(2), rule ag)
  have da: "descend (entry t) r q = descend ?H r q" if "q \<in> domain D" for q
    using that by (rule descend_agree [rotated]) (rule ag)
  have none: "descend (entry s) r (p @ [i]) = None" using p(2) np by (simp add: descend_snoc)
  have "tree (entry t) r D = tree ?H r D" by (rule tree_agree(1), rule ag)
  then have "tree (entry t) r D" using th(1) by simp
  then have "pt_ok t r D" unfolding pt_ok_def using c(6-8) ra tok by auto
  moreover have "same_leaves (entry s) (entry t) r D"
    unfolding same_leaves_def
  proof (intro ballI impI allI)
    fix q j assume q: "q \<in> domain D" "length q = 3" "j < (512::nat)"
    have "leaf (entry t) r q j = leaf ?H r q j" using q(1,3) by (rule leaf_agree [rotated]) (rule ag)
    also have "\<dots> = leaf (entry s) r q j" by (rule leaf_hang [OF tr p np c(2-4) q(1,2)])
    finally show "leaf (entry t) r q j = leaf (entry s) r q j" .
  qed
  moreover have "descend (entry t) r q = Some x" if "q \<in> domain D" "descend (entry s) r q = Some x" for q x
    using that none da [OF that(1)] dh(2) [OF that(1)] by (cases "q = p @ [i]") auto
  moreover have "spares s t r D"
    unfolding spares_def
  proof (intro allI impI)
    fix q assume q: "spared s r D q"
    then have ne: "frame q \<noteq> frame c" "frame q \<noteq> frame b" using c(13) bd by (auto simp: spared_def)
    have reg: "bmp_region (page_bmp t) t = bmp_region (page_bmp s) s" using c(9,10) bmp_region_cong [of t s] by simp
    show "spared t r D q \<and> pmem t q = pmem s q" using q ne c(12,14) by (simp add: spared_def reg ra)
  qed
  ultimately have "step_ok s t r D" unfolding step_ok_def using c(9-12) by blast
  moreover have "descend (entry t) r (p @ [i]) = Some c" using da [OF p(1)] dh(1) by simp
  ultimately show thesis using that c(1,12) by blast
qed

lemma get_next_lvl_facts:
  assumes ok: "pt_ok s r D" and p: "p @ [i] \<in> domain D" "descend (entry s) r p = Some b"
    and fl: "present flags" "PML4_GET_ADDR flags = 0"
    and g: "get_next_lvl (PHYS_TO_VIRT s b) (of_nat i) flags True s = Inr (l, t)"
  obtains c where "l = PHYS_TO_VIRT t c" "descend (entry t) r (p @ [i]) = Some c" "step_ok s t r D"
    "\<exists>x. used_frames t \<subseteq> insert x (used_frames s)"
proof (cases "present (entry s b i)")
  case True
  then have "l = PHYS_TO_VIRT t (PML4_GET_ADDR (entry s b i))" "t = s"
    using g get_next_lvl_present [OF True] by auto
  moreover have "descend (entry s) r (p @ [i]) = Some (PML4_GET_ADDR (entry s b i))"
    using True p(2) by (simp add: descend_snoc)
  ultimately show thesis using that step_ok_refl [OF ok] by (metis subset_insertI)
next
  case False
  show thesis by (rule get_next_lvl_new [OF ok p False fl g that])
qed

section \<open>Walking to the last table\<close>

text \<open>The four indices of a virtual address.\<close>

definition vidx :: "nat \<Rightarrow> u64 \<Rightarrow> nat" where
  "vidx k v = unat (pml_index k v)"

definition vpath :: "u64 \<Rightarrow> nat list" where
  "vpath v = [vidx 39 v, vidx 30 v, vidx 21 v]"

lemma vidx_less [simp]: "vidx k v < 512"
proof -
  have "(drop_bit k v AND 0x1ff) = take_bit 9 (drop_bit k v)"
    by (simp add: take_bit_eq_mask mask_eq_exp_minus_1)
  then show ?thesis by (simp add: vidx_def pml_index_def take_bit_eq_mod unat_mod_u64)
qed

lemma of_nat_vidx: "of_nat (vidx k v) = pml_index k v"
  by (simp add: vidx_def)

text \<open>The address space the top-level entries in \<open>D\<close> cover.\<close>

definition covered :: "(nat \<Rightarrow> bool) \<Rightarrow> u64 \<Rightarrow> bool" where
  "covered D v \<longleftrightarrow> D (vidx 39 v)"

lemma vpath_domain:
  "covered D v \<Longrightarrow> [vidx 39 v] \<in> domain D" "covered D v \<Longrightarrow> [vidx 39 v, vidx 30 v] \<in> domain D"
  "covered D v \<Longrightarrow> vpath v \<in> domain D"
  by (simp_all add: covered_def domain_def vpath_def)

lemma walk_tables_facts:
  assumes ok: "pt_ok s r D" and v: "covered D v" and fl: "present flags" "PML4_GET_ADDR flags = 0"
    and w: "walk_tables (PHYS_TO_VIRT s r) v flags s = Inr (l, t)"
  obtains c where "l = PHYS_TO_VIRT t c" "descend (entry t) r (vpath v) = Some c" "step_ok s t r D"
proof -
  obtain l3 s3 l2 s2 where g3: "get_next_lvl (PHYS_TO_VIRT s r) (of_nat (vidx 39 v)) flags True s = Inr (l3, s3)"
    and g2: "get_next_lvl l3 (of_nat (vidx 30 v)) flags True s3 = Inr (l2, s2)"
    and g1: "get_next_lvl l2 (of_nat (vidx 21 v)) flags True s2 = Inr (l, t)"
    using w by (auto simp: walk_tables_def then_do_Inr_iff of_nat_vidx)
  obtain c3 where c3: "l3 = PHYS_TO_VIRT s3 c3" "descend (entry s3) r ([] @ [vidx 39 v]) = Some c3" "step_ok s s3 r D"
    using get_next_lvl_facts [OF ok _ _ fl g3, of "[]"] vpath_domain(1) [OF v] by auto
  have ok3: "pt_ok s3 r D" using c3(3) by (simp add: step_ok_def)
  obtain c2 where c2: "l2 = PHYS_TO_VIRT s2 c2"
      "descend (entry s2) r ([vidx 39 v] @ [vidx 30 v]) = Some c2" "step_ok s3 s2 r D"
    using get_next_lvl_facts [OF ok3 _ _ fl g2 [unfolded c3(1)], of "[vidx 39 v]"] vpath_domain(2) [OF v] c3(2)
    by auto
  have ok2: "pt_ok s2 r D" using c2(3) by (simp add: step_ok_def)
  obtain c where c: "l = PHYS_TO_VIRT t c"
      "descend (entry t) r ([vidx 39 v, vidx 30 v] @ [vidx 21 v]) = Some c" "step_ok s2 t r D"
    using get_next_lvl_facts [OF ok2 _ _ fl g1 [unfolded c2(1)], of "[vidx 39 v, vidx 30 v]"]
      vpath_domain(3) [OF v] c2(2) by (auto simp: vpath_def)
  show thesis
    by (rule that [OF c(1)])
      (use c(2) step_ok_trans [OF step_ok_trans [OF c3(3) c2(3)] c(3)] in \<open>simp_all add: vpath_def\<close>)
qed

section \<open>Translation\<close>

text \<open>The entry the processor finds for a virtual address, if it is present.\<close>

definition translation :: "'z machine_scheme \<Rightarrow> u64 \<Rightarrow> u64 \<Rightarrow> u64 option" where
  "translation s r v = leaf (entry s) r (vpath v) (vidx 12 v)"

definition same_page :: "u64 \<Rightarrow> u64 \<Rightarrow> bool" where
  "same_page v v' \<longleftrightarrow> vpath v = vpath v' \<and> vidx 12 v = vidx 12 v'"

lemma write_leaf:
  fixes w :: u64
  assumes ok: "pt_ok s r D" and v: "covered D v" and c: "descend (entry s) r (vpath v) = Some c"
  defines "t \<equiv> store64 (PHYS_TO_VIRT s c + 8 * pml_index 12 v) w s"
  shows "pt_ok t r D" "translation t r v = (if present w then Some w else None)"
    "covered D v' \<Longrightarrow> \<not> same_page v v' \<Longrightarrow> translation t r v' = translation s r v'" "spares s t r D"
proof -
  have h: "heap_ok s" and tr: "tree (entry s) r D" and nf: "nframes s \<le> 2 ^ 40"
    and tok: "b \<in> reached (entry s) r D \<Longrightarrow> table_ok s b" for b
    using ok by (auto simp: pt_ok_def)
  note vd = vpath_domain(3) [OF v]
  have cr: "c \<in> reached (entry s) r D" using vd c by (auto simp: reached_def)
  note st = store_table [OF h tok [OF cr] vidx_less [of 12 v], where w = w, unfolded of_nat_vidx, folded t_def]
  let ?H = "set_entry c (vidx 12 v) w (entry s)"
  have ag: "entry t b j = ?H b j" if "b \<in> reached (entry s) r D" "j < 512" for b j
    using st(8) [OF tok [OF that(1)] that(2)] by (simp add: set_entry_apply)
  have dl: "descend ?H r q = descend (entry s) r q" if "q \<in> domain D" for q
    using descend_leaf_change [OF tr vd _ c that] by (simp add: vpath_def)
  have rH: "reached ?H r D = reached (entry s) r D" and tH: "tree ?H r D"
    using dl tr by (auto simp: reached_def tree_def)
  note ag' = ag [folded rH]
  have de: "descend (entry t) r q = descend (entry s) r q" if "q \<in> domain D" for q
  proof -
    have "descend (entry t) r q = descend ?H r q" using that by (rule descend_agree [rotated]) (rule ag')
    then show ?thesis using dl [OF that] by simp
  qed
  have rt: "reached (entry t) r D = reached (entry s) r D" using de by (auto simp: reached_def)
  have reg: "bmp_region (page_bmp t) t = bmp_region (page_bmp s) s" using st(4,5) bmp_region_cong [of t s] by simp
  have "pmem t q = pmem s q" if "spared s r D q" for q
    using st(10) [of q] that cr by (auto simp: spared_def)
  then show "spares s t r D" using st(2) by (simp add: spares_def spared_def reg rt)
  show "pt_ok t r D"
    unfolding pt_ok_def rt
  proof (intro conjI ballI)
    show "heap_ok t" by (rule st(1))
    show "nframes t \<le> 2 ^ 40" using st(3) nf by simp
    show "tree (entry t) r D" using tr de by (simp add: tree_def)
    show "table_ok t b" if "b \<in> reached (entry s) r D" for b using tok [OF that] st(9) by simp
  qed
  show "translation t r v = (if present w then Some w else None)"
    using de [OF vd] c ag [OF cr vidx_less] by (simp add: translation_def leaf_def set_entry_apply)
  show "translation t r v' = translation s r v'" if v': "covered D v'" "\<not> same_page v v'"
  proof (cases "descend (entry s) r (vpath v')")
    case (Some b)
    note vd' = vpath_domain(3) [OF v'(1)]
    have br: "b \<in> reached (entry s) r D" using vd' Some by (auto simp: reached_def)
    have "\<not> (b = c \<and> vidx 12 v' = vidx 12 v)"
      using tr vd vd' c Some v'(2) unfolding tree_def same_page_def by metis
    then show ?thesis
      using de [OF vd'] Some ag [OF br vidx_less [of 12 v']] by (auto simp: translation_def leaf_def set_entry_apply)
  qed (use de [OF vpath_domain(3) [OF v'(1)]] in \<open>simp add: translation_def leaf_def\<close>)
qed

lemma step_translation:
  "step_ok s t r D \<Longrightarrow> covered D v \<Longrightarrow> translation t r v = translation s r v"
  using vpath_domain(3) [of D v] by (simp add: step_ok_def same_leaves_def translation_def vpath_def)

lemma vmm_map_page_facts:
  assumes ok: "pt_ok s r D" and v: "covered D v" and fl: "flags AND FLAGS_R \<noteq> 0"
    and m: "vmm_map_page (PHYS_TO_VIRT s r) v p flags s = Inr (b, t)"
  shows "b" "pt_ok t r D" "translation t r v = Some (p OR transform_flags flags)"
    "covered D v' \<Longrightarrow> \<not> same_page v v' \<Longrightarrow> translation t r v' = translation s r v'"
proof -
  have f: "present (transform_flags flags)" "PML4_GET_ADDR (transform_flags flags) = 0"
    using fl transform_flags_bits by simp_all
  obtain l s1 where w: "walk_tables (PHYS_TO_VIRT s r) v (transform_flags flags) s = Inr (l, s1)"
    and b: "b" and t: "t = store64 (l + 8 * pml_index 12 v) (p OR transform_flags flags) s1"
    using m by (auto simp: vmm_map_page_def then_do_Inr_iff)
  obtain c where c: "l = PHYS_TO_VIRT s1 c" "descend (entry s1) r (vpath v) = Some c" "step_ok s s1 r D"
    by (rule walk_tables_facts [OF ok v f w])
  have ok1: "pt_ok s1 r D" using c(3) by (simp add: step_ok_def)
  note wl = write_leaf [OF ok1 v c(2), where w = "p OR transform_flags flags", folded c(1), folded t]
  have "present (p OR transform_flags flags)"
  proof -
    have "(p OR transform_flags flags) AND 1 = (p AND 1) OR (transform_flags flags AND 1)"
      by (simp only: bit.conj_disj_distrib2)
    then show ?thesis using f(1) by (auto simp: present_def or_eq_0_iff)
  qed
  then show "translation t r v = Some (p OR transform_flags flags)" using wl(2) by simp
  show "b" by (rule b)
  show "pt_ok t r D" by (rule wl(1))
  show "translation t r v' = translation s r v'" if "covered D v'" "\<not> same_page v v'"
    using wl(3) [OF that] step_translation [OF c(3) that(1)] by simp
qed

lemma vmm_map_page_hhdm:
  assumes "pt_ok s r D" "covered D v" "flags AND FLAGS_R \<noteq> 0"
    and m: "vmm_map_page (PHYS_TO_VIRT s r) v p flags s = Inr (b, t)"
  shows "hhdm_off t = hhdm_off s" "pmm.more t = pmm.more s" "used_frames s \<subseteq> used_frames t"
    "page_bmp t = page_bmp s" "spares s t r D"
proof -
  have f: "present (transform_flags flags)" "PML4_GET_ADDR (transform_flags flags) = 0"
    using assms(3) transform_flags_bits by simp_all
  obtain l s1 where w: "walk_tables (PHYS_TO_VIRT s r) v (transform_flags flags) s = Inr (l, s1)"
    and t: "t = store64 (l + 8 * pml_index 12 v) (p OR transform_flags flags) s1"
    using m by (auto simp: vmm_map_page_def then_do_Inr_iff)
  obtain c where c: "l = PHYS_TO_VIRT s1 c" "descend (entry s1) r (vpath v) = Some c" "step_ok s s1 r D"
    by (rule walk_tables_facts [OF assms(1,2) f w])
  have "c \<in> reached (entry s1) r D" using vpath_domain(3) [OF assms(2)] c(2) by (auto simp: reached_def)
  then have "heap_ok s1" "table_ok s1 c" using c(3) by (auto simp: step_ok_def pt_ok_def)
  note st = store_table [OF this vidx_less [of 12 v], where w = "p OR transform_flags flags",
      unfolded of_nat_vidx, folded c(1), folded t]
  show "hhdm_off t = hhdm_off s" "pmm.more t = pmm.more s" "used_frames s \<subseteq> used_frames t"
    "page_bmp t = page_bmp s"
    using st(2,4,5,6) c(3) by (auto simp: step_ok_def)
  have ok1: "pt_ok s1 r D" using c(3) by (simp add: step_ok_def)
  have "spares s1 t r D"
    using write_leaf(4) [OF ok1 assms(2) c(2), where w = "p OR transform_flags flags", folded c(1), folded t] .
  then show "spares s t r D" using c(3) spares_trans by (auto simp: step_ok_def)
qed

section \<open>Lookups and flag edits\<close>

lemma descend3:
  assumes "descend E r (vpath v) = Some c"
  obtains c3 c2 where "present (E r (vidx 39 v))" "c3 = PML4_GET_ADDR (E r (vidx 39 v))"
    "present (E c3 (vidx 30 v))" "c2 = PML4_GET_ADDR (E c3 (vidx 30 v))"
    "present (E c2 (vidx 21 v))" "c = PML4_GET_ADDR (E c2 (vidx 21 v))"
  using assms by (auto simp: vpath_def split: if_splits)

text \<open>When all three tables exist, the walk returns the last one and changes nothing.\<close>

lemma walk_tables_present:
  assumes "descend (entry s) r (vpath v) = Some c"
  shows "walk_tables (PHYS_TO_VIRT s r) v flags s = Inr (PHYS_TO_VIRT s c, s)"
proof -
  obtain c3 c2 where e: "present (entry s r (vidx 39 v))" "c3 = PML4_GET_ADDR (entry s r (vidx 39 v))"
    "present (entry s c3 (vidx 30 v))" "c2 = PML4_GET_ADDR (entry s c3 (vidx 30 v))"
    "present (entry s c2 (vidx 21 v))" "c = PML4_GET_ADDR (entry s c2 (vidx 21 v))"
    by (rule descend3 [OF assms])
  show ?thesis
    using get_next_lvl_present [OF e(1)] get_next_lvl_present [OF e(3)] get_next_lvl_present [OF e(5)]
    by (simp add: walk_tables_def of_nat_vidx e(2,4,6) [symmetric])
qed

lemma vmm_virt_to_phys_mapped:
  assumes "translation s r v = Some e"
  shows "vmm_virt_to_phys (PHYS_TO_VIRT s r) v s = Inr (PML4_GET_ADDR e, s)"
proof -
  obtain c where c: "descend (entry s) r (vpath v) = Some c" "e = entry s c (vidx 12 v)"
    using assms by (auto simp: translation_def leaf_def split: option.splits if_splits)
  then show ?thesis
    using walk_tables_present [OF c(1)] by (simp add: vmm_virt_to_phys_def entry_def of_nat_vidx)
qed

lemma vmm_edit_flags_facts:
  assumes ok: "pt_ok s r D" and v: "covered D v" and tr: "translation s r v = Some e"
    and m: "vmm_edit_flags (PHYS_TO_VIRT s r) v flags s = Inr (b, t)"
  shows "b" "pt_ok t r D"
    "translation t r v = (if flags AND FLAGS_R \<noteq> 0 then Some (PML4_GET_ADDR e OR transform_flags flags) else None)"
    "covered D v' \<Longrightarrow> \<not> same_page v v' \<Longrightarrow> translation t r v' = translation s r v'"
proof -
  obtain c where c: "descend (entry s) r (vpath v) = Some c" "e = entry s c (vidx 12 v)"
    using tr by (auto simp: translation_def leaf_def split: option.splits if_splits)
  let ?w = "PML4_GET_ADDR e OR transform_flags flags"
  have bt: "b" "t = store64 (PHYS_TO_VIRT s c + 8 * pml_index 12 v) ?w s"
    using m walk_tables_present [OF c(1)] c(2) by (auto simp: vmm_edit_flags_def Let_def entry_def of_nat_vidx)
  note wl = write_leaf [OF ok v c(1), where w = ?w, folded bt(2)]
  have "?w AND 1 = (PML4_GET_ADDR e AND 1) OR (transform_flags flags AND 1)"
    by (simp only: bit.conj_disj_distrib2)
  moreover have "PML4_GET_ADDR e AND 1 = 0" by (simp add: PML4_GET_ADDR_def and.assoc)
  ultimately have "present ?w = (flags AND FLAGS_R \<noteq> 0)"
    using transform_flags_bits(2) [of flags] by (simp add: present_def)
  then show "translation t r v = (if flags AND FLAGS_R \<noteq> 0 then Some ?w else None)" using wl(2) by simp
  show "b" by (rule bt(1))
  show "pt_ok t r D" by (rule wl(1))
  show "covered D v' \<Longrightarrow> \<not> same_page v v' \<Longrightarrow> translation t r v' = translation s r v'" by (rule wl(3))
qed

section \<open>Ranges\<close>

lemma vidx_nat: "k < 64 \<Longrightarrow> vidx k v = unat v div 2 ^ k mod 512"
proof -
  assume k: "k < 64"
  have "drop_bit k v AND 0x1ff = take_bit 9 (drop_bit k v)"
    by (simp add: take_bit_eq_mask mask_eq_exp_minus_1)
  moreover have "unat (drop_bit k v) = unat v div 2 ^ k"
    unfolding unsigned_drop_bit_eq by (simp add: drop_bit_eq_div take_bit_nat_eq_self)
  ultimately show ?thesis
    by (simp add: vidx_def pml_index_def take_bit_eq_mod unat_mod_u64 del: drop_bit_eq_div)
qed

text \<open>The four indices determine the page number within 48 bits.\<close>

lemma same_page_number:
  assumes "same_page v v'" "unat v < 2 ^ 48" "unat v' < 2 ^ 48"
  shows "unat v div 4096 = unat v' div 4096"
proof -
  have split: "x div 4096 = ((x div 549755813888 mod 512) * 512 + x div 1073741824 mod 512) * 262144 +
      (x div 2097152 mod 512) * 512 + x div 4096 mod 512"
    if "x < 2 ^ 48" for x :: nat
  proof -
    have step: "y = (y div 512) * 512 + y mod 512" for y :: nat by simp
    have a: "x div 4096 div 512 = x div 2097152" "x div 2097152 div 512 = x div 1073741824"
      "x div 1073741824 div 512 = x div 549755813888"
      by (simp_all add: div_mult2_eq [symmetric])
    have "x div 549755813888 < 512" using that by (simp add: less_mult_imp_div_less)
    then have "x div 549755813888 mod 512 = x div 549755813888" by simp
    then show ?thesis
      using step [of "x div 4096"] step [of "x div 2097152"] step [of "x div 1073741824"] a by simp
  qed
  have "vidx 39 v = vidx 39 v'" "vidx 30 v = vidx 30 v'" "vidx 21 v = vidx 21 v'" "vidx 12 v = vidx 12 v'"
    using assms(1) by (auto simp: same_page_def vpath_def)
  then show ?thesis using split [OF assms(2)] split [OF assms(3)] by (simp add: vidx_nat)
qed

lemma page_offset_distinct:
  assumes "unat v + 4096 * n \<le> 2 ^ 48" "i < n" "j < n" "i \<noteq> j"
  shows "\<not> same_page (v + of_nat i * 4096) (v + of_nat j * 4096)"
proof
  have u: "unat (v + of_nat k * 4096) = unat v + 4096 * k" if "k < n" for k
  proof -
    have "unat v + 4096 * k < 18446744073709551616" using assms(1) that by simp
    then have "unat (v + of_nat (4096 * k)) = unat v + 4096 * k" by (rule unat_add_of_nat)
    then show ?thesis by (simp add: mult.commute)
  qed
  assume "same_page (v + of_nat i * 4096) (v + of_nat j * 4096)"
  moreover have "unat (v + of_nat k * 4096) < 2 ^ 48" if "k < n" for k
    using u [OF that] assms(1) that by simp
  ultimately have "(unat v + 4096 * i) div 4096 = (unat v + 4096 * j) div 4096"
    using same_page_number u assms by metis
  then show False using assms(4) by simp
qed

lemma map_range_loop_facts:
  assumes "pt_ok s r D" "\<forall>k < i + n. covered D (v + of_nat k * 4096)" "flags AND FLAGS_R \<noteq> 0"
    and "unat v + 4096 * (i + n) \<le> 2 ^ 48"
    and "map_range_loop (PHYS_TO_VIRT s r) v p flags n (of_nat i) b s = Inr (b', t)"
  shows "b' = b \<and> pt_ok t r D \<and> hhdm_off t = hhdm_off s \<and>
    (\<forall>k < i + n. translation t r (v + of_nat k * 4096) =
       (if k < i then translation s r (v + of_nat k * 4096)
        else Some ((p + of_nat k * 4096) OR transform_flags flags)))"
  using assms
proof (induction n arbitrary: i b s)
  case (Suc n)
  let ?v = "\<lambda>k. v + of_nat k * 4096"
  obtain ok s1 where m: "vmm_map_page (PHYS_TO_VIRT s r) (?v i) (p + of_nat i * 4096) flags s = Inr (ok, s1)"
    and l: "map_range_loop (PHYS_TO_VIRT s r) v p flags n (of_nat i + 1) (b \<and> ok) s1 = Inr (b', t)"
    using Suc.prems(5) by (auto simp: then_do_Inr_iff)
  have cov: "covered D (?v i)" using Suc.prems(2) by simp
  note mp = vmm_map_page_facts [OF Suc.prems(1) cov Suc.prems(3) m]
  have hh: "hhdm_off s1 = hhdm_off s" by (rule vmm_map_page_hhdm [OF Suc.prems(1) cov Suc.prems(3) m])
  have l': "map_range_loop (PHYS_TO_VIRT s1 r) v p flags n (of_nat (Suc i)) b s1 = Inr (b', t)"
    using l mp(1) PHYS_TO_VIRT_cong [OF hh, of r] by (simp add: add.commute)
  have pre: "\<forall>k < Suc i + n. covered D (?v k)" "unat v + 4096 * (Suc i + n) \<le> 2 ^ 48"
    using Suc.prems(2,4) by simp_all
  note ih = Suc.IH [OF mp(2) pre(1) Suc.prems(3) pre(2) l']
  have "translation s1 r (?v k) = translation s r (?v k)" if "k < i" for k
    using mp(4) [of "?v k"] page_offset_distinct [OF Suc.prems(4), of i k] that Suc.prems(2) by simp
  then show ?case using ih hh mp(3) by (auto simp: less_Suc_eq)
qed simp

section \<open>vmm_create_pagemap\<close>

text \<open>The bookkeeping that a table write leaves alone.\<close>

definition table_frame :: "'z pmm_scheme \<Rightarrow> 'z pmm_scheme \<Rightarrow> bool" where
  "table_frame s t \<longleftrightarrow> heap_ok t \<and> used_frames t = used_frames s \<and> nframes t = nframes s \<and>
     page_bmp t = page_bmp s \<and> hhdm_off t = hhdm_off s \<and> pmm.more t = pmm.more s \<and>
     (\<forall>c. table_ok t c = table_ok s c)"

lemma copy_upper_facts:
  assumes "heap_ok s" "table_ok s d" "table_ok s e" "d \<noteq> e" "i + n \<le> 512"
  shows "table_frame s (copy_upper n (of_nat i) (PHYS_TO_VIRT s d) (PHYS_TO_VIRT s e) s) \<and>
    (\<forall>c j. table_ok s c \<longrightarrow> j < 512 \<longrightarrow>
       entry (copy_upper n (of_nat i) (PHYS_TO_VIRT s d) (PHYS_TO_VIRT s e) s) c j =
         (if c = d \<and> i \<le> j \<and> j < i + n then entry s e j else entry s c j)) \<and>
    (\<forall>q. frame q \<noteq> frame d \<longrightarrow> pmem (copy_upper n (of_nat i) (PHYS_TO_VIRT s d) (PHYS_TO_VIRT s e) s) q = pmem s q)"
  using assms
proof (induction n arbitrary: i s)
  case 0
  then show ?case by (auto simp: table_frame_def)
next
  case (Suc n)
  have i: "i < 512" using Suc.prems(5) by simp
  let ?s = "store64 (PHYS_TO_VIRT s d + 8 * of_nat i) (entry s e i) s"
  note st = store_table [OF Suc.prems(1,2) i, where w = "entry s e i"]
  have pv: "PHYS_TO_VIRT ?s x = PHYS_TO_VIRT s x" for x by (rule PHYS_TO_VIRT_cong [OF st(5)])
  have eq: "copy_upper (Suc n) (of_nat i) (PHYS_TO_VIRT s d) (PHYS_TO_VIRT s e) s =
      copy_upper n (of_nat (Suc i)) (PHYS_TO_VIRT ?s d) (PHYS_TO_VIRT ?s e) ?s"
    unfolding pv by (simp add: entry_def add.commute)
  have pre: "table_ok ?s d" "table_ok ?s e" "Suc i + n \<le> 512"
    using st(9) Suc.prems(2,3,5) by simp_all
  note ih = Suc.IH [OF st(1) pre(1,2) Suc.prems(4) pre(3)]
  have "table_frame s ?s" using st by (simp add: table_frame_def)
  then have "table_frame s (copy_upper n (of_nat (Suc i)) (PHYS_TO_VIRT ?s d) (PHYS_TO_VIRT ?s e) ?s)"
    using ih by (simp add: table_frame_def)
  moreover have "entry (copy_upper n (of_nat (Suc i)) (PHYS_TO_VIRT ?s d) (PHYS_TO_VIRT ?s e) ?s) c j =
      (if c = d \<and> i \<le> j \<and> j < i + Suc n then entry s e j else entry s c j)"
    if c: "table_ok s c" "j < 512" for c j
  proof -
    have "entry ?s c j = (if c = d \<and> j = i then entry s e i else entry s c j)" by (rule st(8) [OF c])
    moreover have "entry ?s e j = entry s e j" using st(8) [OF Suc.prems(3) c(2)] Suc.prems(4) by auto
    moreover have "table_ok ?s c" using st(9) c(1) by simp
    ultimately show ?thesis using ih c(2) by auto
  qed
  moreover have "pmem (copy_upper n (of_nat (Suc i)) (PHYS_TO_VIRT ?s d) (PHYS_TO_VIRT ?s e) ?s) q = pmem s q"
    if "frame q \<noteq> frame d" for q
    using ih st(10) [OF that] that by simp
  ultimately show ?case unfolding eq by blast
qed

lemma vmm_create_pagemap_facts:
  assumes ok: "heap_ok s" "nframes s \<le> 2 ^ 40" "table_ok s k" "hn_pagemap s = k"
    and c: "vmm_create_pagemap s = Inr (pml4, t)"
  obtains r where "pml4 = PHYS_TO_VIRT t r" "pt_ok t r (\<lambda>i. i < 256)" "frame r \<notin> used_frames s"
    "used_frames t = insert (frame r) (used_frames s)" "hhdm_off t = hhdm_off s" "page_bmp t = page_bmp s"
    "pmm.more t = pmm.more s" "nframes t = nframes s"
    "\<And>j. 256 \<le> j \<Longrightarrow> j < 512 \<Longrightarrow> entry t r j = entry s k j" "\<And>j. j < 256 \<Longrightarrow> entry t r j = 0"
    "\<And>x j. table_ok s x \<Longrightarrow> j < 512 \<Longrightarrow> entry t x j = entry s x j"
    "\<And>q. q \<notin> bmp_region (page_bmp s) s \<Longrightarrow> frame q \<in> used_frames s \<Longrightarrow> spared t r (\<lambda>i. i < 256) q \<and> pmem t q = pmem s q"
proof -
  obtain r s1 where r1: "request_pages 1 s = Inr (r, s1)"
    using c by (auto simp: vmm_create_pagemap_def then_do_Inr_iff)
  define s2 where "s2 = memset (PHYS_TO_VIRT s1 r) 0 4096 s1"
  note ft = fresh_table [OF ok(1) r1, folded s2_def]
  have "hn_pagemap s2 = k" using ft(9) ok(4) by (cases s; cases s2) simp
  then have pt: "pml4 = PHYS_TO_VIRT s2 r"
      "t = copy_upper 256 (of_nat 256) (PHYS_TO_VIRT s2 r) (PHYS_TO_VIRT s2 k) s2"
    using c r1 ft(10) by (auto simp: vmm_create_pagemap_def Let_def s2_def [symmetric])
  have rok: "table_ok s2 r" using ft(2,4,5) by (simp add: table_ok_def)
  have kok: "table_ok s2 k" using ft(14) [OF ok(3), of 0] by simp
  have rk: "r \<noteq> k" using ok(3) ft(3) by (auto simp: table_ok_def)
  have "256 + 256 \<le> (512::nat)" by simp
  note cu = copy_upper_facts [OF ft(1) rok kok rk this, folded pt(2)]
  have tf: "table_frame s2 t" using cu by simp
  have ent: "entry t x j = (if x = r \<and> 256 \<le> j then entry s2 k j else entry s2 x j)"
    if "table_ok s2 x" "j < 512" for x j
    using cu that by simp
  have upper: "entry t r j = entry s k j" if "256 \<le> j" "j < 512" for j
    using ent [OF rok that(2)] ft(14) [OF ok(3) that(2)] that by simp
  have lower: "entry t r j = 0" if "j < 256" for j
    using ent [OF rok, of j] ft(13) [of j] that by simp
  have old: "entry t x j = entry s x j" if "table_ok s x" "j < 512" for x j
  proof -
    have "x \<noteq> r" using that(1) ft(3) by (auto simp: table_ok_def)
    then show ?thesis using ent [of x j] ft(14) [OF that] that(2) by simp
  qed
  have dn: "descend (entry t) r p = (if p = [] then Some r else None)" if "p \<in> domain (\<lambda>i. i < 256)" for p
    using that lower by (cases p) (auto simp: domain_def)
  then have rd: "reached (entry t) r (\<lambda>i. i < 256) = {r}" and "tree (entry t) r (\<lambda>i. i < 256)"
    by (auto simp: reached_def tree_def split: if_splits)
  have "spared t r (\<lambda>i. i < 256) q \<and> pmem t q = pmem s q"
    if q: "q \<notin> bmp_region (page_bmp s) s" "frame q \<in> used_frames s" for q
  proof -
    have ne: "frame q \<noteq> frame r" using q(2) ft(3) by auto
    have hs: "hhdm_off t = hhdm_off s" "page_bmp t = page_bmp s" "used_frames t = insert (frame r) (used_frames s)"
      using tf ft(2,7,8) by (simp_all add: table_frame_def)
    then have "bmp_region (page_bmp t) t = bmp_region (page_bmp s) s" using bmp_region_cong [of t s] by simp
    then have "spared t r (\<lambda>i. i < 256) q" using q ne hs by (simp add: spared_def rd)
    moreover have "pmem t q = pmem s q" using cu ft(15) [OF q(1) ne] ne by simp
    ultimately show ?thesis by blast
  qed
  moreover have "pt_ok t r (\<lambda>i. i < 256)"
    using rd \<open>tree (entry t) r (\<lambda>i. i < 256)\<close> tf rok ft(6) ok(2) by (simp add: pt_ok_def table_frame_def)
  moreover have "PHYS_TO_VIRT s2 r = PHYS_TO_VIRT t r" using tf by (intro PHYS_TO_VIRT_cong) (simp add: table_frame_def)
  ultimately show thesis
    using that [of r] pt(1) tf ft upper lower old by (simp add: table_frame_def)
qed

text \<open>A fresh page map translates no address of the lower half.\<close>

lemma empty_translation:
  assumes "\<And>j. j < 256 \<Longrightarrow> entry t r j = 0" "covered (\<lambda>i. i < 256) v"
  shows "translation t r v = None"
  using assms by (simp add: translation_def leaf_def vpath_def covered_def)

section \<open>Failure\<close>

text \<open>Page table code fails only by the out-of-memory panic of the allocator.\<close>

lemma request_pages_error: "request_pages n s = Inl e \<Longrightarrow> e = Psod HN_ERR_OUT_OF_MEM"
  by (auto simp: request_pages_def find_free_range_def then_do_def Let_def case_prod_beta
      split: option.splits sum.splits if_splits)

lemma then_do_Inl_iff: "then_do m f = Inl e \<longleftrightarrow> m = Inl e \<or> (\<exists>x s. m = Inr (x, s) \<and> f x s = Inl e)"
  by (auto simp: then_do_def split: sum.splits)

lemma walk_tables_error: "walk_tables pml4 v f s = Inl e \<Longrightarrow> e = Psod HN_ERR_OUT_OF_MEM"
  by (auto simp: walk_tables_def get_next_lvl_def then_do_Inl_iff Let_def dest: request_pages_error split: if_splits)

lemma vmm_map_page_error: "vmm_map_page pml4 v p f s = Inl e \<Longrightarrow> e = Psod HN_ERR_OUT_OF_MEM"
  by (auto simp: vmm_map_page_def then_do_Inl_iff dest: walk_tables_error)

lemma map_range_error: "map_range_loop pml4 v p f n i b s = Inl e \<Longrightarrow> e = Psod HN_ERR_OUT_OF_MEM"
  by (induction n arbitrary: i b s) (auto simp: then_do_Inl_iff dest: vmm_map_page_error)

section \<open>Success\<close>

text \<open>The free frames the scan of \<open>find_free_range\<close> covers.\<close>

definition scan_free :: "'z pmm_scheme \<Rightarrow> nat set" where
  "scan_free s = {..unat (bm_size (page_bmp s))} - used_frames s"

lemma finite_scan_free [simp]: "finite (scan_free s)"
  by (simp add: scan_free_def)

lemma scan_free_first: "heap_ok s \<Longrightarrow> scan_free s \<noteq> {} \<Longrightarrow> first_free s \<noteq> None"
  using scanned_frame [of s] by (auto simp: scan_free_def first_free_None_iff used_frames_def heap_ok_def)

lemma scan_free_step:
  assumes "page_bmp t = page_bmp s" "\<exists>x. used_frames t \<subseteq> insert x (used_frames s)" "Suc k \<le> card (scan_free s)"
  shows "k \<le> card (scan_free t)"
proof -
  obtain x where x: "used_frames t \<subseteq> insert x (used_frames s)" using assms(2) by blast
  then have "scan_free s - {x} \<subseteq> scan_free t" by (auto simp: scan_free_def assms(1))
  then have "card (scan_free s - {x}) \<le> card (scan_free t)" by (rule card_mono [OF finite_scan_free])
  moreover have "card (scan_free s) - 1 \<le> card (scan_free s - {x})" using diff_card_le_card_Diff [of "{x}" "scan_free s"] by simp
  ultimately show ?thesis using assms(3) by simp
qed

lemma get_next_lvl_succeeds:
  assumes ok: "pt_ok s r D" and p: "p @ [i] \<in> domain D" "descend (entry s) r p = Some b"
    and fl: "present flags" "PML4_GET_ADDR flags = 0" and room: "Suc k \<le> card (scan_free s)"
  obtains c t where "get_next_lvl (PHYS_TO_VIRT s b) (of_nat i) flags True s = Inr (PHYS_TO_VIRT t c, t)"
    "descend (entry t) r (p @ [i]) = Some c" "step_ok s t r D" "k \<le> card (scan_free t)"
proof -
  have "scan_free s \<noteq> {}" using room by auto
  moreover have "heap_ok s" using ok by (simp add: pt_ok_def)
  ultimately have "first_free s \<noteq> None" by (intro scan_free_first)
  moreover have "pmm_inv s" using ok by (simp add: pt_ok_def heap_ok_def)
  ultimately obtain q s1 where "request_pages 1 s = Inr (q, s1)"
    using request_pages_avail [of s 1] by auto
  then obtain l t where g: "get_next_lvl (PHYS_TO_VIRT s b) (of_nat i) flags True s = Inr (l, t)"
    by (cases "get_next_lvl (PHYS_TO_VIRT s b) (of_nat i) flags True s")
      (auto simp: get_next_lvl_def Let_def split: if_splits)
  obtain c where c: "l = PHYS_TO_VIRT t c" "descend (entry t) r (p @ [i]) = Some c" "step_ok s t r D"
    "\<exists>x. used_frames t \<subseteq> insert x (used_frames s)"
    by (rule get_next_lvl_facts [OF ok p fl g])
  have "page_bmp t = page_bmp s" using c(3) by (simp add: step_ok_def)
  then have "k \<le> card (scan_free t)" by (rule scan_free_step [OF _ c(4) room])
  then show thesis using that g c by simp
qed

lemma vmm_map_page_succeeds:
  assumes ok: "pt_ok s r D" and v: "covered D v" and f: "flags AND FLAGS_R \<noteq> 0" and room: "3 \<le> card (scan_free s)"
  shows "\<exists>t. vmm_map_page (PHYS_TO_VIRT s r) v p flags s = Inr (True, t)"
proof -
  have fl: "present (transform_flags flags)" "PML4_GET_ADDR (transform_flags flags) = 0"
    using f transform_flags_bits by simp_all
  note vd = vpath_domain [OF v]
  have room': "Suc 2 \<le> card (scan_free s)" using room by simp
  obtain c3 s3 where 3: "get_next_lvl (PHYS_TO_VIRT s r) (of_nat (vidx 39 v)) (transform_flags flags) True s =
      Inr (PHYS_TO_VIRT s3 c3, s3)" "descend (entry s3) r ([] @ [vidx 39 v]) = Some c3" "step_ok s s3 r D"
      "2 \<le> card (scan_free s3)"
    by (rule get_next_lvl_succeeds [OF ok _ _ fl room', of "[]" "vidx 39 v" r]) (use vd(1) in simp_all)
  have ok3: "pt_ok s3 r D" and room3: "Suc 1 \<le> card (scan_free s3)" using 3 by (simp_all add: step_ok_def)
  obtain c2 s2 where 2: "get_next_lvl (PHYS_TO_VIRT s3 c3) (of_nat (vidx 30 v)) (transform_flags flags) True s3 =
      Inr (PHYS_TO_VIRT s2 c2, s2)" "descend (entry s2) r ([vidx 39 v] @ [vidx 30 v]) = Some c2" "step_ok s3 s2 r D"
      "1 \<le> card (scan_free s2)"
    by (rule get_next_lvl_succeeds [OF ok3 _ _ fl room3, of "[vidx 39 v]" "vidx 30 v" c3]) (use vd(2) 3 in simp_all)
  have ok2: "pt_ok s2 r D" and room2: "Suc 0 \<le> card (scan_free s2)" using 2 by (simp_all add: step_ok_def)
  obtain c1 s1 where "get_next_lvl (PHYS_TO_VIRT s2 c2) (of_nat (vidx 21 v)) (transform_flags flags) True s2 =
      Inr (PHYS_TO_VIRT s1 c1, s1)"
    by (rule get_next_lvl_succeeds [OF ok2 _ _ fl room2, of "[vidx 39 v, vidx 30 v]" "vidx 21 v" c2])
      (use vd(3) 2 in \<open>simp_all add: vpath_def\<close>)
  then show ?thesis using 3(1) 2(1) by (simp add: vmm_map_page_def walk_tables_def of_nat_vidx)
qed

lemma sample_room: "3 \<le> card (scan_free (sample x))"
proof -
  have "{4, 5, 6} \<subseteq> scan_free (sample x)"
    unfolding scan_free_def sample_used_frames by (simp add: sample_def)
  from card_mono [OF finite_scan_free this] show ?thesis by simp
qed

section \<open>A sample page map\<close>

lemma sample_table: "table_ok (sample x) 0x3000" "j < 512 \<Longrightarrow> entry (sample x) 0x3000 j = 0"
proof -
  have f: "frame 0x3000 = 3" by (simp add: frame_def)
  have tp: "table_page (sample x) 0x3000" by (simp add: table_page_def f sample_def)
  have reg: "bmp_region (page_bmp (sample x)) (sample x) = prange 0x1000 4096"
    using bmp_region_span [where s = "sample x" and bm = "page_bmp (sample x)" and p = "0x1000"]
      span_mono [OF sample_span [of "0x0F" x], of 4096] by (simp add: sample_def)
  have "frame q \<noteq> 3" if "q \<in> prange 0x1000 4096" for q
    using that by (auto simp: prange_def frame_eq_iff)
  then have "3 \<notin> frame ` bmp_region (page_bmp (sample x)) (sample x)" unfolding reg by (metis imageE)
  then show "table_ok (sample x) 0x3000" using tp by (simp add: table_ok_def f sample_used_frames)
  show "entry (sample x) 0x3000 j = 0" if j: "j < 512"
    unfolding entry_def
  proof (rule load64_zero [OF entry_span(1) [OF sample_heap_ok tp j]])
    fix q :: u64 assume "q \<in> prange (0x3000 + of_nat (8 * j)) 8"
    then have "frame q = 3" using entry_frame [OF sample_heap_ok tp j, of q] f by simp
    then have "q \<noteq> 0x1000" by (auto simp: frame_def)
    then show "pmem (sample x) q = 0" by (simp add: sample_def sample_mem_def)
  qed
qed

lemma sample_pt_ok: "pt_ok (sample x) 0x3000 D"
proof -
  have d: "descend (entry (sample x)) 0x3000 p = (if p = [] then Some 0x3000 else None)" if "p \<in> domain D" for p
    using that sample_table(2) [of _ x] by (cases p) (auto simp: domain_def)
  then have "tree (entry (sample x)) 0x3000 D" "reached (entry (sample x)) 0x3000 D = {0x3000}"
    by (auto simp: tree_def reached_def split: if_splits)
  moreover have "nframes (sample x) \<le> 2 ^ 40" by (simp add: sample_def)
  ultimately show ?thesis using sample_heap_ok sample_table(1) by (auto simp: pt_ok_def)
qed

section \<open>Properties\<close>

text \<open>
  C2. \<open>vmm_map_page\<close> with a readable mapping: afterwards the address translates to the given
  frame with the transformed flags, every other page of the covered address space translates
  as before, and the tables are still a tree of pages the allocator will not hand out. Of used
  memory only the tables and the bitmap change. It fails only by the out-of-memory panic.
\<close>

theorem vmm_map_page_spec:
  assumes "pt_ok s r D" "covered D v" "flags AND FLAGS_R \<noteq> 0"
  shows "case vmm_map_page (PHYS_TO_VIRT s r) v p flags s of
      Inl e \<Rightarrow> e = Psod HN_ERR_OUT_OF_MEM
    | Inr (b, t) \<Rightarrow> b \<and> pt_ok t r D \<and> translation t r v = Some (p OR transform_flags flags) \<and>
        used_frames s \<subseteq> used_frames t \<and>
        (\<forall>v'. covered D v' \<longrightarrow> \<not> same_page v v' \<longrightarrow> translation t r v' = translation s r v') \<and>
        (\<forall>q. spared s r D q \<longrightarrow> pmem t q = pmem s q)"
proof (cases "vmm_map_page (PHYS_TO_VIRT s r) v p flags s")
  case (Inl e)
  then show ?thesis using vmm_map_page_error by simp
next
  case (Inr x)
  then have m: "vmm_map_page (PHYS_TO_VIRT s r) v p flags s = Inr (fst x, snd x)" by simp
  show ?thesis
    using vmm_map_page_facts [OF assms m] vmm_map_page_hhdm(3,5) [OF assms m] Inr by (cases x) (auto simp: spares_def)
qed

theorem vmm_map_page_spec_witness:
  "case vmm_map_page (PHYS_TO_VIRT (sample ()) 0x3000) 0x400000 0x5000 (FLAGS_R OR FLAGS_W) (sample ()) of
      Inl e \<Rightarrow> e = Psod HN_ERR_OUT_OF_MEM
    | Inr (b, t) \<Rightarrow> b \<and> pt_ok t 0x3000 (\<lambda>i. i < 256) \<and>
        translation t 0x3000 0x400000 = Some (0x5000 OR transform_flags (FLAGS_R OR FLAGS_W)) \<and>
        used_frames (sample ()) \<subseteq> used_frames t \<and>
        (\<forall>v'. covered (\<lambda>i. i < 256) v' \<longrightarrow> \<not> same_page 0x400000 v' \<longrightarrow>
           translation t 0x3000 v' = translation (sample ()) 0x3000 v') \<and>
        (\<forall>q. spared (sample ()) 0x3000 (\<lambda>i. i < 256) q \<longrightarrow> pmem t q = pmem (sample ()) q)"
  by (rule vmm_map_page_spec [OF sample_pt_ok]) (simp_all add: covered_def vidx_nat)

text \<open>
  C11. Lookup after mapping: \<open>vmm_virt_to_phys\<close> of an address just mapped returns the page
  frame it was mapped to and changes nothing.
\<close>

theorem map_lookup_roundtrip:
  assumes "pt_ok s r D" "covered D v" "flags AND FLAGS_R \<noteq> 0" "unat p = 4096 * n" "n < 2 ^ 40"
    and "vmm_map_page (PHYS_TO_VIRT s r) v p flags s = Inr (b, t)"
  shows "vmm_virt_to_phys (PHYS_TO_VIRT t r) v t = Inr (p, t)"
proof -
  have "translation t r v = Some (p OR transform_flags flags)"
    by (rule vmm_map_page_facts(3) [OF assms(1-3,6)])
  from vmm_virt_to_phys_mapped [OF this] show ?thesis
    using make_entry(1) [OF assms(4,5) transform_flags_bits(1)] by simp
qed

theorem map_lookup_roundtrip_witness:
  "\<exists>t. vmm_map_page (PHYS_TO_VIRT (sample ()) 0x3000) 0x400000 0x5000 FLAGS_R (sample ()) = Inr (True, t) \<and>
     vmm_virt_to_phys (PHYS_TO_VIRT t 0x3000) 0x400000 t = Inr (0x5000, t)"
proof -
  have v: "covered (\<lambda>i. i < 256) 0x400000" by (simp add: covered_def vidx_nat)
  obtain t where m: "vmm_map_page (PHYS_TO_VIRT (sample ()) 0x3000) 0x400000 0x5000 FLAGS_R (sample ()) = Inr (True, t)"
    using vmm_map_page_succeeds [OF sample_pt_ok v _ sample_room [of "()"]] by force
  have "vmm_virt_to_phys (PHYS_TO_VIRT t 0x3000) 0x400000 t = Inr (0x5000, t)"
    by (rule map_lookup_roundtrip [OF sample_pt_ok v _ _ _ m, of 5]) simp_all
  then show ?thesis using m by blast
qed

text \<open>
  Mapping a page cannot fail while the allocator's scan covers at least three free frames,
  one for each table the mapping may have to add.
\<close>

theorem vmm_map_page_total:
  assumes "pt_ok s r D" "covered D v" "flags AND FLAGS_R \<noteq> 0" "3 \<le> card (scan_free s)"
  shows "\<exists>t. vmm_map_page (PHYS_TO_VIRT s r) v p flags s = Inr (True, t)"
  by (rule vmm_map_page_succeeds [OF assms])

theorem vmm_map_page_total_witness:
  "\<exists>t. vmm_map_page (PHYS_TO_VIRT (sample ()) 0x3000) 0x400000 0x5000 FLAGS_R (sample ()) = Inr (True, t)"
  by (rule vmm_map_page_total [OF sample_pt_ok, of "\<lambda>i. i < 256"])
    (simp_all add: covered_def vidx_nat sample_room)

text \<open>
  \<open>vmm_map_range\<close> below the 48-bit limit: every page of the range translates to its frame
  with the transformed flags.
\<close>

theorem vmm_map_range_spec:
  assumes "pt_ok s r D" "\<forall>k < unat num. covered D (v + of_nat k * PAGE_SIZE)" "flags AND FLAGS_R \<noteq> 0"
    and "unat v + 4096 * unat num \<le> 2 ^ 48"
  shows "case vmm_map_range (PHYS_TO_VIRT s r) v p num flags s of
      Inl e \<Rightarrow> e = Psod HN_ERR_OUT_OF_MEM
    | Inr (b, t) \<Rightarrow> b \<and> pt_ok t r D \<and> (\<forall>k < unat num. translation t r (v + of_nat k * PAGE_SIZE) =
        Some ((p + of_nat k * PAGE_SIZE) OR transform_flags flags))"
proof (cases "vmm_map_range (PHYS_TO_VIRT s r) v p num flags s")
  case (Inl e)
  then show ?thesis using map_range_error by (simp add: vmm_map_range_def)
next
  case (Inr x)
  then have l: "map_range_loop (PHYS_TO_VIRT s r) v p flags (unat num) (of_nat 0) True s = Inr (fst x, snd x)"
    by (simp add: vmm_map_range_def)
  have "\<forall>k < 0 + unat num. covered D (v + of_nat k * 4096)" "unat v + 4096 * (0 + unat num) \<le> 2 ^ 48"
    using assms(2,4) by simp_all
  from map_range_loop_facts [OF assms(1) this(1) assms(3) this(2) l] Inr show ?thesis by (cases x) simp
qed

theorem vmm_map_range_spec_witness:
  "case vmm_map_range (PHYS_TO_VIRT (sample ()) 0x3000) 0x400000 0x5000 2 FLAGS_R (sample ()) of
      Inl e \<Rightarrow> e = Psod HN_ERR_OUT_OF_MEM
    | Inr (b, t) \<Rightarrow> b \<and> pt_ok t 0x3000 (\<lambda>i. i < 256) \<and>
        (\<forall>k < unat (2 :: u64). translation t 0x3000 (0x400000 + of_nat k * PAGE_SIZE) =
          Some ((0x5000 + of_nat k * PAGE_SIZE) OR transform_flags FLAGS_R))"
proof (rule vmm_map_range_spec [OF sample_pt_ok])
  have "k = 0 \<or> k = 1" if "k < 2" for k :: nat using that by auto
  then show "\<forall>k < unat (2 :: u64). covered (\<lambda>i. i < 256) (0x400000 + of_nat k * PAGE_SIZE)"
    by (fastforce simp: covered_def vidx_nat)
qed simp_all

text \<open>
  \<open>vmm_create_pagemap\<close>: the new top-level table is a fresh page, its upper half is the
  kernel's, its lower half translates nothing, and the kernel's tables are untouched.
\<close>

theorem vmm_create_pagemap_spec:
  assumes "heap_ok s" "nframes s \<le> 2 ^ 40" "table_ok s (hn_pagemap s)"
  shows "case vmm_create_pagemap s of
      Inl e \<Rightarrow> e = Psod HN_ERR_OUT_OF_MEM
    | Inr (pml4, t) \<Rightarrow> \<exists>r. pml4 = PHYS_TO_VIRT t r \<and> pt_ok t r (\<lambda>i. i < 256) \<and> frame r \<notin> used_frames s \<and>
        used_frames t = insert (frame r) (used_frames s) \<and>
        (\<forall>j < 512. entry t r j = (if j < 256 then 0 else entry s (hn_pagemap s) j)) \<and>
        (\<forall>v. covered (\<lambda>i. i < 256) v \<longrightarrow> translation t r v = None) \<and>
        (\<forall>b j. table_ok s b \<longrightarrow> j < 512 \<longrightarrow> entry t b j = entry s b j)"
proof (cases "vmm_create_pagemap s")
  case (Inl e)
  then have "e = Psod HN_ERR_OUT_OF_MEM"
    by (auto simp: vmm_create_pagemap_def then_do_Inl_iff Let_def dest: request_pages_error)
  then show ?thesis using Inl by simp
next
  case (Inr x)
  then have c: "vmm_create_pagemap s = Inr (fst x, snd x)" by simp
  obtain r where r: "fst x = PHYS_TO_VIRT (snd x) r" "pt_ok (snd x) r (\<lambda>i. i < 256)" "frame r \<notin> used_frames s"
    "used_frames (snd x) = insert (frame r) (used_frames s)"
    "\<And>j. 256 \<le> j \<Longrightarrow> j < 512 \<Longrightarrow> entry (snd x) r j = entry s (hn_pagemap s) j"
    "\<And>j. j < 256 \<Longrightarrow> entry (snd x) r j = 0"
    "\<And>b j. table_ok s b \<Longrightarrow> j < 512 \<Longrightarrow> entry (snd x) b j = entry s b j"
    using vmm_create_pagemap_facts [OF assms refl c] by metis
  have "translation (snd x) r v = None" if "covered (\<lambda>i. i < 256) v" for v
    by (rule empty_translation [OF r(6) that])
  then show ?thesis using r Inr by (cases x) (auto intro!: exI [of _ r] simp: not_less)
qed

theorem vmm_create_pagemap_spec_witness:
  "case vmm_create_pagemap (sample_sched [READY] 1 0 ()) of
      Inl e \<Rightarrow> e = Psod HN_ERR_OUT_OF_MEM
    | Inr (pml4, t) \<Rightarrow> \<exists>r. pml4 = PHYS_TO_VIRT t r \<and> pt_ok t r (\<lambda>i. i < 256) \<and> frame r \<notin> {0, 1, 2, 3}"
proof -
  let ?s = "sample_sched [READY] 1 0 ()"
  have "heap_ok ?s" by (subst sample_sched_pmm) (rule sample_heap_ok)
  moreover have "nframes ?s \<le> 2 ^ 40" by (subst sample_sched_pmm) (simp add: sample_def)
  moreover have "table_ok ?s (hn_pagemap ?s)" by (subst sample_sched_pmm) (simp add: sample_table(1))
  ultimately have "case vmm_create_pagemap ?s of
      Inl e \<Rightarrow> e = Psod HN_ERR_OUT_OF_MEM
    | Inr (pml4, t) \<Rightarrow> \<exists>r. pml4 = PHYS_TO_VIRT t r \<and> pt_ok t r (\<lambda>i. i < 256) \<and> frame r \<notin> used_frames ?s \<and>
        used_frames t = insert (frame r) (used_frames ?s) \<and>
        (\<forall>j < 512. entry t r j = (if j < 256 then 0 else entry ?s (hn_pagemap ?s) j)) \<and>
        (\<forall>v. covered (\<lambda>i. i < 256) v \<longrightarrow> translation t r v = None) \<and>
        (\<forall>b j. table_ok ?s b \<longrightarrow> j < 512 \<longrightarrow> entry t b j = entry ?s b j)"
    by (rule vmm_create_pagemap_spec)
  moreover have "used_frames ?s = {0, 1, 2, 3}" by (subst sample_sched_pmm) (rule sample_used_frames)
  ultimately show ?thesis by (auto split: sum.splits)
qed

end
