(* ===== verification/Exec.thy ===== *)
theory Exec
  imports Pager
begin

text \<open>
  Starting a process: \<open>execute\<close> of \<open>core/sys/krnlexec.c\<close> makes a page map, a stack of two pages
  mapped at its physical address, the initial register frame and a scheduler entry.
\<close>

section \<open>The code\<close>

definition initial_regs :: "u64 \<Rightarrow> u64 \<Rightarrow> bool \<Rightarrow> Registers" where
  "initial_regs func stack user = zero_regs\<lparr>rip := func, rsp := stack + 2 * PAGE_SIZE,
     cs := (if user then 0x38 else 0x8), ss := (if user then 0x40 else 0x10), rflags := 0x202\<rparr>"

definition execute ::
    "ptr \<Rightarrow> u64 \<Rightarrow> bool \<Rightarrow> 'z sched_scheme \<Rightarrow> (unit, 'z sched_scheme) result" where
  "execute name func user s =
     then_do (vmm_create_pagemap s) (\<lambda>pm s.
     then_do (request_pages 2 s) (\<lambda>stack s.
     then_do (vmm_map_range pm stack stack 2 (FLAGS_R OR FLAGS_W OR FLAGS_U) s) (\<lambda>_ s.
     then_do (sched_add_process name (initial_regs func stack user) pm s) (\<lambda>_ s. Inr ((), s)))))"

section \<open>Page tables under allocation\<close>

text \<open>An allocation writes the bitmap only, so page tables stay as they are.\<close>

lemma alloc_entry:
  assumes h: "heap_ok s" and f: "pmm_frame s t" and b: "table_ok s b" and i: "i < 512"
  shows "entry t b i = entry s b i"
proof -
  have hh: "hhdm_off t = hhdm_off s" using f by (simp add: pmm_frame_def)
  have tp: "table_page s b" using b by (simp add: table_ok_def)
  have "pmem t q = pmem s q" if "frame q = frame b" for q
  proof -
    have "q \<notin> bmp_region (page_bmp s) s" using b that by (metis imageI table_ok_def)
    then show ?thesis using f by (simp add: pmm_frame_def)
  qed
  then show ?thesis by (rule entry_cong [OF h tp i hh])
qed

lemma alloc_pt_ok:
  assumes ok: "pt_ok s r D" and f: "pmm_frame s t" and u: "used_frames s \<subseteq> used_frames t"
  shows "pt_ok t r D" "covered D v \<Longrightarrow> translation t r v = translation s r v" "spares s t r D"
proof -
  have h: "heap_ok s" and tok: "b \<in> reached (entry s) r D \<Longrightarrow> table_ok s b" for b
    using ok by (auto simp: pt_ok_def)
  have nf: "nframes t = nframes s" by (rule pmm_frame_nframes [OF f])
  have reg: "bmp_region (page_bmp t) t = bmp_region (page_bmp s) s"
    using f bmp_region_cong [of t s] by (simp add: pmm_frame_def)
  have ag: "entry t b i = entry s b i" if "b \<in> reached (entry s) r D" "i < 512" for b i
    by (rule alloc_entry [OF h f tok [OF that(1)] that(2)])
  have "tree (entry t) r D = tree (entry s) r D" by (rule tree_agree(1), rule ag)
  moreover have "reached (entry t) r D = reached (entry s) r D" by (rule tree_agree(2), rule ag)
  moreover from this have "spares s t r D"
    using f u reg by (auto simp: spares_def spared_def pmm_frame_def)
  then show "spares s t r D" .
  moreover have "table_ok t b" if "table_ok s b" for b
    using that u nf reg by (auto simp: table_ok_def table_page_def)
  ultimately show "pt_ok t r D"
    using ok heap_ok_frame [OF h f u] nf by (auto simp: pt_ok_def)
  show "translation t r v = translation s r v" if "covered D v"
    unfolding translation_def using vpath_domain(3) [OF that] vidx_less by (rule leaf_agree [rotated]) (rule ag)
qed

lemma load_bytes_processes [simp]:
  "load_bytes (s\<lparr>processes := x\<rparr>) a n = load_bytes s a n"
  "load_bytes (s\<lparr>sched_num_procs := y\<rparr>) a n = load_bytes s a n"
  by (induction n arbitrary: a) (simp_all add: load8_def)

lemma entry_processes [simp]:
  "entry (s\<lparr>processes := x\<rparr>) = entry s" "entry (s\<lparr>sched_num_procs := y\<rparr>) = entry s"
  by (simp_all add: entry_def load64_def PHYS_TO_VIRT_def fun_eq_iff)

lemma translation_processes [simp]:
  "translation (s\<lparr>processes := x\<rparr>) = translation s" "translation (s\<lparr>sched_num_procs := y\<rparr>) = translation s"
  by (simp_all add: translation_def [abs_def])

lemma pt_ok_processes [simp]:
  "pt_ok (s\<lparr>processes := x\<rparr>) r D = pt_ok s r D" "pt_ok (s\<lparr>sched_num_procs := y\<rparr>) r D = pt_ok s r D"
  by (simp_all add: pt_ok_def table_ok_def table_page_def heap_state_defs)

section \<open>What execute establishes\<close>

text \<open>Physical memory ends below the lower half of the virtual address space.\<close>

lemma covered_low: "unat v < 2 ^ 47 \<Longrightarrow> covered (\<lambda>i. i < 256) v"
  by (simp add: covered_def vidx_nat less_mult_imp_div_less)

lemma map_range_more:
  assumes "pt_ok s r D" "\<forall>k < i + n. covered D (v + of_nat k * 4096)" "flags AND FLAGS_R \<noteq> 0"
    and "map_range_loop (PHYS_TO_VIRT s r) v p flags n (of_nat i) b s = Inr (b', t)"
  shows "pmm.more t = pmm.more s \<and> used_frames s \<subseteq> used_frames t \<and> spares s t r D"
  using assms
proof (induction n arbitrary: i b s)
  case (Suc n)
  obtain ok s1 where m: "vmm_map_page (PHYS_TO_VIRT s r) (v + of_nat i * 4096) (p + of_nat i * 4096) flags s = Inr (ok, s1)"
    and l: "map_range_loop (PHYS_TO_VIRT s r) v p flags n (of_nat i + 1) (b \<and> ok) s1 = Inr (b', t)"
    using Suc.prems(4) by (auto simp: then_do_Inr_iff)
  have cov: "covered D (v + of_nat i * 4096)" using Suc.prems(2) by simp
  note mp = vmm_map_page_facts [OF Suc.prems(1) cov Suc.prems(3) m]
  note hh = vmm_map_page_hhdm [OF Suc.prems(1) cov Suc.prems(3) m]
  have "map_range_loop (PHYS_TO_VIRT s1 r) v p flags n (of_nat (Suc i)) (b \<and> ok) s1 = Inr (b', t)"
    using l PHYS_TO_VIRT_cong [OF hh(1), of r] by (simp add: add.commute)
  then show ?case using Suc.IH [OF mp(2) _ Suc.prems(3), of "Suc i"] Suc.prems(2) hh spares_trans [OF hh(5)] by auto
qed simp

text \<open>The state after the page map, the stack and its mapping are made.\<close>

lemma execute_setup:
  assumes ok: "heap_ok s" "4096 * nframes s \<le> 2 ^ 47" "table_ok s (hn_pagemap s)"
    and c: "vmm_create_pagemap s = Inr (pm, s1)" and rq: "request_pages 2 s1 = Inr (stack, s2)"
    and mr: "vmm_map_range pm stack stack 2 (FLAGS_R OR FLAGS_W OR FLAGS_U) s2 = Inr (b, s3)"
  obtains r where "pm = PHYS_TO_VIRT s3 r" "pt_ok s3 r (\<lambda>i. i < 256)" "pmm.more s3 = pmm.more s"
    "\<And>k. k < 2 \<Longrightarrow> translation s3 r (stack + of_nat k * 4096) =
       Some ((stack + of_nat k * 4096) OR transform_flags (FLAGS_R OR FLAGS_W OR FLAGS_U))"
    "\<And>q. q \<notin> bmp_region (page_bmp s) s \<Longrightarrow> frame q \<in> used_frames s \<Longrightarrow> spared s3 r (\<lambda>i. i < 256) q \<and> pmem s3 q = pmem s q"
proof -
  let ?fl = "FLAGS_R OR FLAGS_W OR FLAGS_U :: u64" and ?D = "\<lambda>i::nat. i < 256"
  have nf: "nframes s \<le> 2 ^ 40" using ok(2) by simp
  obtain r where r: "pm = PHYS_TO_VIRT s1 r" "pt_ok s1 r ?D" "pmm.more s1 = pmm.more s" "nframes s1 = nframes s"
    "\<And>q. q \<notin> bmp_region (page_bmp s) s \<Longrightarrow> frame q \<in> used_frames s \<Longrightarrow> spared s1 r ?D q \<and> pmem s1 q = pmem s q"
    using vmm_create_pagemap_facts [OF ok(1) nf ok(3) refl c] by metis
  have inv: "pmm_inv s1" using r(2) by (simp add: pt_ok_def heap_ok_def)
  note f = request_pages_pmm [OF inv _ rq]
  have f': "pmm_frame s1 s2" "used_frames s1 \<subseteq> used_frames s2" using f(4,5) by auto
  have ok2: "pt_ok s2 r ?D" by (rule alloc_pt_ok(1) [OF r(2) f'(1,2)])
  have pv: "pm = PHYS_TO_VIRT s2 r" using r(1) f'(1) PHYS_TO_VIRT_cong [of s2 s1] by (simp add: pmm_frame_def)
  have us: "unat stack = 4096 * frame stack" using f(2) by (intro unat_page) simp
  have "frame stack + 2 \<le> nframes s" using f(3) r(4) by (simp add: in_bitmap_def)
  then have top: "unat stack + 4096 * 2 \<le> 2 ^ 47" using us ok(2) by simp
  have cov: "covered ?D (stack + of_nat k * 4096)" if "k < 2" for k
  proof -
    have "unat stack + 4096 * k < 18446744073709551616" using top that by simp
    then have "unat (stack + of_nat (4096 * k)) = unat stack + 4096 * k" by (rule unat_add_of_nat)
    then have "unat (stack + of_nat k * 4096) < 2 ^ 47" using top that by (simp add: mult.commute)
    then show ?thesis by (rule covered_low)
  qed
  have fl: "?fl AND FLAGS_R \<noteq> 0" by simp
  have lp: "map_range_loop (PHYS_TO_VIRT s2 r) stack stack ?fl 2 (of_nat 0) True s2 = Inr (b, s3)"
    using mr pv by (simp add: vmm_map_range_def)
  have cov': "\<forall>k < 0 + 2. covered ?D (stack + of_nat k * 4096)" and lim: "unat stack + 4096 * (0 + 2) \<le> 2 ^ 48"
    using cov top by simp_all
  note ml = map_range_loop_facts [OF ok2 cov' fl lim lp] and mm = map_range_more [OF ok2 cov' fl lp]
  have "pmm.more s3 = pmm.more s" using mm f'(1) r(3) by (simp add: pmm_frame_def)
  moreover have "pm = PHYS_TO_VIRT s3 r" using pv ml PHYS_TO_VIRT_cong [of s3 s2 r] by simp
  moreover have "spares s1 s3 r ?D" using alloc_pt_ok(3) [OF r(2) f'(1,2)] mm spares_trans by blast
  then have "spared s3 r ?D q \<and> pmem s3 q = pmem s q"
    if "q \<notin> bmp_region (page_bmp s) s" "frame q \<in> used_frames s" for q
    using r(5) [OF that] by (simp add: spares_def)
  ultimately show thesis using that ml by auto
qed

lemma sched_add_after:
  assumes "pmm.more s3 = pmm.more s" "length (processes s) = 64" "sched_num_procs s < 64"
  shows "sched_add_process name r pm s3 = Inr (sched_num_procs s, s3
    \<lparr>processes := (processes s)[unat (sched_num_procs s) := (processes s ! unat (sched_num_procs s))
       \<lparr>pname := name, regs := r, pagemap := pm, state_flags := READY\<rparr>],
     sched_num_procs := sched_num_procs s + 1\<rparr>)"
  using assms(2,3) sched_more [OF assms(1)]
  by (simp add: sched_add_process_def upd_process_def Let_def word_less_nat_alt)

lemma vmm_create_error: "vmm_create_pagemap s = Inl e \<Longrightarrow> e = Psod HN_ERR_OUT_OF_MEM"
  by (auto simp: vmm_create_pagemap_def then_do_Inl_iff Let_def dest: request_pages_error)

text \<open>What \<open>execute\<close> panics with, and what it leaves when it does not.\<close>

lemma execute_error:
  assumes "length (processes s) = 64" "sched_num_procs s < 64" "heap_ok s" "4096 * nframes s \<le> 2 ^ 47"
    "table_ok s (hn_pagemap s)" "execute name func user s = Inl e"
  shows "e = Psod HN_ERR_OUT_OF_MEM"
proof (cases "vmm_create_pagemap s")
  case (Inl e')
  then show ?thesis using assms(6) vmm_create_error by (simp add: execute_def)
next
  case (Inr x)
  obtain pm s1 where c: "vmm_create_pagemap s = Inr (pm, s1)" using Inr by (cases x) simp
  show ?thesis
  proof (cases "request_pages 2 s1")
    case (Inl e')
    then show ?thesis using assms(6) c request_pages_error by (simp add: execute_def)
  next
    case (Inr y)
    obtain stack s2 where rq: "request_pages 2 s1 = Inr (stack, s2)" using Inr by (cases y) simp
    show ?thesis
    proof (cases "vmm_map_range pm stack stack 2 (FLAGS_R OR FLAGS_W OR FLAGS_U) s2")
      case (Inl e')
      then show ?thesis using assms(6) c rq map_range_error by (simp add: execute_def vmm_map_range_def)
    next
      case (Inr z)
      obtain b s3 where mr: "vmm_map_range pm stack stack 2 (FLAGS_R OR FLAGS_W OR FLAGS_U) s2 = Inr (b, s3)"
        using Inr by (cases z) simp
      have "pmm.more s3 = pmm.more s" using execute_setup [OF assms(3-5) c rq mr] by metis
      from sched_add_after [OF this assms(1,2)] show ?thesis using assms(6) c rq mr by (simp add: execute_def)
    qed
  qed
qed

lemma execute_Inr:
  assumes ok: "heap_ok s" "4096 * nframes s \<le> 2 ^ 47" "table_ok s (hn_pagemap s)"
    and p: "length (processes s) = 64" "sched_num_procs s < 64" and x: "execute name func user s = Inr (u, t)"
  obtains r stack pm s3 where "pmm.more s3 = pmm.more s" "pt_ok t r (\<lambda>i. i < 256)" "pm = PHYS_TO_VIRT t r" "t = s3
    \<lparr>processes := (processes s)[unat (sched_num_procs s) := (processes s ! unat (sched_num_procs s))
       \<lparr>pname := name, regs := initial_regs func stack user, pagemap := pm, state_flags := READY\<rparr>],
     sched_num_procs := sched_num_procs s + 1\<rparr>"
    "\<And>k. k < 2 \<Longrightarrow> translation t r (stack + of_nat k * 4096) =
       Some ((stack + of_nat k * 4096) OR transform_flags (FLAGS_R OR FLAGS_W OR FLAGS_U))"
    "\<And>q. q \<notin> bmp_region (page_bmp s) s \<Longrightarrow> frame q \<in> used_frames s \<Longrightarrow> spared t r (\<lambda>i. i < 256) q \<and> pmem t q = pmem s q"
proof -
  obtain pm s1 stack s2 b s3 where c: "vmm_create_pagemap s = Inr (pm, s1)"
    and rq: "request_pages 2 s1 = Inr (stack, s2)"
    and mr: "vmm_map_range pm stack stack 2 (FLAGS_R OR FLAGS_W OR FLAGS_U) s2 = Inr (b, s3)"
    using x by (auto simp: execute_def then_do_Inr_iff)
  obtain r where r: "pm = PHYS_TO_VIRT s3 r" "pt_ok s3 r (\<lambda>i. i < 256)" "pmm.more s3 = pmm.more s"
    "\<And>k. k < 2 \<Longrightarrow> translation s3 r (stack + of_nat k * 4096) =
       Some ((stack + of_nat k * 4096) OR transform_flags (FLAGS_R OR FLAGS_W OR FLAGS_U))"
    "\<And>q. q \<notin> bmp_region (page_bmp s) s \<Longrightarrow> frame q \<in> used_frames s \<Longrightarrow> spared s3 r (\<lambda>i. i < 256) q \<and> pmem s3 q = pmem s q"
    using execute_setup [OF ok c rq mr] by metis
  have t: "t = s3\<lparr>processes := (processes s)[unat (sched_num_procs s) := (processes s ! unat (sched_num_procs s))
       \<lparr>pname := name, regs := initial_regs func stack user, pagemap := pm, state_flags := READY\<rparr>],
     sched_num_procs := sched_num_procs s + 1\<rparr>"
    using x c rq mr sched_add_after [OF r(3) p] by (simp add: execute_def)
  have pv: "pm = PHYS_TO_VIRT t r" using r(1) by (simp add: t PHYS_TO_VIRT_def)
  have pt: "pt_ok t r (\<lambda>i. i < 256)" using r(2) by (simp add: t)
  have sp: "spared t r (\<lambda>i. i < 256) = spared s3 r (\<lambda>i. i < 256)"
    by (simp add: t spared_def fun_eq_iff heap_state_defs)
  show thesis
    by (rule that [OF r(3) pt pv t]) (use r(4,5) in \<open>simp_all add: sp\<close>, simp_all add: t)
qed

section \<open>Where the bitmap is\<close>

text \<open>Page table code, and so \<open>execute\<close>, leaves the description of the bitmap and the direct map alone.\<close>

lemma same_memset: "pmm_same s (memset a b n t) = pmm_same s t"
  by (subst memset_pmem_only) (rule same_pmem)

lemma same_copy_upper: "pmm_same s (copy_upper n i d a t) = pmm_same s t"
  by (induction n arbitrary: i t) (simp_all add: same_store64)

lemma get_next_lvl_same: "get_next_lvl l i fl al s = Inr (p, t) \<Longrightarrow> pmm_ok s \<Longrightarrow> pmm_same s t"
  by (auto simp: get_next_lvl_def then_do_Inr_iff Let_def same_store64 same_memset pmm_same_refl
      split: if_splits dest: request_pages_same)

lemma walk_tables_same:
  assumes "walk_tables pm v fl s = Inr (p, t)" "pmm_ok s"
  shows "pmm_same s t"
  using assms by (auto simp: walk_tables_def then_do_Inr_iff pmm_same_ok dest!: get_next_lvl_same intro: pmm_same_trans)

lemma map_range_loop_same:
  assumes "map_range_loop pm v p fl n i b s = Inr (b', t)" "pmm_ok s"
  shows "pmm_same s t"
  using assms
proof (induction n arbitrary: i b s)
  case (Suc n)
  then obtain l s1 where w: "walk_tables pm (v + i * 4096) (transform_flags fl) s = Inr (l, s1)"
    and r: "map_range_loop pm v p fl n (i + 1) b
      (store64 (l + 8 * pml_index 12 (v + i * 4096)) ((p + i * 4096) OR transform_flags fl) s1) = Inr (b', t)" (is "map_range_loop _ _ _ _ _ _ _ ?s = _")
    by (auto simp: vmm_map_page_def then_do_Inr_iff)
  have "pmm_same s ?s" using walk_tables_same [OF w Suc.prems(2)] by (simp add: same_store64)
  then show ?case using Suc.IH [OF r] Suc.prems(2) pmm_same_ok pmm_same_trans by blast
qed (simp add: pmm_same_refl)

lemma execute_same:
  assumes "execute name func user s = Inr (u, t)" "pmm_ok s"
  shows "page_bmp t = page_bmp s" "hhdm_off t = hhdm_off s"
proof -
  obtain pm s1 stack s2 b s3 where e: "vmm_create_pagemap s = Inr (pm, s1)" "request_pages 2 s1 = Inr (stack, s2)"
    "map_range_loop pm stack stack (FLAGS_R OR FLAGS_W OR FLAGS_U) 2 0 True s2 = Inr (b, s3)"
    "\<exists>x. sched_add_process name (initial_regs func stack user) pm s3 = Inr (x, t)"
    using assms(1) by (auto simp: execute_def vmm_map_range_def then_do_Inr_iff)
  have 1: "pmm_same s s1"
    using e(1) assms(2) by (auto simp: vmm_create_pagemap_def then_do_Inr_iff Let_def same_copy_upper same_memset
        dest: request_pages_same)
  have 2: "pmm_same s1 s2" by (rule request_pages_same [OF _ e(2)]) (use pmm_same_ok [OF 1] assms(2) in simp)
  have "pmm_same s2 s3"
    by (rule map_range_loop_same [OF e(3)]) (use pmm_same_ok [OF 1] pmm_same_ok [OF 2] assms(2) in simp)
  then have "pmm_same s s3" using 1 2 pmm_same_trans by blast
  moreover have "page_bmp t = page_bmp s3 \<and> hhdm_off t = hhdm_off s3"
    using e(4) by (auto simp: sched_add_process_def upd_process_def then_do_Inr_iff Let_def split: if_splits)
  ultimately show "page_bmp t = page_bmp s" "hhdm_off t = hhdm_off s" by (simp_all add: pmm_same_def)
qed

section \<open>Properties\<close>

text \<open>
  C17. \<open>execute\<close>: the new process takes the next slot, is ready to run at the given function with
  its stack pointer at the end of a two-page stack, and its page map translates both stack
  pages to themselves, readable, writable and open to user mode. No byte of memory that was in use
  changes, the bitmap apart. It panics only for want of memory.
\<close>

theorem execute_spec:
  assumes "heap_ok s" "4096 * nframes s \<le> 2 ^ 47" "table_ok s (hn_pagemap s)"
    and "length (processes s) = 64" "sched_num_procs s < 64"
  shows "case execute name func user s of
      Inl e \<Rightarrow> e = Psod HN_ERR_OUT_OF_MEM
    | Inr (_, t) \<Rightarrow> \<exists>r stack. sched_num_procs t = sched_num_procs s + 1 \<and>
        processes t = (processes s)[unat (sched_num_procs s) := (processes s ! unat (sched_num_procs s))
          \<lparr>pname := name, regs := initial_regs func stack user, pagemap := PHYS_TO_VIRT t r, state_flags := READY\<rparr>] \<and>
        pt_ok t r (\<lambda>i. i < 256) \<and>
        (\<forall>k < 2. translation t r (stack + of_nat k * PAGE_SIZE) =
          Some ((stack + of_nat k * PAGE_SIZE) OR transform_flags (FLAGS_R OR FLAGS_W OR FLAGS_U))) \<and>
        (\<forall>q. q \<notin> bmp_region (page_bmp s) s \<longrightarrow> frame q \<in> used_frames s \<longrightarrow> pmem t q = pmem s q)"
proof (cases "execute name func user s")
  case (Inl e)
  then show ?thesis using execute_error [OF assms(4,5,1-3)] by simp
next
  case (Inr x)
  obtain t where t: "execute name func user s = Inr ((), t)" using Inr by (cases x) simp
  obtain r stack pm s3 where r: "pt_ok t r (\<lambda>i. i < 256)" "pm = PHYS_TO_VIRT t r" "t = s3
    \<lparr>processes := (processes s)[unat (sched_num_procs s) := (processes s ! unat (sched_num_procs s))
       \<lparr>pname := name, regs := initial_regs func stack user, pagemap := pm, state_flags := READY\<rparr>],
     sched_num_procs := sched_num_procs s + 1\<rparr>"
    "\<And>k. k < 2 \<Longrightarrow> translation t r (stack + of_nat k * 4096) =
       Some ((stack + of_nat k * 4096) OR transform_flags (FLAGS_R OR FLAGS_W OR FLAGS_U))"
    "\<And>q. q \<notin> bmp_region (page_bmp s) s \<Longrightarrow> frame q \<in> used_frames s \<Longrightarrow> spared t r (\<lambda>i. i < 256) q \<and> pmem t q = pmem s q"
    using execute_Inr [OF assms t] by metis
  have "processes t = (processes s)[unat (sched_num_procs s) := (processes s ! unat (sched_num_procs s))
       \<lparr>pname := name, regs := initial_regs func stack user, pagemap := PHYS_TO_VIRT t r, state_flags := READY\<rparr>]"
    "sched_num_procs t = sched_num_procs s + 1"
    unfolding r(2) [symmetric] by (simp_all add: r(3))
  then show ?thesis
    unfolding t sum.case prod.case by (intro exI [of _ r] exI [of _ stack]) (use r(1,4,5) in simp)
qed

theorem execute_spec_witness:
  "case execute 0 0xFFFFFFFF80001000 False (sample_sched [] 0 0 ()) of
      Inl e \<Rightarrow> e = Psod HN_ERR_OUT_OF_MEM
    | Inr (_, t) \<Rightarrow> \<exists>r. sched_num_procs t = 1 \<and> ready t 0 \<and> pagemap (processes t ! 0) = PHYS_TO_VIRT t r \<and>
        rip (regs (processes t ! 0)) = 0xFFFFFFFF80001000 \<and> pt_ok t r (\<lambda>i. i < 256)"
proof -
  let ?s = "sample_sched [] 0 0 ()"
  have "heap_ok ?s" by (subst sample_sched_pmm) (rule sample_heap_ok)
  moreover have "4096 * nframes ?s \<le> 2 ^ 47" by (subst sample_sched_pmm) (simp add: sample_def)
  moreover have "table_ok ?s (hn_pagemap ?s)" by (subst sample_sched_pmm) (simp add: sample_table(1))
  moreover have "length (processes ?s) = 64" "sched_num_procs ?s < 64" by simp_all
  ultimately have x: "case execute 0 0xFFFFFFFF80001000 False ?s of
      Inl e \<Rightarrow> e = Psod HN_ERR_OUT_OF_MEM
    | Inr (_, t) \<Rightarrow> \<exists>r stack. sched_num_procs t = sched_num_procs ?s + 1 \<and>
        processes t = (processes ?s)[unat (sched_num_procs ?s) := (processes ?s ! unat (sched_num_procs ?s))
          \<lparr>pname := 0, regs := initial_regs 0xFFFFFFFF80001000 stack False, pagemap := PHYS_TO_VIRT t r, state_flags := READY\<rparr>] \<and>
        pt_ok t r (\<lambda>i. i < 256) \<and>
        (\<forall>k < 2. translation t r (stack + of_nat k * PAGE_SIZE) =
          Some ((stack + of_nat k * PAGE_SIZE) OR transform_flags (FLAGS_R OR FLAGS_W OR FLAGS_U))) \<and>
        (\<forall>q. q \<notin> bmp_region (page_bmp ?s) ?s \<longrightarrow> frame q \<in> used_frames ?s \<longrightarrow> pmem t q = pmem ?s q)"
    by (rule execute_spec)
  show ?thesis
  proof (cases "execute 0 0xFFFFFFFF80001000 False ?s")
    case (Inl e)
    then show ?thesis using x by simp
  next
    case (Inr y)
    obtain t where y: "y = ((), t)" by (cases y) simp
    from x obtain r stack where "sched_num_procs t = 1"
      "processes t = (sample_procs [])[0 := (sample_procs [] ! 0)
          \<lparr>pname := 0, regs := initial_regs 0xFFFFFFFF80001000 stack False, pagemap := PHYS_TO_VIRT t r, state_flags := READY\<rparr>]"
      "pt_ok t r (\<lambda>i. i < 256)"
      unfolding Inr y by auto
    then have "sched_num_procs t = 1" "processes t ! 0 = (sample_procs [] ! 0)
          \<lparr>pname := 0, regs := initial_regs 0xFFFFFFFF80001000 stack False, pagemap := PHYS_TO_VIRT t r, state_flags := READY\<rparr>"
      "pt_ok t r (\<lambda>i. i < 256)" "length (processes t) = 64"
      by (simp_all (no_asm_simp))
    then have "sched_num_procs t = 1 \<and> ready t 0 \<and> pagemap (processes t ! 0) = PHYS_TO_VIRT t r \<and>
        rip (regs (processes t ! 0)) = 0xFFFFFFFF80001000 \<and> pt_ok t r (\<lambda>i. i < 256)"
      by (simp add: ready_def initial_regs_def)
    then show ?thesis unfolding Inr y by auto
  qed
qed

end
