(* ===== verification/Gdt.thy ===== *)
theory Gdt
  imports Memory
begin

text \<open>
  The segment descriptors and the task-state segment, \<open>arch/x86_64/gdt.c\<close>. The addresses of
  the C objects \<open>gdt\<close> and \<open>daTSS\<close> are arguments, since the linker chooses them. The assembly
  routines (\<open>gdt.asm\<close>) are recorded as what they load: \<open>load_gdt\<close> ignores its argument and loads
  the address of \<open>gdt\<close> with the limit \<open>0xFF * 8\<close>; its new selectors and its far return are in \<open>Entry\<close>.
\<close>

section \<open>The code\<close>

record gdt_entry =
  ge_limit0 :: u16
  ge_base0 :: u16
  ge_base1 :: u8
  ge_access :: u8
  ge_limit1_flags :: u8
  ge_base2 :: u8

record tss_entry =
  te_length :: u16
  te_base :: u16
  te_base1 :: u8
  te_flags :: u8
  te_flags1 :: u8
  te_base2 :: u8
  te_base3 :: u32
  te_resv :: u32

record gdt_table =
  gdt_entries :: "gdt_entry list"
  gdt_tss :: tss_entry

record gdt_pointer =
  gp_size :: u16
  gp_offset :: u32

record tss =
  tss_reserved0 :: u32
  tss_rsp0 :: u64
  tss_rsp1 :: u64
  tss_rsp2 :: u64
  tss_reserved1 :: u64
  tss_ist :: "u64 list"
  tss_reserved2 :: u64
  tss_reserved3 :: u16
  tss_iomap_base :: u16

record gdt_state =
  gdt :: gdt_table
  gdtr :: gdt_pointer
  daTSS :: tss
  loaded_gdt :: "(u16 \<times> u64) option"
  tss_loaded :: bool

definition set_gdt_entry :: "nat \<Rightarrow> u16 \<Rightarrow> u16 \<Rightarrow> u8 \<Rightarrow> u8 \<Rightarrow> gdt_table \<Rightarrow> gdt_table" where
  "set_gdt_entry i limit base access flags g =
     (let b = ucast base :: u32; l = ucast limit :: u32 in
      g\<lparr>gdt_entries := (gdt_entries g)[i :=
        \<lparr>ge_limit0 = ucast (l AND 0xFFFF), ge_base0 = ucast (b AND 0xFFFF),
         ge_base1 = ucast (drop_bit 16 b AND 0xFF), ge_access = access,
         ge_limit1_flags = (ucast (drop_bit 16 l) AND 0x0F) OR (flags AND 0xF0),
         ge_base2 = ucast (drop_bit 24 b AND 0xFF)\<rparr>]\<rparr>)"

text \<open>\<open>sizeof(tss)\<close> is the size of the parameter \<open>tss\<close>, a \<open>u64\<close>.\<close>

definition set_tss_gate :: "u64 \<Rightarrow> gdt_table \<Rightarrow> gdt_table" where
  "set_tss_gate t g = g\<lparr>gdt_tss :=
     \<lparr>te_length = 8, te_base = ucast (t AND 0xffff), te_base1 = ucast (drop_bit 16 t AND 0xff),
      te_flags = 0x89, te_flags1 = 0, te_base2 = ucast (drop_bit 24 t AND 0xff),
      te_base3 = ucast (drop_bit 32 t), te_resv = 0\<rparr>\<rparr>"

definition init_tss :: "u64 \<Rightarrow> tss" where
  "init_tss rsp0 = \<lparr>tss_reserved0 = 0, tss_rsp0 = rsp0, tss_rsp1 = 0, tss_rsp2 = 0, tss_reserved1 = 0,
     tss_ist = replicate 7 0, tss_reserved2 = 0, tss_reserved3 = 0, tss_iomap_base = 0\<rparr>"

definition init_gdt_entries :: "gdt_table \<Rightarrow> gdt_table" where
  "init_gdt_entries g =
     (let g = set_gdt_entry 0 0 0 0 0 g;
          g = set_gdt_entry 1 0 0 0b10011010 0xA0 g;
          g = set_gdt_entry 2 0 0 0b10010010 0xC0 g;
          g = set_gdt_entry 3 0 0 0b10111010 0xA0 g;
          g = set_gdt_entry 4 0 0 0b10110010 0xC0 g;
          g = set_gdt_entry 5 0 0 0b11011010 0xA0 g;
          g = set_gdt_entry 6 0 0 0b11010010 0xC0 g;
          g = set_gdt_entry 7 0 0 0b11111010 0xA0 g
      in set_gdt_entry 8 0 0 0b11110010 0xC0 g)"

text \<open>\<open>sizeof(gdt)\<close> is 9 descriptors of 8 bytes and the 16 bytes of the task-state descriptor.\<close>

definition gdt_init :: "u64 \<Rightarrow> u64 \<Rightarrow> u64 \<Rightarrow> gdt_state \<Rightarrow> gdt_state" where
  "gdt_init gdt_addr tss_addr rsp0 s =
     (let g = set_tss_gate tss_addr (init_gdt_entries (gdt s));
          r = \<lparr>gp_size = 88 - 1, gp_offset = ucast gdt_addr\<rparr>
      in s\<lparr>gdt := g, gdtr := r, daTSS := init_tss rsp0, loaded_gdt := Some (0xFF * 8, gdt_addr), tss_loaded := True\<rparr>)"

definition set_kernel_stack :: "u64 \<Rightarrow> gdt_state \<Rightarrow> gdt_state" where
  "set_kernel_stack stack s = s\<lparr>daTSS := (daTSS s)\<lparr>tss_rsp0 := stack\<rparr>\<rparr>"

section \<open>What the processor reads\<close>

text \<open>
  The fields of a descriptor as the processor decodes them: privilege level, code or data, and
  the base address of the task-state descriptor.
\<close>

definition dpl :: "gdt_entry \<Rightarrow> nat" where
  "dpl e = unat (drop_bit 5 (ge_access e) AND 3)"

definition is_present :: "gdt_entry \<Rightarrow> bool" where "is_present e \<longleftrightarrow> bit (ge_access e) 7"
definition is_code :: "gdt_entry \<Rightarrow> bool" where "is_code e \<longleftrightarrow> bit (ge_access e) 4 \<and> bit (ge_access e) 3"
definition is_data :: "gdt_entry \<Rightarrow> bool" where "is_data e \<longleftrightarrow> bit (ge_access e) 4 \<and> \<not> bit (ge_access e) 3"
definition is_long :: "gdt_entry \<Rightarrow> bool" where "is_long e \<longleftrightarrow> bit (ge_limit1_flags e) 5"

definition tss_address :: "tss_entry \<Rightarrow> u64" where
  "tss_address e = ucast (te_base e) OR push_bit 16 (ucast (te_base1 e)) OR
     push_bit 24 (ucast (te_base2 e)) OR push_bit 32 (ucast (te_base3 e))"

text \<open>The descriptor a selector names; its low three bits are not part of the index.\<close>

definition descriptor :: "gdt_table \<Rightarrow> u64 \<Rightarrow> gdt_entry" where
  "descriptor g sel = gdt_entries g ! (unat sel div 8)"

lemma length_set_gdt_entry [simp]: "length (gdt_entries (set_gdt_entry i l b a f g)) = length (gdt_entries g)"
  by (simp add: set_gdt_entry_def Let_def)

lemma tss_address_set [simp]: "tss_address (gdt_tss (set_tss_gate t g)) = t"
proof -
  have m: "(0xffff :: u64) = mask 16" "(0xff :: u64) = mask 8" by (simp_all add: mask_eq_exp_minus_1)
  show ?thesis
  proof (rule bit_word_eqI)
    fix n assume "n < LENGTH(64)"
    then consider "n < 16" | "16 \<le> n" "n < 24" | "24 \<le> n" "n < 32" | "32 \<le> n" "n < 64" by fastforce
    then show "bit (tss_address (gdt_tss (set_tss_gate t g))) n = bit t n"
      by cases (auto simp: set_tss_gate_def tss_address_def m bit_simps)
  qed
qed

section \<open>Properties\<close>

lemmas gdt_entry_simps = set_gdt_entry_def init_gdt_entries_def Let_def

lemma init_gdt_entries_nth:
  assumes "length (gdt_entries g) = 9"
  shows "gdt_entries (init_gdt_entries g) = map (\<lambda>(a, f). \<lparr>ge_limit0 = 0, ge_base0 = 0, ge_base1 = 0,
      ge_access = a, ge_limit1_flags = f AND 0xF0, ge_base2 = 0\<rparr>)
    [(0, 0), (0x9A, 0xA0), (0x92, 0xC0), (0xBA, 0xA0), (0xB2, 0xC0),
     (0xDA, 0xA0), (0xD2, 0xC0), (0xFA, 0xA0), (0xF2, 0xC0)]"
proof -
  obtain a0 a1 a2 a3 a4 a5 a6 a7 a8 where "gdt_entries g = [a0, a1, a2, a3, a4, a5, a6, a7, a8]"
    using assms by (auto simp: length_Suc_conv numeral_eq_Suc)
  then show ?thesis by (simp add: gdt_entry_simps)
qed

lemma set_tss_gate_fields [simp]:
  "gdt_entries (set_tss_gate t g) = gdt_entries g" "te_length (gdt_tss (set_tss_gate t g)) = 8"
  by (simp_all add: set_tss_gate_def)

text \<open>
  C39. After \<open>gdt_init\<close> the selectors the kernel uses name what they should: 0x8 and 0x10 the
  code and data segments of ring 0, 0x38 and 0x40 those of ring 3, all present; the processor
  finds the task-state segment at its address, with the kernel stack as its ring 0 stack. The
  limit of its descriptor is 8, the size of a pointer, less than the 104 bytes of the segment.
\<close>

theorem gdt_init_spec:
  assumes "length (gdt_entries (gdt s)) = 9"
  shows "let t = gdt_init ga ta rsp0 s; d = descriptor (gdt t) in
    (\<forall>sel \<in> {0x8, 0x38}. is_present (d sel) \<and> is_code (d sel) \<and> is_long (d sel)) \<and>
    (\<forall>sel \<in> {0x10, 0x40}. is_present (d sel) \<and> is_data (d sel)) \<and>
    dpl (d 0x8) = 0 \<and> dpl (d 0x10) = 0 \<and> dpl (d 0x38) = 3 \<and> dpl (d 0x40) = 3 \<and>
    tss_address (gdt_tss (gdt t)) = ta \<and> te_length (gdt_tss (gdt t)) = 8 \<and>
    tss_rsp0 (daTSS t) = rsp0 \<and> loaded_gdt t = Some (2040, ga)"
  using init_gdt_entries_nth [OF assms]
  by (simp add: gdt_init_def Let_def descriptor_def is_present_def is_code_def is_data_def is_long_def
    dpl_def init_tss_def)

definition sample_gdt :: gdt_state where
  "sample_gdt =
     \<lparr>gdt = \<lparr>gdt_entries = replicate 9 \<lparr>ge_limit0 = 0, ge_base0 = 0, ge_base1 = 0, ge_access = 0,
        ge_limit1_flags = 0, ge_base2 = 0\<rparr>,
        gdt_tss = \<lparr>te_length = 0, te_base = 0, te_base1 = 0, te_flags = 0, te_flags1 = 0, te_base2 = 0,
          te_base3 = 0, te_resv = 0\<rparr>\<rparr>,
      gdtr = \<lparr>gp_size = 0, gp_offset = 0\<rparr>, daTSS = init_tss 0, loaded_gdt = None, tss_loaded = False\<rparr>"

theorem gdt_init_spec_witness:
  "let t = gdt_init 0xFFFFFFFF80010000 0xFFFFFFFF80020000 0xFFFFFFFF80030000 sample_gdt; d = descriptor (gdt t) in
    is_code (d 0x8) \<and> dpl (d 0x38) = 3 \<and> tss_address (gdt_tss (gdt t)) = 0xFFFFFFFF80020000 \<and>
    tss_rsp0 (daTSS t) = 0xFFFFFFFF80030000"
  using gdt_init_spec [of sample_gdt "0xFFFFFFFF80010000" "0xFFFFFFFF80020000" "0xFFFFFFFF80030000"]
  by (simp add: sample_gdt_def Let_def)

end
