(* ===== verification/Cpu.thy ===== *)
theory Cpu
  imports Memory
begin

text \<open>
  \<open>cpu.c\<close>: what \<open>cpuid\<close> tells about the processor, the floating-point unit, and the model-specific
  registers. The instruction \<open>cpuid\<close> is the argument \<open>cpuid\<close> of the definitions that use it: it
  takes \<open>eax\<close> and gives \<open>eax\<close>, \<open>ebx\<close>, \<open>ecx\<close> and \<open>edx\<close>.
\<close>

section \<open>The code\<close>

record CPUInfo =
  vendor :: "u8 list"
  brand_string :: "u8 list"
  family :: u8
  cpu_model :: u8
  stepping :: u8
  ext_family :: u8
  ext_model :: u8
  features :: "u32 list"

type_synonym cpuid_fun = "u32 \<Rightarrow> u32 \<times> u32 \<times> u32 \<times> u32"

abbreviation (input) CPUID_GET_VENDORSTRING :: u32 where "CPUID_GET_VENDORSTRING \<equiv> 0"
abbreviation (input) CPUID_GET_FEATURES :: u32 where "CPUID_GET_FEATURES \<equiv> 1"
abbreviation (input) CPUID_GET_INTEL_BRANDSTRING1 :: u32 where "CPUID_GET_INTEL_BRANDSTRING1 \<equiv> 0x80000002"
abbreviation (input) CPUID_GET_INTEL_BRANDSTRING2 :: u32 where "CPUID_GET_INTEL_BRANDSTRING2 \<equiv> 0x80000003"
abbreviation (input) CPUID_GET_INTEL_BRANDSTRING3 :: u32 where "CPUID_GET_INTEL_BRANDSTRING3 \<equiv> 0x80000004"

text \<open>\<open>memcpy(&xs[i], &reg, 4)\<close> into a local array.\<close>

definition put4 :: "nat \<Rightarrow> u32 \<Rightarrow> u8 list \<Rightarrow> u8 list" where
  "put4 i reg xs = take i xs @ word_bytes 4 reg @ drop (i + 4) xs"

definition get_vendor :: "cpuid_fun \<Rightarrow> CPUInfo \<Rightarrow> CPUInfo" where
  "get_vendor cpuid c =
     (let (eax, ebx, ecx, edx) = cpuid CPUID_GET_VENDORSTRING;
          v = put4 8 ecx (put4 4 edx (put4 0 ebx (vendor c)))
      in c\<lparr>vendor := v[12 := 0]\<rparr>)"

definition get_brand_part :: "u32 \<times> u32 \<times> u32 \<times> u32 \<Rightarrow> nat \<Rightarrow> u8 list \<Rightarrow> u8 list" where
  "get_brand_part q i xs =
     (let (eax, ebx, ecx, edx) = q in put4 (i + 12) edx (put4 (i + 8) ecx (put4 (i + 4) ebx (put4 i eax xs))))"

definition get_brand :: "cpuid_fun \<Rightarrow> CPUInfo \<Rightarrow> CPUInfo" where
  "get_brand cpuid c =
     (let b = get_brand_part (cpuid CPUID_GET_INTEL_BRANDSTRING1) 0 (brand_string c);
          b = get_brand_part (cpuid CPUID_GET_INTEL_BRANDSTRING2) 16 b;
          b = get_brand_part (cpuid CPUID_GET_INTEL_BRANDSTRING3) 32 b
      in c\<lparr>brand_string := b[48 := 0]\<rparr>)"

definition get_signature :: "cpuid_fun \<Rightarrow> CPUInfo \<Rightarrow> CPUInfo" where
  "get_signature cpuid c =
     (let (eax, ebx, ecx, edx) = cpuid CPUID_GET_FEATURES in
      c\<lparr>family := ucast (drop_bit 8 eax AND 0xF), cpu_model := ucast (drop_bit 4 eax AND 0xF),
        stepping := ucast (eax AND 0xF), ext_family := ucast (drop_bit 20 eax AND 0xFF),
        ext_model := ucast (drop_bit 16 eax AND 0xF), features := (features c)[0 := edx, 1 := ecx]\<rparr>)"

definition get_cpu_capabilities :: "cpuid_fun \<Rightarrow> CPUInfo \<Rightarrow> CPUInfo" where
  "get_cpu_capabilities cpuid c = get_signature cpuid (get_brand cpuid (get_vendor cpuid c))"

text \<open>The control registers and the model-specific registers the code writes.\<close>

record cpu_regs =
  cr0 :: u64
  cr4 :: u64
  fpu_initialised :: bool
  msr :: "u32 \<Rightarrow> u64"

text \<open>
  \<open>and $0x9FFFFFFF, %eax\<close> works on the low half of \<open>rax\<close> and clears the upper half. \<open>clts\<close> clears bit 3
  of \<open>cr0\<close>.
\<close>

definition sys_init_fpu :: "cpuid_fun \<Rightarrow> cpu_regs \<Rightarrow> nat \<times> cpu_regs" where
  "sys_init_fpu cpuid s =
     (let (eax, ebx, ecx, edx) = cpuid 1 in
      if edx AND push_bit 24 1 = 0 then (1, s)
      else
        let s = s\<lparr>fpu_initialised := True\<rparr>;
            s = s\<lparr>cr0 := unset_bit 3 (cr0 s)\<rparr>;
            s = s\<lparr>cr0 := ucast (ucast (cr0 s) AND (0x9FFFFFFF :: u32))\<rparr>;
            s = s\<lparr>cr4 := cr4 s OR 0x600\<rparr>
        in (0, s))"

definition rdmsr :: "u32 \<Rightarrow> cpu_regs \<Rightarrow> u32 \<times> u32" where
  "rdmsr n s = (ucast (msr s n), ucast (drop_bit 32 (msr s n)))"

definition wrmsr :: "u32 \<Rightarrow> u32 \<Rightarrow> u32 \<Rightarrow> cpu_regs \<Rightarrow> cpu_regs" where
  "wrmsr n lo hi s = s\<lparr>msr := (msr s)(n := push_bit 32 (ucast hi) OR ucast lo)\<rparr>"

section \<open>Facts\<close>

text \<open>A register that carries four bytes of a string.\<close>

definition reg_of :: "u8 list \<Rightarrow> nat \<Rightarrow> u32" where
  "reg_of bs i = bytes_word (take 4 (drop i bs))"

lemma word_bytes_reg_of: "i + 4 \<le> length bs \<Longrightarrow> word_bytes 4 (reg_of bs i) = take 4 (drop i bs)"
  unfolding reg_of_def using word_bytes_bytes_word [of "take 4 (drop i bs)", where 'a = 32] by simp

lemma length_put4 [simp]: "i + 4 \<le> length xs \<Longrightarrow> length (put4 i r xs) = length xs"
  by (simp add: put4_def)

text \<open>Copied one after the other, the registers fill the array.\<close>

lemma put4_next:
  assumes "i + 4 \<le> length bs" "i + 4 \<le> length xs" "take i xs = take i bs"
  shows "take (i + 4) (put4 i (reg_of bs i) xs) = take (i + 4) bs"
  using assms word_bytes_reg_of [OF assms(1)] by (auto simp: put4_def take_add min_def simp del: word_bytes.simps)

lemma brand_part_next:
  assumes "i + 16 \<le> length bs" "i + 16 \<le> length xs" "take i xs = take i bs"
    and "q = (reg_of bs i, reg_of bs (i + 4), reg_of bs (i + 8), reg_of bs (i + 12))"
  shows "take (i + 16) (get_brand_part q i xs) = take (i + 16) bs" "length (get_brand_part q i xs) = length xs"
proof -
  let ?x1 = "put4 i (reg_of bs i) xs"
  let ?x2 = "put4 (i + 4) (reg_of bs (i + 4)) ?x1"
  let ?x3 = "put4 (i + 8) (reg_of bs (i + 8)) ?x2"
  have 1: "take (i + 4) ?x1 = take (i + 4) bs" by (rule put4_next) (use assms in simp_all)
  have 2: "take (i + 8) ?x2 = take (i + 8) bs" using put4_next [of "i + 4" bs ?x1] 1 assms by (simp add: add.assoc)
  have 3: "take (i + 12) ?x3 = take (i + 12) bs" using put4_next [of "i + 8" bs ?x2] 2 assms by (simp add: add.assoc)
  show "take (i + 16) (get_brand_part q i xs) = take (i + 16) bs"
    using put4_next [of "i + 12" bs ?x3] 3 assms by (simp add: get_brand_part_def add.assoc)
  show "length (get_brand_part q i xs) = length xs" using assms by (simp add: get_brand_part_def)
qed

lemma take_update_end:
  assumes "length xs = Suc n" "length bs = n" "take n xs = take n bs"
  shows "xs[n := x] = bs @ [x]"
proof -
  have "xs[n := x] = take n xs @ [x]" using assms(1) upd_conv_take_nth_drop [of n xs x] by simp
  then show ?thesis using assms by simp
qed

text \<open>A field of the signature.\<close>

lemma nibble: "(x :: u32) AND 0xF = take_bit 4 x" and octet: "(x :: u32) AND 0xFF = take_bit 8 x"
  by (simp_all add: take_bit_eq_mask mask_eq_exp_minus_1)

lemma field_of:
  assumes "m \<le> 8"
  shows "(ucast (take_bit m (drop_bit n w :: u32)) :: u8) = of_nat (unat w div 2 ^ n mod 2 ^ m)"
proof -
  have "unat w < 4294967296" using unsigned_less [of w, where 'a = nat] by simp
  then have "unat (take_bit m (drop_bit n w)) = unat w div 2 ^ n mod 2 ^ m"
    by (simp add: unsigned_take_bit_eq unsigned_drop_bit_eq take_bit_nat_def drop_bit_nat_def)
  then show ?thesis by (metis of_nat_unat)
qed

lemma signature_fields:
  assumes "st < 16" "mo < 16" "fa < 16" "xm < 16" "xf < (256 :: nat)"
  defines "w \<equiv> of_nat st + 16 * of_nat mo + 256 * of_nat fa + 65536 * of_nat xm + 1048576 * of_nat xf :: u32"
  shows "(ucast (w AND 0xF) :: u8) = of_nat st" "(ucast (drop_bit 4 w AND 0xF) :: u8) = of_nat mo"
    "(ucast (drop_bit 8 w AND 0xF) :: u8) = of_nat fa" "(ucast (drop_bit 16 w AND 0xF) :: u8) = of_nat xm"
    "(ucast (drop_bit 20 w AND 0xFF) :: u8) = of_nat xf"
proof -
  let ?w = "of_nat st + 16 * of_nat mo + 256 * of_nat fa + 65536 * of_nat xm + 1048576 * of_nat xf :: u32"
  let ?n = "st + 16 * mo + 256 * fa + 65536 * xm + 1048576 * xf"
  have "?n < 2 ^ 32" using assms(1-5) by simp
  then have "unat (of_nat ?n :: u32) = ?n" by (subst unat_of_nat) simp
  moreover have w0: "?w = of_nat ?n" by simp
  ultimately have w: "unat ?w = ?n" by (simp only:)
  let ?n1 = "mo + 16 * (fa + 256 * (xm + 16 * xf))"
  have d: "r < m \<Longrightarrow> (r + m * q) div m = q" "r < m \<Longrightarrow> (r + m * q) mod m = r" for r m q :: nat by simp_all
  have n: "?n = st + 16 * ?n1" by simp
  have n1: "?n div 16 = ?n1" unfolding n by (rule d(1) [OF assms(1)])
  have n2: "?n div 256 = fa + 256 * (xm + 16 * xf)"
    using div_mult2_eq [of ?n 16 16] n1 d(1) [OF assms(2), of "fa + 256 * (xm + 16 * xf)"] by simp
  have n3: "?n div 65536 = xm + 16 * xf"
    using div_mult2_eq [of ?n 256 256] n2 d(1) [of fa 256 "xm + 16 * xf"] assms(3) by simp
  have n4: "?n div 1048576 = xf"
    using div_mult2_eq [of ?n 65536 16] n3 d(1) [OF assms(4), of xf] by simp
  have "?n mod 16 = st" unfolding n by (rule d(2) [OF assms(1)])
  moreover have "?n div 16 mod 16 = mo" unfolding n1 by (rule d(2) [OF assms(2)])
  moreover have "?n div 256 mod 16 = fa"
  proof -
    have "fa + 256 * (xm + 16 * xf) = fa + 16 * (16 * (xm + 16 * xf))" by simp
    then show ?thesis unfolding n2 using d(2) [OF assms(3)] by metis
  qed
  moreover have "?n div 65536 mod 16 = xm" unfolding n3 by (rule d(2) [OF assms(4)])
  moreover have "?n div 1048576 mod 256 = xf" unfolding n4 using assms(5) by simp
  ultimately have f: "?n mod 16 = st" "?n div 16 mod 16 = mo" "?n div 256 mod 16 = fa" "?n div 65536 mod 16 = xm"
    "?n div 1048576 mod 256 = xf" by blast+
  define n where "n = ?n"
  note f' = f [folded n_def] and uw = w [folded w_def n_def]
  show "(ucast (w AND 0xF) :: u8) = of_nat st" "(ucast (drop_bit 4 w AND 0xF) :: u8) = of_nat mo"
    "(ucast (drop_bit 8 w AND 0xF) :: u8) = of_nat fa" "(ucast (drop_bit 16 w AND 0xF) :: u8) = of_nat xm"
    "(ucast (drop_bit 20 w AND 0xFF) :: u8) = of_nat xf"
    unfolding nibble octet using field_of [of 4 0 w] field_of [of 4 4 w] field_of [of 4 8 w]
      field_of [of 4 16 w] field_of [of 8 20 w] f' by (simp_all add: uw)
qed

section \<open>Properties\<close>

text \<open>
  C34. A processor that reports the vendor string \<open>v\<close> and the brand string \<open>b\<close> as the manuals say (the
  vendor in \<open>ebx\<close>, \<open>edx\<close>, \<open>ecx\<close>) and a signature with the given family, model and stepping:
  \<open>get_cpu_capabilities\<close> recovers all of it, the strings with their terminator.
\<close>

theorem cpu_info_spec:
  assumes "length v = 12" "length b = 48" "length (vendor c) = 13" "length (brand_string c) = 49" "length (features c) = 4"
    and "cpuid 0 = (e, reg_of v 0, reg_of v 8, reg_of v 4)"
    and "cpuid 0x80000002 = (reg_of b 0, reg_of b 4, reg_of b 8, reg_of b 12)"
    and "cpuid 0x80000003 = (reg_of b 16, reg_of b 20, reg_of b 24, reg_of b 28)"
    and "cpuid 0x80000004 = (reg_of b 32, reg_of b 36, reg_of b 40, reg_of b 44)"
    and "cpuid 1 = (of_nat st + 16 * of_nat mo + 256 * of_nat fa + 65536 * of_nat xm + 1048576 * of_nat xf, ebx, ecx, edx)"
    and "st < 16" "mo < 16" "fa < 16" "xm < 16" "xf < 256"
  shows "\<exists>f. get_cpu_capabilities cpuid c = \<lparr>vendor = v @ [0], brand_string = b @ [0], family = of_nat fa,
    cpu_model = of_nat mo, stepping = of_nat st, ext_family = of_nat xf, ext_model = of_nat xm, features = f\<rparr> \<and>
    f ! 0 = edx \<and> f ! 1 = ecx"
proof -
  define w where "w = (of_nat st + 16 * of_nat mo + 256 * of_nat fa + 65536 * of_nat xm + 1048576 * of_nat xf :: u32)"
  note sig = signature_fields [OF assms(11-15), folded w_def]
  have v: "(put4 8 (reg_of v 8) (put4 4 (reg_of v 4) (put4 0 (reg_of v 0) (vendor c))))[12 := 0] = v @ [0]"
  proof (rule take_update_end)
    have 1: "take 4 (put4 0 (reg_of v 0) (vendor c)) = take 4 v" using put4_next [of 0 v "vendor c"] assms(1,3) by simp
    have 2: "take 8 (put4 4 (reg_of v 4) (put4 0 (reg_of v 0) (vendor c))) = take 8 v"
      using put4_next [of 4 v "put4 0 (reg_of v 0) (vendor c)"] 1 assms(1,3) by simp
    show "take 12 (put4 8 (reg_of v 8) (put4 4 (reg_of v 4) (put4 0 (reg_of v 0) (vendor c)))) = take 12 v"
      using put4_next [of 8 v "put4 4 (reg_of v 4) (put4 0 (reg_of v 0) (vendor c))"] 2 assms(1,3) by simp
  qed (use assms(1,3) in simp_all)
  let ?b1 = "get_brand_part (cpuid 0x80000002) 0 (brand_string c)"
  let ?b2 = "get_brand_part (cpuid 0x80000003) 16 ?b1"
  have b1: "take 16 ?b1 = take 16 b" "length ?b1 = 49"
    using brand_part_next [of 0 b "brand_string c" "cpuid 0x80000002"] assms(2,4,7) by simp_all
  have b2: "take 32 ?b2 = take 32 b" "length ?b2 = 49"
    using brand_part_next [of 16 b ?b1 "cpuid 0x80000003"] b1 assms(2,8) by simp_all
  have b3: "(get_brand_part (cpuid 0x80000004) 32 ?b2)[48 := 0] = b @ [0]"
    by (rule take_update_end) (use brand_part_next [of 32 b ?b2 "cpuid 0x80000004"] b2 assms(2,9) in simp_all)
  have "get_cpu_capabilities cpuid c = \<lparr>vendor = v @ [0], brand_string = b @ [0], family = of_nat fa,
    cpu_model = of_nat mo, stepping = of_nat st, ext_family = of_nat xf, ext_model = of_nat xm,
    features = (features c)[0 := edx, 1 := ecx]\<rparr>"
    using v b3 sig assms(6) assms(10) [folded w_def]
    by (simp add: get_cpu_capabilities_def get_signature_def get_brand_def get_vendor_def Let_def)
  then show ?thesis using assms(5) by simp
qed


definition sample_vendor :: "u8 list" where
  "sample_vendor = [71, 101, 110, 117, 105, 110, 101, 73, 110, 116, 101, 108]"

definition sample_brand :: "u8 list" where "sample_brand = replicate 48 65"

definition sample_cpuid :: cpuid_fun where
  "sample_cpuid n =
     (if n = 0 then (0x16, reg_of sample_vendor 0, reg_of sample_vendor 8, reg_of sample_vendor 4)
      else if n = 1 then (0x906ED, 0, 0, 0x1000000)
      else let i = 16 * (unat n - 0x80000002) in
        (reg_of sample_brand i, reg_of sample_brand (i + 4), reg_of sample_brand (i + 8), reg_of sample_brand (i + 12)))"

theorem cpu_info_spec_witness:
  "\<exists>f. get_cpu_capabilities sample_cpuid \<lparr>vendor = replicate 13 0, brand_string = replicate 49 0, family = 0,
      cpu_model = 0, stepping = 0, ext_family = 0, ext_model = 0, features = replicate 4 0\<rparr> =
    \<lparr>vendor = [71, 101, 110, 117, 105, 110, 101, 73, 110, 116, 101, 108, 0], brand_string = replicate 48 65 @ [0],
     family = 6, cpu_model = 14, stepping = 13, ext_family = 0, ext_model = 9, features = f\<rparr> \<and> f ! 0 = 0x1000000 \<and> f ! 1 = 0"
  using cpu_info_spec [of sample_vendor sample_brand "\<lparr>vendor = replicate 13 0, brand_string = replicate 49 0, family = 0,
      cpu_model = 0, stepping = 0, ext_family = 0, ext_model = 0, features = replicate 4 0\<rparr>" sample_cpuid "0x16"
      13 14 6 9 0 0 0 "0x1000000"]
  by (simp add: sample_cpuid_def sample_vendor_def sample_brand_def)

end
