(* ===== verification/Panic.thy ===== *)
theory Panic
  imports Tty CString
begin

text \<open>
  The panic screen, \<open>trigger_psod\<close> of \<open>utils/error.c\<close>, and the logger, \<open>log\<close> of \<open>utils/log.c\<close>. Everywhere
  else in the development a call of \<open>trigger_psod\<close> is the fault \<open>Psod\<close> with its code; here is what
  it does before it halts: it stops the timer, prints, and walks the stack. A call of the vendored
  \<open>printf\<close> or \<open>dprintf\<close> is kept as its format string and arguments.
\<close>

section \<open>The code\<close>

definition errors :: "string list" where
  "errors = [''HN_ERR_DE'', ''HN_ERR_DB'', ''HN_ERR_NMI'', ''HN_ERR_BP'', ''HN_ERR_OF'', ''HN_ERR_BR'',
     ''HN_ERR_UD'', ''HN_ERR_NM'', ''HN_ERR_DF'', ''HN_ERR_DEPRICATED'', ''HN_ERR_TS'', ''HN_ERR_NP'',
     ''HN_ERR_SS'', ''HN_ERR_GP'', ''HN_ERR_PF'', ''HN_ERR_RESERVED'', ''HN_ERR_MF'', ''HN_ERR_AC'',
     ''HN_ERR_MC'', ''HN_ERR_XM'', ''HN_ERR_VE'', ''HN_ERR_CP'', ''HN_ERR_RESERVED'', ''HN_ERR_RESERVED'',
     ''HN_ERR_RESERVED'', ''HN_ERR_RESERVED'', ''HN_ERR_RESERVED'', ''HN_ERR_RESERVED'', ''HN_ERR_HV'',
     ''HN_ERR_VC'', ''HN_ERR_SX'', ''HN_ERR_RESERVED'', ''HN_ERR_KERNEL_EXITED'', ''HN_ERR_NO_ACPI'',
     ''HN_ERR_NO_FB'', ''HN_ERR_OUT_OF_MEM'', ''HN_ERR_LAI_PANIC'', ''HN_ERR_NO_FS'']"

datatype printf_arg = Str string | Ptr ptr | Hex u64

type_synonym prints = "(string \<times> printf_arg list) list"

text \<open>What goes to the terminal (\<open>printf\<close>), to the serial line (\<open>dprintf\<close>) and to the logger (\<open>log_error\<close>).\<close>

record psod_screen =
  on_screen :: prints
  on_serial :: prints
  on_log :: prints

abbreviation (input) nl :: string where "nl \<equiv> [CHR 0x0A]"
abbreviation (input) BGCOL :: string where "BGCOL \<equiv> CHR 0x1B # ''[48;2;17;0;34m''"
abbreviation (input) FGCOL :: string where "FGCOL \<equiv> CHR 0x1B # ''[38;2;170;119;0m''"

text \<open>The four lines of registers and the error code; they are printed to both.\<close>

definition reg_dump :: "Registers \<Rightarrow> prints" where
  "reg_dump r =
     [(''RIP=0x%016llx ,RSP=0x%016llx ,CS =0x%016llx ,SS =0x%016llx'' @ nl,
        [Hex (rip r), Hex (rsp r), Hex (cs r), Hex (ss r)]),
      (''RAX=0x%016llx ,RBX=0x%016llx ,RCX=0x%016llx ,RDX=0x%016llx'' @ nl,
        [Hex (rax r), Hex (rbx r), Hex (rcx r), Hex (rdx r)]),
      (''RSI=0x%016llx ,RDI=0x%016llx ,RBP=0x%016llx ,R9 =0x%016llx'' @ nl,
        [Hex (rsi r), Hex (rdi r), Hex (rbp r), Hex (r9 r)]),
      (''R10=0x%016llx ,R11=0x%016llx ,R12=0x%016llx ,R13=0x%016llx'' @ nl,
        [Hex (r10 r), Hex (r11 r), Hex (r12 r), Hex (r13 r)]),
      (''R14=0x%016llx ,R15=0x%016llx ,ERROR_CODE=0x%016llx'' @ nl @ nl,
        [Hex (r14 r), Hex (r15 r), Hex (error r)])]"

text \<open>
  Without a frame the registers of the processor are read; the fields that are not read keep what
  \<open>junk\<close>, the uninitialised local, holds.
\<close>

definition read_registers :: "Registers \<Rightarrow> Registers \<Rightarrow> Registers" where
  "read_registers cpu junk =
     junk\<lparr>rax := rax cpu, rbx := rbx cpu, rcx := rcx cpu, rdx := rdx cpu, rdi := rdi cpu, rsi := rsi cpu,
       r8 := r8 cpu, r9 := r9 cpu, r10 := r10 cpu, r11 := r11 cpu, r12 := r12 cpu, r13 := r13 cpu,
       r14 := r14 cpu, r15 := r15 cpu, rsp := rsp cpu, rbp := rbp cpu, rip := rip cpu\<rparr>"

text \<open>The title: the background only with details, since the call after \<open>if (details)\<close> is the next statement.\<close>

definition psod_title :: "string \<Rightarrow> ptr \<Rightarrow> prints" where
  "psod_title name details =
     (if details \<noteq> NULL then [(BGCOL @ CHR 0x1B # ''[2J'', [])] else []) @
     [(FGCOL @ ''FUCKING HALT!'' @ nl, []), (''%s'' @ nl @ nl, [Str name])] @
     (if details \<noteq> NULL then [(''%s'' @ nl @ nl @ nl, [Ptr details])] else [])"

definition psod_fault_addr :: "nat \<Rightarrow> u64 \<Rightarrow> prints" where
  "psod_fault_addr error_code cr2 =
     (if error_code = 14 then [(''Faultig address: 0x%016llx'' @ nl @ nl, [Hex cr2])] else [])"

definition psod_log :: "string \<Rightarrow> ptr \<Rightarrow> nat \<Rightarrow> u64 \<Rightarrow> prints" where
  "psod_log name details error_code cr2 =
     [(''%s'' @ nl, [Str name])] @ (if details \<noteq> NULL then [(''%s'' @ nl, [Ptr details])] else []) @
     psod_fault_addr error_code cr2"

text \<open>
  The walk along the saved frame pointers: the loop ends at a return address outside the kernel, or
  never (\<open>None\<close>).
\<close>

partial_function (option) backtrace :: "'z machine_scheme \<Rightarrow> ptr \<Rightarrow> prints option" where
  "backtrace s fp =
     (if load64 s (fp + 8) \<le> hhdm_off s then Some []
      else Option.bind (backtrace s (load64 s fp)) (\<lambda>rest.
        Some ((''    [%.16lx]  <No SymbolTable LMAO>'', [Hex (load64 s (fp + 8))]) # rest)))"

text \<open>The screen and the state at the point where \<open>hcf\<close> halts the machine.\<close>

definition trigger_psod ::
    "nat \<Rightarrow> ptr \<Rightarrow> Registers option \<Rightarrow> Registers \<Rightarrow> Registers \<Rightarrow> u64 \<Rightarrow> 'z sched_scheme \<Rightarrow>
     (psod_screen, 'z sched_scheme) result option" where
  "trigger_psod error_code details fr cpu junk cr2 s =
     (let s = lapic_timer_stop s;
          r = (case fr of None \<Rightarrow> read_registers cpu junk | Some r \<Rightarrow> r) in
      if \<not> error_code < length errors then Some (Inl Oob)
      else
        let title = psod_title (errors ! error_code) details @ psod_fault_addr error_code cr2;
            logged = psod_log (errors ! error_code) details error_code cr2 in
        if rbp r < hhdm_off s then
          let line = (''NO backtrace sowwy(bad RBP)'' @ nl, [])
          in Some (Inr (\<lparr>on_screen = title @ reg_dump r @ [line], on_serial = reg_dump r @ [line], on_log = logged\<rparr>, s))
        else
          Option.bind (backtrace s (rbp r)) (\<lambda>bt.
            let lines = (''Backtrace:'' @ nl, []) # bt
            in Some (Inr (\<lparr>on_screen = title @ reg_dump r @ lines, on_serial = reg_dump r @ lines, on_log = logged\<rparr>, s))))"

section \<open>log\<close>

text \<open>
  The text is put together by the vendored \<open>vsnprintf\<close> and \<open>snprintf\<close>; \<open>fulbuf\<close> is the result. All
  levels go to the same line.
\<close>

definition level_ports :: "u32 list" where
  "level_ports = [COM1, COM1, COM1, COM1, COM1, COM1]"

primrec log_loop :: "u32 \<Rightarrow> u8 list \<Rightarrow> 'z iostate_scheme \<Rightarrow> 'z iostate_scheme option" where
  "log_loop port [] s = Some s"
| "log_loop port (c # rest) s =
     (if c = 0 then Some s else Option.bind (cereal_write c port s) (log_loop port rest))"

definition log_message :: "u8 \<Rightarrow> u8 list \<Rightarrow> 'z iostate_scheme \<Rightarrow> 'z iostate_scheme option" where
  "log_message level fulbuf s = log_loop (level_ports ! unat level) fulbuf s"

section \<open>The chain of frames\<close>

text \<open>
  \<open>frames_at s fp rips\<close>: from \<open>fp\<close> on the saved frame pointers lead through frames with these return
  addresses, all of them in the kernel, to one with a return address that is not.
\<close>

primrec frames_at :: "'z machine_scheme \<Rightarrow> ptr \<Rightarrow> u64 list \<Rightarrow> bool" where
  "frames_at s fp [] \<longleftrightarrow> load64 s (fp + 8) \<le> hhdm_off s"
| "frames_at s fp (a # as) \<longleftrightarrow> load64 s (fp + 8) = a \<and> hhdm_off s < a \<and> frames_at s (load64 s fp) as"

definition frame_line :: "u64 \<Rightarrow> string \<times> printf_arg list" where
  "frame_line a = (''    [%.16lx]  <No SymbolTable LMAO>'', [Hex a])"

lemma backtrace_frames: "frames_at s fp rips \<Longrightarrow> backtrace s fp = Some (map frame_line rips)"
proof (induction rips arbitrary: fp)
  case Nil
  then show ?case by (simp add: backtrace.simps [of s fp])
next
  case (Cons a as)
  then show ?case by (simp add: backtrace.simps [of s fp] frame_line_def not_le)
qed

lemma backtrace_returns: "backtrace s fp = Some out \<Longrightarrow> \<exists>rips. frames_at s fp rips \<and> out = map frame_line rips"
proof (induction rule: backtrace.raw_induct [rotated, consumes 1, case_names step])
  case (step bt s fp out)
  show ?case
  proof (cases "load64 s (fp + 8) \<le> hhdm_off s")
    case True
    then show ?thesis using step(2) by (intro exI [of _ "[]"]) simp
  next
    case False
    then obtain rest where r: "bt s (load64 s fp) = Some rest" "out = frame_line (load64 s (fp + 8)) # rest"
      using step(2) by (auto simp: frame_line_def bind_eq_Some_conv)
    obtain rips where "frames_at s (load64 s fp) rips" "rest = map frame_line rips" using step(1) [OF r(1)] by blast
    then show ?thesis using False r(2) by (intro exI [of _ "load64 s (fp + 8) # rips"]) (simp add: not_le)
  qed
qed


lemma frames_at_stop [simp]: "frames_at (lapic_timer_stop s) fp rips = frames_at s fp rips"
proof -
  have "load_bytes (lapic_timer_stop s) a n = load_bytes s a n" for a n
    by (induction n arbitrary: a) (simp_all add: load8_def lapic_timer_stop_def wreg_def)
  then have l: "load64 (lapic_timer_stop s) a = load64 s a" for a by (simp add: load64_def)
  moreover have "hhdm_off (lapic_timer_stop s) = hhdm_off s" by (simp add: lapic_timer_stop_def wreg_def)
  ultimately show ?thesis by (induction rips arbitrary: fp) simp_all
qed

section \<open>Properties\<close>

text \<open>
  C32. A panic with a frame whose \<open>rbp\<close> is a kernel address halts exactly if the chain of saved frame
  pointers leads out of the kernel; then the screen ends with the registers and the return addresses
  from the innermost on, the serial line gets the same, and the timer has been stopped. On a chain
  that never leaves the kernel it prints forever.
\<close>

theorem trigger_psod_spec:
  assumes "error_code < 38" "hhdm_off s \<le> rbp r"
  shows "case trigger_psod error_code details (Some r) cpu junk cr2 s of
      None \<Rightarrow> \<nexists>rips. frames_at s (rbp r) rips
    | Some (Inl e) \<Rightarrow> False
    | Some (Inr (scr, t)) \<Rightarrow> \<exists>rips title. frames_at s (rbp r) rips \<and> t = lapic_timer_stop s \<and>
        on_serial scr = reg_dump r @ (''Backtrace:'' @ nl, []) # map frame_line rips \<and>
        on_screen scr = title @ on_serial scr"
proof (cases "backtrace (lapic_timer_stop s) (rbp r)")
  case None
  then have "\<nexists>rips. frames_at s (rbp r) rips" using backtrace_frames [of "lapic_timer_stop s" "rbp r"] by fastforce
  then show ?thesis
    using assms None by (simp add: trigger_psod_def errors_def lapic_timer_stop_def wreg_def Let_def not_less)
next
  case (Some bt)
  obtain rips where "frames_at s (rbp r) rips" "bt = map frame_line rips"
    using backtrace_returns [OF Some] by auto
  then show ?thesis
    using assms Some
    by (auto simp: trigger_psod_def errors_def lapic_timer_stop_def wreg_def Let_def not_less)
qed

text \<open>The dump has no \<open>r8\<close>, and a frame that is its own caller is followed forever.\<close>

lemma reg_dump_r8: "reg_dump (r\<lparr>r8 := x\<rparr>) = reg_dump r"
  by (simp add: reg_dump_def)

lemma frames_cycle:
  assumes "load64 s fp = fp" "hhdm_off s < load64 s (fp + 8)"
  shows "\<not> frames_at s fp rips"
  using assms by (induction rips) auto


text \<open>Two frames on the stack, called from outside the kernel.\<close>

definition sample_stack :: "unit sched_scheme" where
  "sample_stack = (sample_sched [READY] 1 0 ())
     \<lparr>pmem := bytes_at 0x2000 [0x10, 0x20, 0, 0, 0, 0x80, 0xFF, 0xFF, 0x34, 0x12, 0, 0x80, 0xFF, 0xFF, 0xFF, 0xFF] (\<lambda>_. 0)\<rparr>"

lemma sample_stack_frames: "frames_at sample_stack 0xFFFF800000002000 [0xFFFFFFFF80001234]"
proof -
  note ev = load8_def sample_stack_def sample_sched_def v2p_def bytes_at_def
  have 8: "(8 :: nat) = Suc (Suc (Suc (Suc (Suc (Suc (Suc (Suc 0)))))))" by simp
  have "load_bytes sample_stack 0xFFFF800000002000 8 = [0x10, 0x20, 0, 0, 0, 0x80, 0xFF, 0xFF]"
    "load_bytes sample_stack 0xFFFF800000002008 8 = [0x34, 0x12, 0, 0x80, 0xFF, 0xFF, 0xFF, 0xFF]"
    "load_bytes sample_stack 0xFFFF800000002018 8 = [0, 0, 0, 0, 0, 0, 0, 0]"
    unfolding 8 load_bytes.simps by (simp_all add: ev)
  then show ?thesis by (simp add: load64_def sample_stack_def sample_sched_def)
qed

theorem trigger_psod_spec_witness:
  "\<exists>scr t. trigger_psod 35 NULL (Some (zero_regs\<lparr>rbp := 0xFFFF800000002000\<rparr>)) zero_regs zero_regs 0 sample_stack =
      Some (Inr (scr, t)) \<and>
    on_serial scr = reg_dump (zero_regs\<lparr>rbp := 0xFFFF800000002000\<rparr>) @
      [(''Backtrace:'' @ nl, []), frame_line 0xFFFFFFFF80001234]"
proof -
  have uniq: "map frame_line rips = [frame_line 0xFFFFFFFF80001234]" if "frames_at sample_stack 0xFFFF800000002000 rips" for rips
    using backtrace_frames [OF sample_stack_frames] backtrace_frames [OF that] by simp
  have "hhdm_off sample_stack \<le> rbp (zero_regs\<lparr>rbp := 0xFFFF800000002000\<rparr>)"
    by (simp add: sample_stack_def sample_sched_def)
  then show ?thesis
    using sample_stack_frames
      trigger_psod_spec [of 35 sample_stack "zero_regs\<lparr>rbp := 0xFFFF800000002000\<rparr>" NULL zero_regs zero_regs 0]
    by (auto simp: uniq simp del: frames_at.simps split: option.splits sum.splits)
qed

end
