(* ===== verification/Boot.thy ===== *)
theory Boot
  imports Dispatch Exec Gdt Lapic Cpu Panic
begin

text \<open>
  Start-up: what the boot loader hands over and the entry point \<open>_start\<close> of \<open>x86_64.c\<close>, here \<open>start\<close>, the font header of \<open>psf2.c\<close>,
  \<open>kmain\<close> of \<open>kernel.c\<close>, the three stages of \<open>wakeup.c\<close>, and the functions \<open>lailink.c\<close> gives to the
  vendored ACPI interpreter. The first process, \<open>gaia.c\<close>, is known by the address of \<open>gaia_main\<close>.
\<close>

section \<open>What the boot loader and the linker provide\<close>

record limine_file =
  file_address :: ptr
  file_size :: u64
  file_path :: ptr

text \<open>
  The responses of the boot loader, the addresses the linker assigns to functions, tables and string
  literals, the instruction \<open>cpuid\<close>, and the two functions of the vendored terminal that make a
  context for a framebuffer.
\<close>

record image =
  framebuffers :: "ptr list option"
  hhdm_offset :: u64
  modules :: "limine_file list"
  rsdp_address :: ptr
  memmap :: "memmap_entry list"
  stubs :: "nat \<Rightarrow> u64"
  gdt_address :: u64
  tss_addr :: u64
  kernel_stack :: u64
  gaia_main :: u64
  lit_gaia :: ptr
  lit_kfont :: ptr
  lit_initramfs :: ptr
  cpuid_of :: cpuid_fun
  uterus_fb_init :: "ptr \<Rightarrow> ptr \<Rightarrow> u32 \<Rightarrow> u32 \<Rightarrow> ptr"
  uterus_fb_simple_init :: "ptr \<Rightarrow> ptr"

text \<open>The fields of \<open>hn_data\<close> that no other component has, and the processor's registers.\<close>

record bootstate = fsstate +
  cpu_info :: CPUInfo
  cpu_state :: cpu_regs
  gdts :: gdt_state
  framebuffer :: ptr
  ut_ctx :: ptr

abbreviation (input) HN_ERR_KERNEL_EXITED :: nat where "HN_ERR_KERNEL_EXITED \<equiv> 32"
abbreviation (input) HN_ERR_NO_FB :: nat where "HN_ERR_NO_FB \<equiv> 34"
abbreviation (input) HN_ERR_LAI_PANIC :: nat where "HN_ERR_LAI_PANIC \<equiv> 36"

section \<open>psf2.c\<close>

definition psf2Hdr :: layout where
  "psf2Hdr = packed [(''magic'', 4), (''version'', 4), (''headerSize'', 4), (''flags'', 4), (''length'', 4),
     (''charSize'', 4), (''height'', 4), (''width'', 4)]"

lemma psf2_offsets [simp]:
  "offset_of psf2Hdr ''magic'' = 0" "offset_of psf2Hdr ''headerSize'' = 8" "offset_of psf2Hdr ''height'' = 24"
  "offset_of psf2Hdr ''width'' = 28"
  by (simp_all add: psf2Hdr_def layout_simps)

definition init_uterus_with_psf2_font :: "image \<Rightarrow> limine_file \<Rightarrow> ptr \<Rightarrow> 'z machine_scheme \<Rightarrow> ptr" where
  "init_uterus_with_psf2_font im psf2 fb s =
     (let hdr = file_address psf2;
          psf2buf = file_address psf2 + ucast (load32 s (field psf2Hdr ''headerSize'' hdr));
          magic = field psf2Hdr ''magic'' hdr in
      if load8 s magic \<noteq> 0x72 \<or> load8 s (magic + 1) \<noteq> 0xb5 \<or> load8 s (magic + 2) \<noteq> 0x4a \<or> load8 s (magic + 3) \<noteq> 0x86
      then NULL
      else uterus_fb_init im fb psf2buf (load32 s (field psf2Hdr ''width'' hdr)) (load32 s (field psf2Hdr ''height'' hdr)))"

section \<open>x86_64.c: the boot loader's responses\<close>

primrec load_modules_loop :: "image \<Rightarrow> limine_file list \<Rightarrow> 'z bootstate_scheme \<Rightarrow> 'z bootstate_scheme option" where
  "load_modules_loop im [] s = Some s"
| "load_modules_loop im (m # ms) s =
     Option.bind (strcmp s (file_path m) (lit_kfont im)) (\<lambda>c.
       if c = 0 then load_modules_loop im ms (s\<lparr>ut_ctx := init_uterus_with_psf2_font im m (framebuffer s) s\<rparr>)
       else Option.bind (strcmp s (file_path m) (lit_initramfs im)) (\<lambda>c.
         if c = 0 then load_modules_loop im ms (s\<lparr>initramfs := Some (file_address m, file_size m)\<rparr>)
         else load_modules_loop im ms s))"

definition load_limine_modules :: "image \<Rightarrow> 'z bootstate_scheme \<Rightarrow> 'z bootstate_scheme option" where
  "load_limine_modules im s =
     map_option (\<lambda>s. if ut_ctx s = NULL then s\<lparr>ut_ctx := uterus_fb_simple_init im (framebuffer s)\<rparr> else s)
       (load_modules_loop im (modules im) s)"

definition limine_initialize_globals :: "image \<Rightarrow> 'z bootstate_scheme \<Rightarrow> (unit, 'z bootstate_scheme) result option" where
  "limine_initialize_globals im s =
     (case framebuffers im of
        None \<Rightarrow> Some (Inl (Psod HN_ERR_NO_FB))
      | Some [] \<Rightarrow> Some (Inl (Psod HN_ERR_NO_FB))
      | Some (fb # fbs) \<Rightarrow>
          map_option (\<lambda>s. Inr ((), s)) (load_limine_modules im (s\<lparr>framebuffer := fb, hhdm_off := hhdm_offset im\<rparr>)))"

section \<open>wakeup.c and kernel.c\<close>

definition wakeup_init_hw :: "image \<Rightarrow> 'z fsstate_scheme \<Rightarrow> (unit, 'z fsstate_scheme) result option" where
  "wakeup_init_hw im s =
     and_then (Some (pmm_init (memmap im) s)) (\<lambda>_ s.
     and_then (Some (tty_register \<lparr>out_type = 2, out_port = 0, in_type = 0, in_port = 0, lock = 0\<rparr> s)) (\<lambda>_ s.
       tar_init (siv_init s)))"

definition wakeup_do_mounts :: "'z fsstate_scheme \<Rightarrow> (unit, 'z fsstate_scheme) result" where
  "wakeup_do_mounts s = (if siv_num_drives s = 0 then Inl (Psod HN_ERR_NO_FS) else Inr ((), s))"

definition wakeup_startup :: "image \<Rightarrow> 'z sched_scheme \<Rightarrow> (unit, 'z sched_scheme) result" where
  "wakeup_startup im s =
     then_do (execute (lit_gaia im) (gaia_main im) False s) (\<lambda>_ s. Inr ((), raise_int 32 s))"

text \<open>\<open>kmain\<close> up to its endless loop, and with it.\<close>

definition kernel_up :: "image \<Rightarrow> 'z fsstate_scheme \<Rightarrow> (unit, 'z fsstate_scheme) result option" where
  "kernel_up im s =
     and_then (wakeup_init_hw im s) (\<lambda>_ s.
     and_then (Some (wakeup_do_mounts s)) (\<lambda>_ s. Some (wakeup_startup im s)))"

definition kmain :: "image \<Rightarrow> 'z fsstate_scheme \<Rightarrow> (unit, 'z fsstate_scheme) result option" where
  "kmain im s = and_then (kernel_up im s) (\<lambda>_ s. None)"

section \<open>x86_64.c: the entry point\<close>

definition start_cpu :: "image \<Rightarrow> 'z bootstate_scheme \<Rightarrow> 'z bootstate_scheme" where
  "start_cpu im s =
     (let s = snd (cereal_init s);
          s = disable_interrupts s;
          s = s\<lparr>cpu_info := get_cpu_capabilities (cpuid_of im) (cpu_info s)\<rparr>;
          s = s\<lparr>cpu_state := snd (sys_init_fpu (cpuid_of im) (cpu_state s))\<rparr>
      in s\<lparr>gdts := gdt_init (gdt_address im) (tss_addr im) (kernel_stack im) (gdts s)\<rparr>)"

definition start_interrupts :: "image \<Rightarrow> 'z bootstate_scheme \<Rightarrow> (unit, 'z bootstate_scheme) result option" where
  "start_interrupts im s =
     (let s = s\<lparr>hn_pagemap := vmm_get_pagemap s\<rparr> in
      and_then (Some (initialize_interrupts (stubs im) s)) (\<lambda>_ s.
      and_then (lapic_init s) (\<lambda>_ s.
        let s = snd (ioapic_init s);
            s = enable_interrupts s
        in and_then (Some (ps2_init s)) (\<lambda>_ s. Some (cisrs_register s)))))"

definition start :: "image \<Rightarrow> 'z bootstate_scheme \<Rightarrow> (unit, 'z bootstate_scheme) result option" where
  "start im s =
     and_then (limine_initialize_globals im s) (\<lambda>_ s.
       let s = start_cpu im s;
           (ok, s) = find_rsdt (rsdp_address im) s
       in if \<not> ok then Some (Inl (Psod HN_ERR_NO_ACPI))
          else and_then (start_interrupts im s) (\<lambda>_ s.
               and_then (kmain im s) (\<lambda>_ s. Some (Inl (Psod HN_ERR_KERNEL_EXITED)))))"

section \<open>lailink.c\<close>

definition laihost_malloc :: "usize \<Rightarrow> 'z pmm_scheme \<Rightarrow> (ptr, 'z pmm_scheme) result" where
  "laihost_malloc sz s = malloc sz s"

definition laihost_realloc :: "ptr \<Rightarrow> usize \<Rightarrow> usize \<Rightarrow> 'z pmm_scheme \<Rightarrow> (ptr, 'z pmm_scheme) result" where
  "laihost_realloc old newsize oldsize s = realloc_plus old newsize oldsize s"

definition laihost_free :: "ptr \<Rightarrow> usize \<Rightarrow> 'z pmm_scheme \<Rightarrow> 'z pmm_scheme" where
  "laihost_free tofree sz s = free tofree s"

definition laihost_panic :: "ptr \<Rightarrow> (unit, 'z pmm_scheme) result" where
  "laihost_panic msg = Inl (Psod HN_ERR_LAI_PANIC)"

definition laihost_scan :: "u8 list \<Rightarrow> usize \<Rightarrow> 'z acpistate_scheme \<Rightarrow> ptr" where
  "laihost_scan sg index s = find_nth_SDT s sg index"

definition laihost_outb :: "u16 \<Rightarrow> u8 \<Rightarrow> 'z iostate_scheme \<Rightarrow> 'z iostate_scheme" where
  "laihost_outb port v = outb8 port v"

definition laihost_outw :: "u16 \<Rightarrow> u16 \<Rightarrow> 'z iostate_scheme \<Rightarrow> 'z iostate_scheme" where
  "laihost_outw port v = outb16 port v"

definition laihost_outd :: "u16 \<Rightarrow> u32 \<Rightarrow> 'z iostate_scheme \<Rightarrow> 'z iostate_scheme" where
  "laihost_outd port v = outb32 port v"

definition laihost_inb :: "u16 \<Rightarrow> 'z iostate_scheme \<Rightarrow> u8 \<times> 'z iostate_scheme" where
  "laihost_inb port = inb8 port"

definition laihost_inw :: "u16 \<Rightarrow> 'z iostate_scheme \<Rightarrow> u16 \<times> 'z iostate_scheme" where
  "laihost_inw port = inb16 port"

definition laihost_ind :: "u16 \<Rightarrow> 'z iostate_scheme \<Rightarrow> u32 \<times> 'z iostate_scheme" where
  "laihost_ind port = inb32 port"

section \<open>The boot modules\<close>

text \<open>The last module with a path, with its address and size.\<close>

definition module_at :: "limine_file list \<Rightarrow> u8 list list \<Rightarrow> u8 list \<Rightarrow> limine_file option" where
  "module_at ms paths p = map_option fst (find (\<lambda>(m, q). q = p) (rev (zip ms paths)))"

lemma module_at_Cons:
  "module_at (m # ms) (q # paths) p =
     (case module_at ms paths p of None \<Rightarrow> if q = p then Some m else None | Some x \<Rightarrow> Some x)"
proof -
  have "find P (xs @ [x]) = (case find P xs of None \<Rightarrow> if P x then Some x else None | Some y \<Rightarrow> Some y)"
    for P and xs :: "(limine_file \<times> u8 list) list" and x by (induction xs) auto
  then show ?thesis by (auto simp: module_at_def split: option.splits)
qed

definition literals_ok :: "image \<Rightarrow> 'z machine_scheme \<Rightarrow> bool" where
  "literals_ok im s \<longleftrightarrow> cstr s (lit_kfont im) (lit ''/boot/kfont.psf'') \<and> cstr s (lit_initramfs im) (lit ''/boot/initramfs.tar'')"

lemma cstr_more:
  assumes "cstr s a xs" "pmem t = pmem s" "hhdm_off t = hhdm_off s"
  shows "cstr t a xs"
  by (rule cstr_cong [OF assms(1)]) (simp add: load_bytes_map load8_def assms(2,3) del: load_bytes.simps)

definition keeps_machine :: "'z machine_scheme \<Rightarrow> 'z machine_scheme \<Rightarrow> bool" where
  "keeps_machine s t \<longleftrightarrow> pmem t = pmem s \<and> hhdm_off t = hhdm_off s"

lemma load_modules_loop_spec:
  fixes s :: "'z bootstate_scheme"
  assumes "literals_ok im s" "list_all2 (\<lambda>m q. cstr s (file_path m) q) ms paths"
  shows "\<exists>t. load_modules_loop im ms s = Some t \<and> keeps_machine s t \<and> siv_num_drives t = siv_num_drives s \<and>
    initramfs t = (case module_at ms paths (lit ''/boot/initramfs.tar'') of
      None \<Rightarrow> initramfs s | Some m \<Rightarrow> Some (file_address m, file_size m))"
  using assms
proof (induction ms arbitrary: s paths)
  case Nil
  then show ?case by (simp add: keeps_machine_def module_at_def)
next
  case (Cons m ms)
  obtain q qs where p: "paths = q # qs" "cstr s (file_path m) q" "list_all2 (\<lambda>m q. cstr s (file_path m) q) ms qs"
    using Cons.prems(2) by (auto simp: list_all2_Cons1)
  have ne: "lit ''/boot/kfont.psf'' \<noteq> lit ''/boot/initramfs.tar''" by (simp add: lit_def)
  have eq: "strcmp s (file_path m) (lit_kfont im) = Some (str_order q (lit ''/boot/kfont.psf''))"
    "strcmp s (file_path m) (lit_initramfs im) = Some (str_order q (lit ''/boot/initramfs.tar''))"
    using strcmp_cstr [OF p(2)] Cons.prems(1) by (simp_all add: literals_ok_def)
  define s1 where "s1 = (if q = lit ''/boot/kfont.psf''
    then s\<lparr>ut_ctx := init_uterus_with_psf2_font im m (framebuffer s) s\<rparr>
    else if q = lit ''/boot/initramfs.tar'' then s\<lparr>initramfs := Some (file_address m, file_size m)\<rparr> else s)"
  have step: "load_modules_loop im (m # ms) s = load_modules_loop im ms s1"
    by (simp add: eq s1_def)
  have k: "pmem s1 = pmem s" "hhdm_off s1 = hhdm_off s" "siv_num_drives s1 = siv_num_drives s" by (simp_all add: s1_def)
  have "literals_ok im s1" using Cons.prems(1) cstr_more [OF _ k(1,2)] by (auto simp: literals_ok_def)
  moreover have "list_all2 (\<lambda>m q. cstr s1 (file_path m) q) ms qs"
    using p(3) by (rule list_all2_mono) (rule cstr_more [OF _ k(1,2)])
  ultimately obtain t where t: "load_modules_loop im ms s1 = Some t" "keeps_machine s1 t"
    "siv_num_drives t = siv_num_drives s1"
    "initramfs t = (case module_at ms qs (lit ''/boot/initramfs.tar'') of
      None \<Rightarrow> initramfs s1 | Some m \<Rightarrow> Some (file_address m, file_size m))" using Cons.IH by blast
  then show ?case
    using step k ne by (auto simp: keeps_machine_def p(1) module_at_Cons s1_def split: option.splits)
qed


section \<open>The first process\<close>

text \<open>Page tables and what they translate depend on memory and the page allocator only.\<close>

lemma pt_cong:
  fixes s t :: "'z pmm_scheme"
  assumes "pmm.truncate t = pmm.truncate s"
  shows "pt_ok t = pt_ok s" "translation t = translation s" "PHYS_TO_VIRT t = PHYS_TO_VIRT s" "VIRT_TO_PHYS t = VIRT_TO_PHYS s"
proof -
  have f: "pmem t = pmem s" "hhdm_off t = hhdm_off s" "total_mem t = total_mem s" "free_mem t = free_mem s"
    "used_mem t = used_mem s" "highest_block t = highest_block s" "page_bmp t = page_bmp s"
    using assms by (simp_all add: pmm.defs)
  have l: "load_bytes t a n = load_bytes s a n" for a n
    by (induction n arbitrary: a) (simp_all add: load8_def f)
  show pv: "PHYS_TO_VIRT t = PHYS_TO_VIRT s" "VIRT_TO_PHYS t = VIRT_TO_PHYS s"
    by (simp_all add: PHYS_TO_VIRT_def VIRT_TO_PHYS_def fun_eq_iff f)
  have e: "entry t = entry s" by (simp add: entry_def load64_def l pv fun_eq_iff)
  show "translation t = translation s" by (simp add: translation_def [abs_def] e)
  have "heap_ok t = heap_ok s" "nframes t = nframes s" by (simp_all add: heap_state_defs f)
  then show "pt_ok t = pt_ok s"
    by (simp add: pt_ok_def e table_ok_def table_page_def heap_state_defs f fun_eq_iff)
qed

text \<open>The first timer interrupt, with one process and nothing behind it in the table.\<close>

lemma first_schedule:
  fixes s :: "'z evstate_scheme"
  assumes "\<not> sched_running s" "length (processes s) = 64" "sched_num_procs s = 1" "sched_current_pid s = 0"
    and "state_flags (processes s ! 0) = READY" "state_flags (processes s ! 1) \<noteq> READY"
  obtains t where "schedule r s = Some (Inr (regs (processes s ! 0), t))"
    "pmm.truncate t = pmm.truncate s" "sched_running t" "sched_current_pid t = 0"
    "cr3 t = VIRT_TO_PHYS s (pagemap (processes s ! 0))"
    "sched.more t = sched.more s" "sched_inv t" "sched_num_procs t = 1"
    "state_flags (processes t ! 0) = READY" "state_flags (processes t ! 1) \<noteq> READY"
proof -
  let ?s = "s\<lparr>sched_running := True\<rparr>"
  have sl: "slots ?s = 2" "sched_ok ?s" using assms by (simp_all add: slots_def sched_ok_def)
  have np: "next_process ?s = Some (Inr (picked 0 2 ?s))"
  proof (rule next_process_finds)
    fix j :: nat assume "1 \<le> j" "j < 2"
    then have "j = 1" by simp
    then show "\<not> ready ?s ((0 + j) mod slots ?s)" using sl assms(6) by (simp add: ready_def)
  qed (use sl assms in \<open>simp_all add: ready_def\<close>)
  let ?u = "picked 0 2 ?s"
  have u: "sched_current_pid ?u = 0" "processes ?u ! 0 = processes s ! 0"
    using sl assms(2,5) by (auto simp: picked_def nth_reap_list)
  let ?t = "(lapic_eoi (lapic_timer_oneshot 5 32 ?u))\<lparr>cr3 := VIRT_TO_PHYS ?u (pagemap (processes s ! 0))\<rparr>"
  have "schedule r s = Some (Inr (regs (processes s ! 0), ?t))"
    using assms(1) np u by (simp add: schedule_def Let_def timer_defs VIRT_TO_PHYS_def)
  moreover have "pmm.truncate ?t = pmm.truncate s" by (simp add: picked_def timer_defs wreg_def pmm.defs)
  moreover have "sched_running ?t" by (simp add: picked_def timer_defs)
  moreover have "sched_current_pid ?t = 0" using u(1) by (simp add: timer_defs)
  moreover have "cr3 ?t = VIRT_TO_PHYS s (pagemap (processes s ! 0))" by (simp add: picked_def timer_defs VIRT_TO_PHYS_def)
  moreover have "sched.more ?t = sched.more s" by (simp add: picked_def timer_defs wreg_def)
  moreover have "sched_num_procs ?t = 1" "length (processes ?t) = 64"
    using assms(2,3) by (simp_all add: picked_def timer_defs)
  moreover from this have "sched_inv ?t"
    using u(1) by (simp add: sched_inv_def sched_ok_def slots_def timer_defs picked_def)
  moreover have "state_flags (processes ?t ! 0) = READY" using u(2) assms(5) by (simp add: timer_defs)
  moreover have "state_flags (processes ?t ! 1) \<noteq> READY"
    using assms(2,6) by (auto simp: picked_def timer_defs nth_reap_list zero_process_def)
  ultimately show thesis using that by metis
qed

text \<open>The tables as the program starts with; one process, which the scheduler runs.\<close>

definition tables_fresh :: "'z kbstate_scheme \<Rightarrow> bool" where
  "tables_fresh s \<longleftrightarrow> processes s = replicate 64 zero_process \<and> sched_num_procs s = 0 \<and> sched_current_pid s = 0 \<and>
     \<not> sched_running s \<and> length (events s) = 64 \<and> num_events s = 0 \<and> (\<exists>shift. in_state shift (keyboard s))"

definition alone :: "'z kbstate_scheme \<Rightarrow> bool" where
  "alone s \<longleftrightarrow> kernel_inv s \<and> sched_num_procs s = 1 \<and> sched_current_pid s = 0 \<and>
     state_flags (processes s ! 0) = READY \<and> state_flags (processes s ! 1) \<noteq> READY"

text \<open>The state between \<open>wakeup_startup\<close> and the first interrupt, and that interrupt.\<close>

definition launched :: "'z kbstate_scheme \<Rightarrow> bool" where
  "launched s \<longleftrightarrow> \<not> sched_running s \<and> length (processes s) = 64 \<and> sched_num_procs s = 1 \<and> sched_current_pid s = 0 \<and>
     state_flags (processes s ! 0) = READY \<and> state_flags (processes s ! 1) \<noteq> READY \<and>
     handlers_ok s \<and> evs_ok s \<and> (\<exists>shift. in_state shift (keyboard s))"

lemma launch:
  fixes s :: "'z kbstate_scheme"
  assumes "launched s" "interrupt r = 32"
  obtains t where "ISR_Handler r s = Some (Inr (regs (processes s ! 0), t))" "alone t"
    "pmm.truncate t = pmm.truncate s" "sched.more t = sched.more s" "cr3 t = VIRT_TO_PHYS s (pagemap (processes s ! 0))"
proof -
  note l = assms(1) [unfolded launched_def]
  define k where "k = s\<lparr>cr3 := hn_pagemap s\<rparr>"
  have f: "\<not> sched_running k" "length (processes k) = 64" "sched_num_procs k = 1" "sched_current_pid k = 0"
    "state_flags (processes k ! 0) = READY" "state_flags (processes k ! 1) \<noteq> READY"
    "pmm.truncate k = pmm.truncate s" "sched.more k = sched.more s" "processes k = processes s"
    using l by (simp_all add: k_def pmm.defs)
  obtain t where t: "schedule r k = Some (Inr (regs (processes k ! 0), t))"
    "pmm.truncate t = pmm.truncate k" "sched_running t" "sched_current_pid t = 0"
    "cr3 t = VIRT_TO_PHYS k (pagemap (processes k ! 0))" "sched.more t = sched.more k" "sched_inv t"
    "sched_num_procs t = 1" "state_flags (processes t ! 0) = READY" "state_flags (processes t ! 1) \<noteq> READY"
    by (rule first_schedule [OF f(1-6)])
  have tr: "pmm.truncate t = pmm.truncate s" "sched.more t = sched.more s" using t(2,6) f(7,8) by simp_all
  have "ISRHandlers t = ISRHandlers s" "events t = events s" "num_events t = num_events s" "keyboard t = keyboard s"
    using tr(2) by (cases t; cases s; simp)+
  then have "alone t"
    using l t(4,7-10) evs_ok_cong(1) [OF tr(1)] by (simp add: alone_def kernel_inv_def handlers_ok_def)
  moreover have "ISR_Handler r s = Some (Inr (regs (processes s ! 0), t))"
    using ISR_Handler_cases(2) [of s r] l assms(2) t(1) f(9) by (simp add: k_def)
  moreover have "cr3 t = VIRT_TO_PHYS s (pagemap (processes s ! 0))" using t(5) by (simp add: k_def VIRT_TO_PHYS_def)
  ultimately show thesis using that tr by blast
qed

text \<open>What \<open>wakeup_startup\<close> leaves: the process in slot 0, at \<open>gaia_main\<close> on a stack and a page map of its own.\<close>

definition gaia_made :: "image \<Rightarrow> u64 \<Rightarrow> 'z sched_scheme \<Rightarrow> bool" where
  "gaia_made im stack s \<longleftrightarrow> regs (processes s ! 0) = initial_regs (gaia_main im) stack False \<and>
     (\<exists>r. pagemap (processes s ! 0) = PHYS_TO_VIRT s r \<and> pt_ok s r (\<lambda>i. i < 256) \<and>
        (\<forall>k < 2. translation s r (stack + of_nat k * PAGE_SIZE) =
          Some ((stack + of_nat k * PAGE_SIZE) OR transform_flags (FLAGS_R OR FLAGS_W OR FLAGS_U))))"

lemma startup_launches:
  fixes s :: "'z kbstate_scheme"
  assumes "heap_ok s" "4096 * nframes s \<le> 2 ^ 47" "Pager.table_ok s (hn_pagemap s)" "handlers_ok s" "tables_fresh s"
    and "wakeup_startup im s = Inr (x, t)"
  shows "launched t \<and> (\<exists>stack. gaia_made im stack t) \<and> soft_ints t = soft_ints s @ [32] \<and> num_events t = 0 \<and> g_IDT t = g_IDT s \<and>
    page_bmp t = page_bmp s \<and> hhdm_off t = hhdm_off s \<and> evstate.more t = evstate.more s \<and>
    (\<forall>q. settled s q \<longrightarrow> settled t q \<and> pmem t q = pmem s q)"
proof -
  note fresh = assms(5) [unfolded tables_fresh_def]
  then have sz: "length (processes s) = 64" "sched_num_procs s < 64" by simp_all
  obtain w where w: "execute (lit_gaia im) (gaia_main im) False s = Inr ((), w)" and t: "t = raise_int 32 w"
    using assms(6) by (auto simp: wakeup_startup_def then_do_Inr_iff)
  obtain r stack pm s3 where e: "pmm.more s3 = pmm.more s" "pt_ok w r (\<lambda>i. i < 256)" "pm = PHYS_TO_VIRT w r"
    "w = s3\<lparr>processes := (processes s)[unat (sched_num_procs s) := (processes s ! unat (sched_num_procs s))
       \<lparr>pname := lit_gaia im, regs := initial_regs (gaia_main im) stack False, pagemap := pm, state_flags := READY\<rparr>],
     sched_num_procs := sched_num_procs s + 1\<rparr>"
    "\<And>k. k < 2 \<Longrightarrow> translation w r (stack + of_nat k * 4096) =
       Some ((stack + of_nat k * 4096) OR transform_flags (FLAGS_R OR FLAGS_W OR FLAGS_U))"
    "\<And>q. q \<notin> bmp_region (page_bmp s) s \<Longrightarrow> frame q \<in> used_frames s \<Longrightarrow> spared w r (\<lambda>i. i < 256) q \<and> pmem w q = pmem s q"
    using execute_Inr [OF assms(1-3) sz w] by metis
  have more: "sched_current_pid s3 = 0" "\<not> sched_running s3" "soft_ints s3 = soft_ints s" "ISRHandlers s3 = ISRHandlers s"
    "events s3 = events s" "num_events s3 = num_events s" "keyboard s3 = keyboard s" "g_IDT s3 = g_IDT s"
    "evstate.more s3 = evstate.more s"
    using e(1) fresh by (cases s; cases s3; simp)+
  have p: "processes t ! 0 = zero_process\<lparr>pname := lit_gaia im, regs := initial_regs (gaia_main im) stack False,
      pagemap := pm, state_flags := READY\<rparr>" "length (processes t) = 64" "state_flags (processes t ! 1) \<noteq> READY"
    using fresh by (simp_all add: t raise_int_def e(4) zero_process_def)
  have tw: "pmm.truncate t = pmm.truncate w" by (simp add: t raise_int_def pmm.defs)
  then have same: "pt_ok t = pt_ok w" "translation t = translation w" "PHYS_TO_VIRT t = PHYS_TO_VIRT w"
    using pt_cong [of t w] by simp_all
  then have "heap_ok t" using e(2) by (auto simp: pt_ok_def fun_eq_iff)
  moreover have q: "\<not> sched_running t" "sched_num_procs t = 1" "sched_current_pid t = 0" "state_flags (processes t ! 0) = READY"
    "events t = events s" "num_events t = 0" "keyboard t = keyboard s" "handlers_ok t" "g_IDT t = g_IDT s"
    "soft_ints t = soft_ints s @ [32]" "evstate.more t = evstate.more s"
    using more p(1) fresh assms(4) by (simp_all add: t raise_int_def e(4) handlers_ok_def)
  ultimately have "launched t" using p fresh evs_ok_empty [of t] by (simp add: launched_def)
  moreover have "gaia_made im stack t" unfolding gaia_made_def same using p(1) e(2,3,5) by auto
  moreover have "pmm_ok s" using assms(1) by (simp add: heap_ok_def pmm_inv_def)
  then have "page_bmp t = page_bmp s" "hhdm_off t = hhdm_off s"
    using execute_same [OF w] by (simp_all add: t raise_int_def)
  moreover have "settled t q \<and> pmem t q = pmem s q" if "settled s q" for q
    using e(6) [of q] that by (auto simp: settled_def spared_def t raise_int_def heap_state_defs)
  ultimately show ?thesis using q by blast
qed

lemma startup_error:
  assumes "heap_ok s" "4096 * nframes s \<le> 2 ^ 47" "Pager.table_ok s (hn_pagemap s)" "tables_fresh s" "wakeup_startup im s = Inl e"
  shows "e = Psod HN_ERR_OUT_OF_MEM"
  using assms(4,5) execute_error [OF _ _ assms(1-3), of "lit_gaia im" "gaia_main im" False e]
  by (auto simp: wakeup_startup_def tables_fresh_def then_do_def split: sum.splits)

text \<open>The page map that interrupt loads is the one of the process.\<close>

lemma gaia_entered:
  fixes s t :: "'z sched_scheme"
  assumes "gaia_made im stack s" "pmm.truncate t = pmm.truncate s" "cr3 t = VIRT_TO_PHYS s (pagemap (processes s ! 0))"
  shows "pt_ok t (cr3 t) (\<lambda>i. i < 256) \<and> (\<forall>k < 2. translation t (cr3 t) (stack + of_nat k * PAGE_SIZE) =
    Some ((stack + of_nat k * PAGE_SIZE) OR transform_flags (FLAGS_R OR FLAGS_W OR FLAGS_U)))"
  using assms pt_cong(1,2) [OF assms(2)] by (auto simp: gaia_made_def)

text \<open>
  The first process: \<open>wakeup_startup\<close> makes it and raises interrupt 32; the handler of that interrupt
  then returns to \<open>gaia_main\<close>, at the end of a stack of two pages, on the page map of the process, which
  maps both pages.
\<close>

lemma first_process:
  fixes s :: "'z kbstate_scheme"
  assumes "heap_ok s" "4096 * nframes s \<le> 2 ^ 47" "Pager.table_ok s (hn_pagemap s)" "handlers_ok s" "tables_fresh s"
  shows "case wakeup_startup im s of
      Inl e \<Rightarrow> e = Psod HN_ERR_OUT_OF_MEM
    | Inr (_, t) \<Rightarrow> soft_ints t = soft_ints s @ [32] \<and>
        (\<exists>r u stack. ISR_Handler (f\<lparr>interrupt := 32\<rparr>) t = Some (Inr (r, u)) \<and>
          r = initial_regs (gaia_main im) stack False \<and> alone u \<and> pt_ok u (cr3 u) (\<lambda>i. i < 256) \<and>
          (\<forall>k < 2. translation u (cr3 u) (stack + of_nat k * PAGE_SIZE) =
            Some ((stack + of_nat k * PAGE_SIZE) OR transform_flags (FLAGS_R OR FLAGS_W OR FLAGS_U))))"
proof (cases "wakeup_startup im s")
  case (Inl e)
  then show ?thesis using startup_error [OF assms(1-3,5)] by simp
next
  case (Inr x)
  obtain t where t: "wakeup_startup im s = Inr ((), t)" using Inr by (cases x) simp
  from startup_launches [OF assms t] obtain stack where
    l: "launched t" "gaia_made im stack t" "soft_ints t = soft_ints s @ [32]" by blast
  obtain u where u: "ISR_Handler (f\<lparr>interrupt := 32\<rparr>) t = Some (Inr (regs (processes t ! 0), u))" "alone u"
    "pmm.truncate u = pmm.truncate t" "sched.more u = sched.more t" "cr3 u = VIRT_TO_PHYS t (pagemap (processes t ! 0))"
    by (rule launch [OF l(1), of "f\<lparr>interrupt := 32\<rparr>"]) simp
  show ?thesis
    using u(1,2) l(3) gaia_entered [OF l(2) u(3,5)] l(2) by (auto simp: t gaia_made_def)
qed

section \<open>Properties\<close>

text \<open>
  The modules the boot loader passes: whatever their order, \<open>load_limine_modules\<close> returns, and the
  initial RAM disk is the last module with the path \<open>/boot/initramfs.tar\<close>, or as before if there is
  none.
\<close>

theorem load_limine_modules_spec:
  fixes s :: "'z bootstate_scheme"
  assumes "literals_ok im s" "list_all2 (\<lambda>m q. cstr s (file_path m) q) (modules im) paths"
  shows "\<exists>t. load_limine_modules im s = Some t \<and>
    initramfs t = (case module_at (modules im) paths (lit ''/boot/initramfs.tar'') of
      None \<Rightarrow> initramfs s | Some m \<Rightarrow> Some (file_address m, file_size m))"
proof -
  obtain t where "load_modules_loop im (modules im) s = Some t"
    "initramfs t = (case module_at (modules im) paths (lit ''/boot/initramfs.tar'') of
      None \<Rightarrow> initramfs s | Some m \<Rightarrow> Some (file_address m, file_size m))"
    using load_modules_loop_spec [OF assms] by blast
  then show ?thesis by (simp add: load_limine_modules_def)
qed

text \<open>
  C33. Without an initial RAM disk the kernel does not come up: \<open>kmain\<close> panics for want of a file
  system, after memory and the terminal have been set up.
\<close>

theorem kmain_without_initramfs:
  assumes "initramfs s = None" "siv_num_drives s = 0" "boot_ok (memmap im) s" "tty_ok s"
  shows "kmain im s = Some (Inl (Psod HN_ERR_NO_FS))"
proof -
  obtain t where t: "pmm_init (memmap im) s = Inr ((), t)" "pmm.more t = pmm.more s"
    by (rule pmm_init_facts [OF assms(3)])
  have m: "initramfs t = None" "siv_num_drives t = 0" "tty_ok t"
    using t(2) assms(1,2,4) by (cases s; cases t; simp add: tty_ok_def)+
  let ?tty = "\<lparr>out_type = 2, out_port = 0, in_type = 0, in_port = 0, lock = 0\<rparr>"
  obtain i u where u: "tty_register ?tty t = Inr (i, u)" "initramfs u = None" "siv_num_drives u = 0"
    using tty_register_ok [OF m(3), of ?tty] m(1,2) by (cases "next_tty_id t = 4") auto
  then show ?thesis
    using t(1) by (simp add: kmain_def kernel_up_def wakeup_init_hw_def wakeup_do_mounts_def tar_init_def siv_init_def)
qed

section \<open>A sample machine at start-up\<close>

definition sample_image :: image where
  "sample_image = \<lparr>framebuffers = Some [0xFD000000], hhdm_offset = 0xFFFF800000000000,
     modules = [\<lparr>file_address = 0x500000, file_size = 4096, file_path = 0x100\<rparr>,
       \<lparr>file_address = 0x600000, file_size = 2048, file_path = 0x200\<rparr>],
     rsdp_address = 0x5000, memmap = sample_map, stubs = (\<lambda>n. of_nat (16 * n)), gdt_address = 0x10000,
     tss_addr = 0x20000, kernel_stack = 0x30000, gaia_main = 0xFFFFFFFF80001000, lit_gaia = 0x300,
     lit_kfont = 0x100, lit_initramfs = 0x200, cpuid_of = sample_cpuid,
     uterus_fb_init = (\<lambda>fb font w h. 0x9000), uterus_fb_simple_init = (\<lambda>fb. 0x9000)\<rparr>"

definition sample_boot :: bootstate where
  "sample_boot = (sample_fs
     \<lparr>cpu_info = \<lparr>vendor = replicate 13 0, brand_string = replicate 49 0, family = 0, cpu_model = 0, stepping = 0,
        ext_family = 0, ext_model = 0, features = replicate 4 0\<rparr>,
      cpu_state = \<lparr>cr0 = 0x80000011, cr4 = 0x20, fpu_initialised = False, msr = (\<lambda>_. 0)\<rparr>,
      gdts = sample_gdt, framebuffer = NULL, ut_ctx = NULL\<rparr>)
     \<lparr>pmem := bytes_at 0x100 (lit ''/boot/kfont.psf'' @ [0]) (bytes_at 0x200 (lit ''/boot/initramfs.tar'') (\<lambda>_. 0)),
      free_mem := 0, initramfs := None\<rparr>"

lemma sample_boot_fields [simp]:
  "pmem sample_boot = bytes_at 0x100 (lit ''/boot/kfont.psf'' @ [0]) (bytes_at 0x200 (lit ''/boot/initramfs.tar'') (\<lambda>_. 0))"
  "initramfs sample_boot = None" "siv_num_drives sample_boot = 0" "free_mem sample_boot = 0"
  "hhdm_off sample_boot = 0xFFFF800000000000" "ttys sample_boot = replicate 4 zero_tty" "next_tty_id sample_boot = 0"
  "\<not> tty_initialized sample_boot"
  by (simp_all add: sample_boot_def sample_fs_def siv_init_def sample_acpi_def sample_int_def sample_io_def)

lemma sample_boot_strings:
  "cstr sample_boot 0x100 (lit ''/boot/kfont.psf'')" "cstr sample_boot 0x200 (lit ''/boot/initramfs.tar'')"
  by (simp_all add: lit_def bytes_at_def load8_def v2p_def)

theorem load_limine_modules_spec_witness:
  "\<exists>t. load_limine_modules sample_image sample_boot = Some t \<and> initramfs t = Some (0x600000, 2048)"
proof -
  have "literals_ok sample_image sample_boot" using sample_boot_strings by (simp add: literals_ok_def sample_image_def)
  moreover have "list_all2 (\<lambda>m q. cstr sample_boot (file_path m) q) (modules sample_image)
      [lit ''/boot/kfont.psf'', lit ''/boot/initramfs.tar'']"
    using sample_boot_strings by (simp add: sample_image_def)
  moreover have "module_at (modules sample_image) [lit ''/boot/kfont.psf'', lit ''/boot/initramfs.tar''] (lit ''/boot/initramfs.tar'') =
      Some \<lparr>file_address = 0x600000, file_size = 2048, file_path = 0x200\<rparr>"
    by (simp add: module_at_def sample_image_def)
  ultimately show ?thesis using load_limine_modules_spec by fastforce
qed

theorem kmain_without_initramfs_witness:
  "kmain sample_image sample_boot = Some (Inl (Psod HN_ERR_NO_FS))"
proof (rule kmain_without_initramfs)
  have "boot_ok (memmap sample_image) sample_boot = boot_ok sample_map ((sample ())\<lparr>free_mem := 0\<rparr>)"
    by (simp add: boot_ok_def sample_image_def sample_def)
  then show "boot_ok (memmap sample_image) sample_boot" using sample_boot_ok by simp
  show "tty_ok sample_boot" by (simp add: tty_ok_def)
qed simp_all

end
