(* ===== verification/Kernel.thy ===== *)
theory Kernel
  imports Boot
begin

text \<open>
  From the boot loader's memory map to the first process: \<open>pmm_init\<close>, the terminal, the archive and
  \<open>execute\<close> one after the other as \<open>kmain\<close> runs them, and the first timer interrupt.
\<close>

section \<open>What the boot loader must leave\<close>

text \<open>A frame that \<open>pmm_init\<close> marks used and does not write to.\<close>

definition boot_kept :: "memmap_entry list \<Rightarrow> 'z pmm_scheme \<Rightarrow> nat \<Rightarrow> bool" where
  "boot_kept entries s n \<longleftrightarrow> n \<in> boot_used entries (free_mem s) \<and>
     (let bm = init_bitmap entries (free_mem s) in n \<notin> frames (bm_buffer bm) (bm_size bm div PAGE_SIZE))"

text \<open>The archive \<open>fs\<close> as the module, in kept frames.\<close>

definition module_ready :: "memmap_entry list \<Rightarrow> ptr \<Rightarrow> tfile list \<Rightarrow> 'z fsstate_scheme \<Rightarrow> bool" where
  "module_ready entries h fs s \<longleftrightarrow> (\<exists>n ph. initramfs s = Some (h, n) \<and> tar_at s h fs \<and> length fs \<le> 252 \<and>
     tar_len fs \<le> unat n \<and> span (hhdm_off s) h (Suc (tar_len fs)) ph \<and> h \<noteq> NULL \<and> unat h + tar_len fs < 2 ^ 64 \<and>
     (\<forall>i \<le> tar_len fs. boot_kept entries s (frame (v2p (hhdm_off s) (h + of_nat i)))))"

text \<open>The page map in use lies in a kept frame; the tables are as the program starts with, and handlers are registered.\<close>

definition machine_up :: "memmap_entry list \<Rightarrow> ptr \<Rightarrow> tfile list \<Rightarrow> 'z fsstate_scheme \<Rightarrow> bool" where
  "machine_up entries h fs s \<longleftrightarrow> memory_ready entries s \<and> module_ready entries h fs s \<and>
     unat (hn_pagemap s) = 4096 * frame (hn_pagemap s) \<and> boot_kept entries s (frame (hn_pagemap s)) \<and>
     tty_ok s \<and> siv_num_drives s = 0 \<and> siv_num_drivers s = 0 \<and> handlers_ok s \<and> tables_fresh s"

section \<open>Memory\<close>

lemma init_kept:
  assumes "memory_ready entries s" "pmm_init entries s = Inr ((), t)" "boot_kept entries s n"
  shows "n \<in> used_frames t" "frame q = n \<Longrightarrow> settled t q \<and> pmem t q = pmem s q"
proof -
  obtain t' where t: "pmm_init entries s = Inr ((), t')" "page_bmp t' = init_bitmap entries (free_mem s)"
    "hhdm_off t' = hhdm_off s" "used_frames t' = boot_used entries (free_mem s)"
    "\<And>q. frame q \<notin> frames (bm_buffer (init_bitmap entries (free_mem s))) (bm_size (init_bitmap entries (free_mem s)) div 4096) \<Longrightarrow>
       q \<notin> bmp_region (init_bitmap entries (free_mem s)) s \<and> pmem t' q = pmem s q"
    using pmm_init_heap [OF assms(1)] by metis
  have eq: "t' = t" using t(1) assms(2) by simp
  show u: "n \<in> used_frames t" using t(4) assms(3) unfolding eq by (simp add: boot_kept_def)
  assume "frame q = n"
  then show "settled t q \<and> pmem t q = pmem s q"
    using t(2,3,5) u assms(3) bmp_region_cong [of t s] unfolding eq settled_def boot_kept_def Let_def by auto
qed

lemma settled_table_ok:
  assumes "frame b < nframes t" "unat b = 4096 * frame b" "\<And>q. frame q = frame b \<Longrightarrow> settled t q"
  shows "Pager.table_ok t b"
  using assms unfolding Pager.table_ok_def table_page_def settled_def by (auto dest: sym)

section \<open>wakeup_init_hw\<close>

text \<open>Without a free frame the archive cannot be mounted.\<close>

lemma tar_init_full:
  assumes "heap_ok s" "first_free s = None" "initramfs s = Some (h, n)"
  shows "tar_init s = Some (Inl (Psod HN_ERR_OUT_OF_MEM))"
proof -
  have sm: "small 500" by (simp add: small_def)
  have "pmm_inv s" using assms(1) by (simp add: heap_ok_def)
  then have "\<nexists>p t. request_pages (npages 500) s = Inr (p, t)"
    using request_pages_avail [of s "npages 500"] npages_small(1) [OF sm] assms(2) by blast
  then obtain e where e: "malloc 500 s = Inl e"
    by (cases "malloc 500 s") (auto simp: malloc_def npages_def then_do_Inr_iff)
  then show ?thesis using malloc_fails(1) [OF assms(1) sm e] assms(3)
    by (simp add: tar_init_def parse_tar_def vector_init_def)
qed

text \<open>The state \<open>tar_init\<close> is called in: memory as \<open>pmm_init\<close> leaves it, terminal 0 registered, tables empty.\<close>

definition before_mount :: "memmap_entry list \<Rightarrow> 'z fsstate_scheme \<Rightarrow> 'z fsstate_scheme \<Rightarrow> bool" where
  "before_mount entries s u \<longleftrightarrow> heap_ok u \<and> used_frames u = boot_used entries (free_mem s) \<and>
     page_bmp u = init_bitmap entries (free_mem s) \<and> hhdm_off u = hhdm_off s \<and>
     (\<forall>q. boot_kept entries s (frame q) \<longrightarrow> settled u q \<and> pmem u q = pmem s q) \<and>
     initramfs u = initramfs s \<and> siv_num_drives u = siv_num_drives s \<and> siv_num_drivers u = siv_num_drivers s \<and>
     length (siv_drives u) = 64 \<and> length (siv_drivers u) = 8 \<and>
     hn_pagemap u = hn_pagemap s \<and> processes u = processes s \<and> sched_num_procs u = sched_num_procs s \<and>
     sched_current_pid u = sched_current_pid s \<and> sched_running u = sched_running s \<and>
     soft_ints u = soft_ints s \<and> ISRHandlers u = ISRHandlers s \<and>
     events u = events s \<and> num_events u = num_events s \<and> keyboard u = keyboard s \<and> g_IDT u = g_IDT s"

lemma init_before_mount:
  assumes "memory_ready (memmap im) s" "tty_ok s"
  obtains u where "wakeup_init_hw im s = tar_init u" "before_mount (memmap im) s u"
proof -
  let ?es = "memmap im"
  obtain t where t: "pmm_init ?es s = Inr ((), t)" "heap_ok t" "page_bmp t = init_bitmap ?es (free_mem s)"
    "pmm.more t = pmm.more s" "hhdm_off t = hhdm_off s" "used_frames t = boot_used ?es (free_mem s)"
    using pmm_init_heap [OF assms(1)] by metis
  have kept: "boot_kept ?es s (frame q) \<Longrightarrow> settled t q \<and> pmem t q = pmem s q" for q
    using init_kept(2) [OF assms(1) t(1)] by blast
  have m: "tty_ok t" using t(4) assms(2) by (cases s; cases t; simp add: tty_ok_def)
  let ?tty = "\<lparr>out_type = 2, out_port = 0, in_type = 0, in_port = 0, lock = 0\<rparr>"
  obtain i v where v: "tty_register ?tty t = Inr (i, v)"
    "v = t\<lparr>ttys := ttys v, next_tty_id := next_tty_id v, tty_initialized := tty_initialized v\<rparr>"
    using tty_register_ok [OF m, of ?tty] by (cases "next_tty_id t = 4") auto
  define x where "x = ttys v" define y where "y = next_tty_id v" define z where "z = tty_initialized v"
  let ?u = "siv_init (t\<lparr>ttys := x, next_tty_id := y, tty_initialized := z\<rparr>)"
  have run: "wakeup_init_hw im s = tar_init ?u"
    using t(1) v by (simp add: wakeup_init_hw_def x_def y_def z_def)
  have same: "heap_ok ?u = heap_ok t" "used_frames ?u = used_frames t" "settled ?u = settled t"
    by (simp_all add: siv_init_def heap_state_defs v2p_def settled_def fun_eq_iff)
  have "before_mount ?es s ?u"
    unfolding before_mount_def same using t(2-6) kept
    by (cases s; cases t; simp add: siv_init_def)
  then show thesis using that run by blast
qed

text \<open>The archive of the boot loader is still there, in used memory.\<close>

lemma module_archive:
  assumes "before_mount entries s u" "module_ready entries h fs s" "siv_num_drives s = 0" "siv_num_drivers s = 0"
    and "first_free u \<noteq> None"
  shows "\<exists>n ph. boot_archive h n ph fs u"
proof -
  obtain n ph where m: "initramfs s = Some (h, n)" "tar_at s h fs" "length fs \<le> 252" "tar_len fs \<le> unat n"
    "span (hhdm_off s) h (Suc (tar_len fs)) ph" "h \<noteq> NULL" "unat h + tar_len fs < 2 ^ 64"
    and k: "\<And>i. i \<le> tar_len fs \<Longrightarrow> boot_kept entries s (frame (v2p (hhdm_off s) (h + of_nat i)))"
    using assms(2) by (auto simp: module_ready_def)
  have off: "hhdm_off u = hhdm_off s" using assms(1) by (simp add: before_mount_def)
  have st: "settled u (v2p (hhdm_off s) (h + of_nat i)) \<and>
      pmem u (v2p (hhdm_off s) (h + of_nat i)) = pmem s (v2p (hhdm_off s) (h + of_nat i))" if "i < Suc (tar_len fs)" for i
    using assms(1) k [of i] that by (simp add: before_mount_def)
  have "agree s u h (Suc (tar_len fs))" using st by (simp add: agree_def load8_def off)
  then have "tar_at u h fs" by (rule tar_at_agree [OF m(2)])
  moreover have "in_used u h (Suc (tar_len fs))" using st by (simp add: in_used_def settled_def off)
  ultimately have "boot_archive h n ph fs u"
    using assms m off by (simp add: boot_archive_def before_mount_def)
  then show ?thesis by blast
qed

text \<open>After the mount the kernel's tables are as they were, and the page map in use is still one.\<close>

lemma mount_keeps:
  assumes "before_mount entries s u" "machine_up entries h fs s" "tar_init u = Some (Inr ((), t))" "heap_ok t"
    and "\<And>q. settled u q \<Longrightarrow> settled t q"
  shows "4096 * nframes t \<le> 2 ^ 47" "Pager.table_ok t (hn_pagemap t)" "handlers_ok t" "tables_fresh t"
    "soft_ints t = soft_ints s" "g_IDT t = g_IDT s"
    "page_bmp t = init_bitmap entries (free_mem s)" "hhdm_off t = hhdm_off s"
proof -
  note b = assms(1) [unfolded before_mount_def] and m = assms(2) [unfolded machine_up_def]
  have "pmm_ok u" using b by (simp add: heap_ok_def pmm_inv_def)
  from tar_init_kernel [OF assms(3) this] have k: "same_kernel u t" .
  have nf: "nframes t = 8 * unat (bm_size (init_bitmap entries (free_mem s)))"
    using k b by (simp add: same_kernel_def nframes_def)
  then show "4096 * nframes t \<le> 2 ^ 47" using m by (simp add: memory_ready_def Let_def)
  have pm: "hn_pagemap t = hn_pagemap s" using k b by (simp add: same_kernel_def)
  show "Pager.table_ok t (hn_pagemap t)" unfolding pm
  proof (rule settled_table_ok)
    show "frame (hn_pagemap s) < nframes t" using m unfolding nf by (simp add: boot_kept_def boot_used_def Let_def)
    show "settled t q" if "frame q = frame (hn_pagemap s)" for q
      using b m that assms(5) by metis
  qed (use m in simp)
  show "handlers_ok t" "tables_fresh t" "soft_ints t = soft_ints s" "g_IDT t = g_IDT s"
    "page_bmp t = init_bitmap entries (free_mem s)" "hhdm_off t = hhdm_off s"
    using k b m by (simp_all add: same_kernel_def handlers_ok_def tables_fresh_def)
qed

text \<open>The whole of start-up up to the first process: no free frame, or the archive mounted.\<close>

definition mount_safe :: "ptr \<Rightarrow> tfile list \<Rightarrow> 'z fsstate_scheme \<Rightarrow> bool" where
  "mount_safe h fs s \<longleftrightarrow> (\<exists>ph pt. mounted h ph pt fs s \<and>
     (\<forall>q \<in> prange ph (Suc (tar_len fs)) \<union> prange pt (8 * length fs). settled s q))"

lemma mount_safe_kept:
  fixes s t :: "'z fsstate_scheme"
  assumes "mount_safe h fs s" "hhdm_off t = hhdm_off s" "contents t = contents s"
    and "\<And>q. settled s q \<Longrightarrow> settled t q \<and> pmem t q = pmem s q"
  shows "mount_safe h fs t"
proof -
  obtain ph pt where m: "mounted h ph pt fs s"
    "\<And>q. q \<in> prange ph (Suc (tar_len fs)) \<union> prange pt (8 * length fs) \<Longrightarrow> settled s q"
    using assms(1) by (auto simp: mount_safe_def)
  note d = m(1) [unfolded mounted_def]
  have a: "agree s t h (Suc (tar_len fs))" "agree s t (headers (contents s)) (8 * length fs)"
    using d m(2) assms(2,4) by (auto intro!: span_agree)
  have "load64 t (headers (contents s) + 8 * of_nat k) = load64 s (headers (contents s) + 8 * of_nat k)" if "k < length fs" for k
    using agree_load_bytes [OF a(2), of "8 * k" 8] that by (simp add: load64_def del: load_bytes.simps)
  then have "headers_ok t (contents t) (positions h fs)"
    using d assms(3) by (simp add: headers_ok_def)
  then have "mounted h ph pt fs t" using d tar_at_agree [OF _ a(1)] assms(2,3) by (simp add: mounted_def)
  then show ?thesis using m(2) assms(4) by (auto simp: mount_safe_def)
qed

lemma mount_launched:
  fixes s t :: "'z fsstate_scheme"
  assumes "mount_safe h fs s" "tar_drive 0 s" "hhdm_off t = hhdm_off s" "evstate.more t = evstate.more s"
    and "\<And>q. settled s q \<Longrightarrow> settled t q \<and> pmem t q = pmem s q"
  shows "mount_safe h fs t" "tar_drive 0 t"
proof -
  have f: "contents t = contents s" "siv_drives t = siv_drives s" "siv_num_drives t = siv_num_drives s"
    "siv_drivers t = siv_drivers s" "siv_num_drivers t = siv_num_drivers s"
    using assms(4) by (cases s; cases t; simp)+
  show "mount_safe h fs t" by (rule mount_safe_kept [OF assms(1,3) f(1) assms(5)])
  have "drive_driver 0 t = drive_driver 0 s" using f by (simp add: drive_driver_def)
  with assms(2) show "tar_drive 0 t" by (simp add: tar_drive_def)
qed

definition before_launch :: "ptr \<Rightarrow> tfile list \<Rightarrow> 'z fsstate_scheme \<Rightarrow> bool" where
  "before_launch h fs t \<longleftrightarrow> mount_safe h fs t \<and> tar_drive 0 t \<and> siv_num_drives t = 1 \<and>
     heap_ok t \<and> 4096 * nframes t \<le> 2 ^ 47 \<and> Pager.table_ok t (hn_pagemap t) \<and> handlers_ok t \<and> tables_fresh t"

lemma init_hw_result:
  assumes "machine_up (memmap im) h fs s"
  obtains "wakeup_init_hw im s = Some (Inl (Psod HN_ERR_OUT_OF_MEM))" "kernel_up im s = Some (Inl (Psod HN_ERR_OUT_OF_MEM))"
  | t where "wakeup_init_hw im s = Some (Inr ((), t))" "kernel_up im s = Some (wakeup_startup im t)"
      "before_launch h fs t" "soft_ints t = soft_ints s" "g_IDT t = g_IDT s"
      "page_bmp t = init_bitmap (memmap im) (free_mem s)" "hhdm_off t = hhdm_off s"
proof -
  note m = assms [unfolded machine_up_def]
  obtain u where u: "wakeup_init_hw im s = tar_init u" "before_mount (memmap im) s u"
    using init_before_mount m by blast
  show thesis
  proof (cases "first_free u")
    case None
    obtain n where "initramfs u = Some (h, n)" using u(2) m by (auto simp: before_mount_def module_ready_def)
    from tar_init_full [OF _ None this] u that(1) show ?thesis by (simp add: before_mount_def kernel_up_def)
  next
    case (Some x)
    then obtain n ph where ba: "boot_archive h n ph fs u" using module_archive [OF u(2)] m by blast
    then obtain t pt where t: "tar_init u = Some (Inr ((), t))" "mounted h ph pt fs t" "heap_ok t"
      "tar_drive (unat (tar_drive_id t)) t" "tar_drive_id t = siv_num_drives u" "siv_num_drives t = siv_num_drives u + 1"
      "\<And>q. settled u q \<Longrightarrow> settled t q \<and> pmem t q = pmem u q"
      "\<And>q. q \<in> prange pt (8 * length fs) \<Longrightarrow> settled t q \<and> \<not> settled u q"
      using tar_init_mounts [OF ba] by metis
    have "settled t q" if "q \<in> prange ph (Suc (tar_len fs))" for q
      using in_used_prange [OF _ _ that, of u h] ba t(7) by (auto simp: boot_archive_def)
    then have ms: "mount_safe h fs t" using t(2,8) by (auto simp: mount_safe_def)
    have d: "siv_num_drives u = 0" using u(2) m by (simp add: before_mount_def)
    note k = mount_keeps [OF u(2) assms t(1,3), OF t(7) [THEN conjunct1]]
    have "kernel_up im s = Some (wakeup_startup im t)"
      using u(1) t(1,6) d by (simp add: kernel_up_def wakeup_do_mounts_def)
    then show ?thesis using that(2) u(1) t(1,3-6) d k ms by (auto simp: before_launch_def)
  qed
qed

section \<open>Properties\<close>


section \<open>A sample start\<close>

definition sample_gates :: "IDT64 list" where
  "sample_gates = map (\<lambda>n. gate (0xFFFFFFFF80002000 + 16 * of_nat n) 8 0b10001110) [0..<256]"

definition sample_start :: fsstate where
  "sample_start = (sample_fs ())\<lparr>g_IDT := sample_gates, free_mem := 0, hn_pagemap := 0x5000, processes := replicate 64 zero_process,
     sched_num_procs := 0, sched_current_pid := 0, sched_running := False,
     ISRHandlers := (replicate 255 None)[33 := Some keyboard_isr, 32 := Some schedule_isr, 0x80 := Some syscall_handler_isr]\<rparr>"

lemma sample_start_fields [simp]:
  "free_mem sample_start = 0" "hn_pagemap sample_start = 0x5000" "hhdm_off sample_start = 0xFFFF800000000000"
  "initramfs sample_start = Some (0x3000, 2048)"
  by (simp_all add: sample_start_def sample_fs_def siv_init_def sample_acpi_def sample_int_def sample_io_def)

lemma sample_init_bitmap: "init_bitmap sample_map 0 = \<lparr>bm_size = 4096, bm_buffer = 0x100000\<rparr>"
  by (simp add: init_bitmap_def init_result_def init_scan_step_def sample_map_def is_free_type_def ALIGN_UP_def
      DIV_ROUND_UP_def Let_def)

lemma sample_kept: "n < 256 \<Longrightarrow> boot_kept sample_map sample_start n"
proof -
  have "free_segments sample_map = frames 0x100000 0x800"
    by (simp add: sample_map_def is_free_type_def)
  then show "n < 256 \<Longrightarrow> boot_kept sample_map sample_start n"
    by (simp add: boot_kept_def boot_used_def sample_init_bitmap frames_def frame_def)
qed

lemma sample_memory: "memory_ready sample_map sample_start"
proof -
  have "boot_ok sample_map sample_start = boot_ok sample_map ((sample ())\<lparr>free_mem := 0\<rparr>)"
    by (simp add: boot_ok_def sample_def)
  then show ?thesis using sample_boot_ok by (simp add: memory_ready_def sample_init_bitmap frame_def)
qed

lemma sample_module: "module_ready sample_map 0x3000 [([97], [65, 66])] sample_start"
proof -
  have a: "tar_at (sample_fs ()) 0x3000 [([97], [65, 66])]"
    using sample_fs_boot(1) [of "()"] by (simp add: boot_archive_def)
  have "agree (sample_fs ()) sample_start 0x3000 n" for n
    by (simp add: agree_def load8_def sample_start_def)
  then have t: "tar_at sample_start 0x3000 [([97], [65, 66])]" using tar_at_agree [OF a] by blast
  have len: "tar_len [([97 :: u8], [65, 66 :: u8])] = 1024" by (simp add: file_span_def)
  have sp: "span (hhdm_off sample_start) 0x3000 1025 0x3000" by (rule span_low) simp
  have k: "boot_kept sample_map sample_start (frame (v2p (hhdm_off sample_start) (0x3000 + of_nat i)))" if "i \<le> 1024" for i
  proof (rule sample_kept)
    have "v2p (hhdm_off sample_start) (0x3000 + of_nat i) = 0x3000 + of_nat i" using sp that by (simp add: span_def)
    moreover have "unat ((0x3000 :: u64) + of_nat i) = 0x3000 + i"
      using unat_add_of_nat [of "0x3000" i] that by simp
    ultimately show "frame (v2p (hhdm_off sample_start) (0x3000 + of_nat i)) < 256" using that by (simp add: frame_def)
  qed
  show ?thesis
    unfolding module_ready_def len
    by (intro exI [of _ 2048] exI [of _ "0x3000"] conjI allI impI) (use t sp k in simp_all)
qed

lemma sample_machine_up: "machine_up (memmap sample_image) 0x3000 [([97], [65, 66])] sample_start"
  unfolding machine_up_def
proof (intro conjI)
  show "memory_ready (memmap sample_image) sample_start" "module_ready (memmap sample_image) 0x3000 [([97], [65, 66])] sample_start"
    "boot_kept (memmap sample_image) sample_start (frame (hn_pagemap sample_start))"
    using sample_memory sample_module sample_kept [of 5] by (simp_all add: sample_image_def frame_def)
  have "keyboard sample_start = sample_kb" "in_state False sample_kb"
    by (simp_all add: sample_start_def sample_fs_def siv_init_def sample_acpi_def sample_int_def sample_io_def
        sample_kb_def in_state_def)
  then show "tables_fresh sample_start"
    by (auto simp: tables_fresh_def sample_start_def sample_fs_def siv_init_def sample_acpi_def sample_int_def sample_io_def)
qed (simp_all add: frame_def sample_start_def tty_ok_def handlers_ok_def, simp_all add: sample_fs_def siv_init_def
      sample_acpi_def sample_int_def sample_io_def)


end
