(* ===== verification/Entry.thy ===== *)
theory Entry
  imports Dispatch
begin

text \<open>
  The way into and out of \<open>ISR_Handler\<close>: the stubs of \<open>interrupts/ISR.asm\<close> as lists of instructions, run on
  the registers of the processor and the kernel's memory, and the table \<open>IDT.asm\<close> loads.
\<close>

section \<open>The processor\<close>

datatype reg = RAX | RBX | RCX | RDX | RSI | RDI | RBP | R8 | R9 | R10 | R11 | R12 | R13 | R14 | R15

record cpu =
  gpr :: "reg \<Rightarrow> u64"
  cpu_rip :: u64
  cpu_cs :: u64
  cpu_rflags :: u64
  cpu_rsp :: u64
  cpu_ss :: u64

text \<open>
  The instructions of the stubs and of \<open>load_gdt\<close>. \<open>CALL_HANDLER\<close> is \<open>call ISR_Handler\<close>. \<open>CLD\<close> clears bit 10 of
  the flags. The data segment registers apart from \<open>ss\<close> are not kept: nothing reads them.
\<close>

datatype instr = PUSH reg | PUSH_IMM u64 | POP reg | CLD | MOV_RDI_RSP | CALL_HANDLER | ADD_RSP u64 | IRETQ
  | MOV_AX u16 | MOV_SS_AX | MOV_RAX u64 | RETFQ

definition push :: "u64 \<Rightarrow> cpu \<Rightarrow> 'z machine_scheme \<Rightarrow> cpu \<times> 'z machine_scheme" where
  "push w c s = (c\<lparr>cpu_rsp := cpu_rsp c - 8\<rparr>, store64 (cpu_rsp c - 8) w s)"

text \<open>The structure \<open>Registers\<close> in memory: 22 words in the order of its fields, without padding.\<close>

definition regs_words :: "Registers \<Rightarrow> u64 list" where
  "regs_words r = [rax r, rbx r, rcx r, rdx r, rsi r, rdi r, rbp r, r8 r, r9 r, r10 r, r11 r, r12 r, r13 r, r14 r, r15 r,
     interrupt r, error r, rip r, cs r, rflags r, rsp r, ss r]"

primrec store_words :: "ptr \<Rightarrow> u64 list \<Rightarrow> 'z machine_scheme \<Rightarrow> 'z machine_scheme" where
  "store_words a [] s = s"
| "store_words a (w # ws) s = store64 a w (store_words (a + 8) ws s)"

definition store_Registers :: "ptr \<Rightarrow> Registers \<Rightarrow> 'z machine_scheme \<Rightarrow> 'z machine_scheme" where
  "store_Registers a r = store_words a (regs_words r)"

definition load_Registers :: "'z machine_scheme \<Rightarrow> ptr \<Rightarrow> Registers" where
  "load_Registers s a =
     \<lparr>rax = load64 s a, rbx = load64 s (a + 8), rcx = load64 s (a + 16), rdx = load64 s (a + 24), rsi = load64 s (a + 32),
      rdi = load64 s (a + 40), rbp = load64 s (a + 48), r8 = load64 s (a + 56), r9 = load64 s (a + 64),
      r10 = load64 s (a + 72), r11 = load64 s (a + 80), r12 = load64 s (a + 88), r13 = load64 s (a + 96),
      r14 = load64 s (a + 104), r15 = load64 s (a + 112), interrupt = load64 s (a + 120), error = load64 s (a + 128),
      rip = load64 s (a + 136), cs = load64 s (a + 144), rflags = load64 s (a + 152), rsp = load64 s (a + 160),
      ss = load64 s (a + 168)\<rparr>"

text \<open>
  One instruction. The handler finds its argument in \<open>rdi\<close>; the C code works on the structure in place, so
  what it returns is stored there. It leaves any values \<open>junk\<close> in the general registers and restores the
  stack pointer; its own stack lies below the frame and is not modelled. \<open>iretq\<close> pops five words; that it
  checks the selectors is not modelled.
\<close>

fun iexec :: "(reg \<Rightarrow> u64) \<Rightarrow> instr \<Rightarrow> cpu \<Rightarrow> 'z kbstate_scheme \<Rightarrow> (cpu, 'z kbstate_scheme) result option" where
  "iexec junk (PUSH x) c s = Some (Inr (push (gpr c x) c s))"
| "iexec junk (PUSH_IMM w) c s = Some (Inr (push w c s))"
| "iexec junk (POP x) c s =
     Some (Inr (c\<lparr>gpr := (gpr c)(x := load64 s (cpu_rsp c)), cpu_rsp := cpu_rsp c + 8\<rparr>, s))"
| "iexec junk CLD c s = Some (Inr (c\<lparr>cpu_rflags := cpu_rflags c AND NOT 0x400\<rparr>, s))"
| "iexec junk MOV_RDI_RSP c s = Some (Inr (c\<lparr>gpr := (gpr c)(RDI := cpu_rsp c)\<rparr>, s))"
| "iexec junk CALL_HANDLER c s =
     and_then (ISR_Handler (load_Registers s (gpr c RDI)) s)
       (\<lambda>r t. Some (Inr (c\<lparr>gpr := junk\<rparr>, store_Registers (gpr c RDI) r t)))"
| "iexec junk (ADD_RSP w) c s = Some (Inr (c\<lparr>cpu_rsp := cpu_rsp c + w\<rparr>, s))"
| "iexec junk IRETQ c s =
     Some (Inr (c\<lparr>cpu_rip := load64 s (cpu_rsp c), cpu_cs := load64 s (cpu_rsp c + 8), cpu_rflags := load64 s (cpu_rsp c + 16),
       cpu_rsp := load64 s (cpu_rsp c + 24), cpu_ss := load64 s (cpu_rsp c + 32)\<rparr>, s))"
| "iexec junk (MOV_AX w) c s = Some (Inr (c\<lparr>gpr := (gpr c)(RAX := (gpr c RAX AND NOT 0xFFFF) OR ucast w)\<rparr>, s))"
| "iexec junk MOV_SS_AX c s = Some (Inr (c\<lparr>cpu_ss := gpr c RAX AND 0xFFFF\<rparr>, s))"
| "iexec junk (MOV_RAX w) c s = Some (Inr (c\<lparr>gpr := (gpr c)(RAX := w)\<rparr>, s))"
| "iexec junk RETFQ c s =
     Some (Inr (c\<lparr>cpu_rip := load64 s (cpu_rsp c), cpu_cs := load64 s (cpu_rsp c + 8), cpu_rsp := cpu_rsp c + 16\<rparr>, s))"

primrec exec ::
    "(reg \<Rightarrow> u64) \<Rightarrow> instr list \<Rightarrow> cpu \<Rightarrow> 'z kbstate_scheme \<Rightarrow> (cpu, 'z kbstate_scheme) result option" where
  "exec junk [] c s = Some (Inr (c, s))"
| "exec junk (i # is) c s = and_then (iexec junk i c s) (exec junk is)"

section \<open>ISR.asm\<close>

definition PUSHA64 :: "instr list" where
  "PUSHA64 = map PUSH [R15, R14, R13, R12, R11, R10, R9, R8, RBP, RDI, RSI, RDX, RCX, RBX, RAX]"

definition POPA64 :: "instr list" where
  "POPA64 = map POP [RAX, RBX, RCX, RDX, RSI, RDI, RBP, R8, R9, R10, R11, R12, R13, R14, R15]"

definition isr_common :: "instr list" where
  "isr_common = PUSHA64 @ [CLD, MOV_RDI_RSP, CALL_HANDLER] @ POPA64 @ [ADD_RSP 16, IRETQ]"

definition ISR_NOERRORCODE :: "nat \<Rightarrow> instr list" where
  "ISR_NOERRORCODE n = [PUSH_IMM 0, PUSH_IMM (of_nat n)] @ isr_common"

definition ISR_ERRORCODE :: "nat \<Rightarrow> instr list" where
  "ISR_ERRORCODE n = [PUSH_IMM (of_nat n)] @ isr_common"

text \<open>The vectors whose stub relies on an error code, and all 256 stubs.\<close>

definition error_stub :: "nat \<Rightarrow> bool" where
  "error_stub n \<longleftrightarrow> n \<in> {8, 10, 11, 12, 13, 14, 17, 21}"

definition ISR_stub :: "nat \<Rightarrow> instr list" where
  "ISR_stub n = (if error_stub n then ISR_ERRORCODE n else ISR_NOERRORCODE n)"

section \<open>gdt.asm\<close>

text \<open>
  \<open>load_gdt\<close> after \<open>lgdt\<close>, which \<open>gdt_init\<close> of \<open>Gdt\<close> does: new data selectors, then a far return to the
  caller with the selector of the kernel's code. The argument of the call is not used.
\<close>

definition load_gdt :: "instr list" where
  "load_gdt = [MOV_AX 0x10, MOV_SS_AX, POP RDI, MOV_RAX 0x08, PUSH RAX, PUSH RDI, RETFQ]"

section \<open>Delivery of an interrupt\<close>

text \<open>
  What the processor does, with gates that name no stack of their own: it takes the current stack, or
  \<open>rsp0\<close> of the TSS, here \<open>kstack\<close>, when it comes from user mode, aligns it to 16 bytes and pushes where it
  stopped and, for some exceptions, an error code. The gate gives the address of the stub; interrupts are off in it.
\<close>

definition entry_stack :: "u64 \<Rightarrow> cpu \<Rightarrow> u64" where
  "entry_stack kstack c = (if cpu_cs c AND 3 = 0 then cpu_rsp c else kstack) AND NOT 15"

definition push_where :: "u64 \<Rightarrow> cpu \<Rightarrow> 'z machine_scheme \<Rightarrow> cpu \<times> 'z machine_scheme" where
  "push_where kstack c s =
     (let (d, s) = push (cpu_ss c) (c\<lparr>cpu_rsp := entry_stack kstack c\<rparr>) s;
          (d, s) = push (cpu_rsp c) d s;
          (d, s) = push (cpu_rflags c) d s;
          (d, s) = push (cpu_cs c) d s
      in push (cpu_rip c) d s)"

definition deliver :: "u64 \<Rightarrow> nat \<Rightarrow> u64 option \<Rightarrow> cpu \<Rightarrow> 'z intstate_scheme \<Rightarrow> cpu \<times> 'z intstate_scheme" where
  "deliver kstack n err c s =
     (let g = g_IDT s ! n;
          (d, s) = push_where kstack c s;
          (d, s) = (case err of None \<Rightarrow> (d, s) | Some e \<Rightarrow> push e d s)
      in (d\<lparr>cpu_rip := gate_offset g, cpu_cs := ucast (selector g), cpu_rflags := cpu_rflags d AND NOT 0x200\<rparr>, s))"

text \<open>The interrupt as a whole; \<open>code\<close> gives the instructions at an address.\<close>

definition take_interrupt ::
    "(u64 \<Rightarrow> instr list) \<Rightarrow> (reg \<Rightarrow> u64) \<Rightarrow> u64 \<Rightarrow> nat \<Rightarrow> u64 option \<Rightarrow> cpu \<Rightarrow> 'z kbstate_scheme \<Rightarrow>
      (cpu, 'z kbstate_scheme) result option" where
  "take_interrupt code junk kstack n err c s =
     (let (d, t) = deliver kstack n err c s in exec junk (code (cpu_rip d)) d t)"

section \<open>Words on the stack\<close>

lemma hhdm_off_store_words [simp]: "hhdm_off (store_words a ws s) = hhdm_off s"
  by (induction ws arbitrary: a s) simp_all

lemma store_words_append:
  "store_words a (xs @ ys) s = store_words a xs (store_words (a + 8 * of_nat (length xs)) ys s)"
  by (induction xs arbitrary: a) (simp_all add: algebra_simps)

lemma store_words_pmem_only [pmem_only]: "store_words a ws s = s\<lparr>pmem := pmem (store_words a ws s)\<rparr>"
proof (induction ws arbitrary: a s)
  case (Cons w ws)
  have "store_words a (w # ws) s = (store_words (a + 8) ws s)\<lparr>pmem := pmem (store_words a (w # ws) s)\<rparr>"
    unfolding store_words.simps by (rule store64_pmem_only)
  also have "\<dots> = s\<lparr>pmem := pmem (store_words a (w # ws) s)\<rparr>" by (subst Cons) simp
  finally show ?case .
qed simp

lemma pmem_store_words_other:
  assumes "span (hhdm_off s) a (8 * length ws) p" "q \<notin> prange p (8 * length ws)"
  shows "pmem (store_words a ws s) q = pmem s q"
  using assms
proof (induction ws arbitrary: a p)
  case (Cons w ws)
  have u: "unat p + 8 * length (w # ws) \<le> 2 ^ 64" using span_bound [OF Cons.prems(1)] .
  have sp: "span (hhdm_off s) a 8 p" "span (hhdm_off s) (a + 8) (8 * length ws) (p + 8)"
    using span_mono [OF Cons.prems(1), of 8] span_shift [OF Cons.prems(1), of 8 "8 * length ws"] by simp_all
  have "q \<notin> prange p 8" using Cons.prems(2) by (auto simp: prange_def)
  moreover have "q \<notin> prange (p + 8) (8 * length ws)"
  proof (cases "ws = []")
    case False
    then have "unat (p + 8) = unat p + 8" using u by (cases ws) (simp_all add: unat_add_no_wrap)
    then show ?thesis using Cons.prems(2) by (auto simp: prange_def)
  qed simp
  ultimately show ?case
    using pmem_store64_other [of "store_words (a + 8) ws s" a p q w] sp Cons.IH [OF sp(2)] by simp
qed simp

lemma load_store_words:
  assumes "span (hhdm_off s) a (8 * length ws) p" "i < length ws"
  shows "load64 (store_words a ws s) (a + 8 * of_nat i) = ws ! i"
  using assms
proof (induction ws arbitrary: a p i)
  case (Cons w ws)
  have u: "unat p + 8 * length (w # ws) \<le> 2 ^ 64" using span_bound [OF Cons.prems(1)] .
  have sp: "span (hhdm_off s) a 8 p" "span (hhdm_off s) (a + 8) (8 * length ws) (p + 8)"
    using span_mono [OF Cons.prems(1), of 8] span_shift [OF Cons.prems(1), of 8 "8 * length ws"] by simp_all
  show ?case
  proof (cases i)
    case 0
    then show ?thesis using load64_store64 [of "store_words (a + 8) ws s" a p] sp(1) by simp
  next
    case (Suc j)
    then have j: "j < length ws" using Cons.prems(2) by simp
    have at: "a + 8 * of_nat i = a + 8 + 8 * of_nat j" by (simp add: Suc algebra_simps)
    have sj: "span (hhdm_off s) (a + 8 + 8 * of_nat j) 8 (p + 8 + 8 * of_nat j)"
      using span_shift [OF sp(2), of "8 * j" 8] j by simp
    have "unat (p + 8 + 8 * of_nat j) = unat p + 8 * Suc j"
      using unat_add_of_nat [of p "8 * Suc j"] u j by (simp add: algebra_simps)
    then have "prange p 8 \<inter> prange (p + 8 + 8 * of_nat j) 8 = {}" by (intro prange_disjoint) simp
    then have "load64 (store64 a w (store_words (a + 8) ws s)) (a + 8 * of_nat i) =
        load64 (store_words (a + 8) ws s) (a + 8 + 8 * of_nat j)"
      unfolding at using sp(1) sj by (intro load64_store64_other) simp_all
    then show ?thesis using Cons.IH [OF sp(2) j] by (simp add: Suc)
  qed
qed simp

text \<open>Storing a structure and reading it back.\<close>

lemma load_Registers_words:
  assumes "\<And>i. i < 22 \<Longrightarrow> load64 s (a + 8 * of_nat i) = regs_words r ! i"
  shows "load_Registers s a = r"
proof -
  note w = assms [of 0] assms [of 1] assms [of 2] assms [of 3] assms [of 4] assms [of 5] assms [of 6] assms [of 7]
    assms [of 8] assms [of 9] assms [of 10] assms [of 11] assms [of 12] assms [of 13] assms [of 14] assms [of 15]
    assms [of 16] assms [of 17] assms [of 18] assms [of 19] assms [of 20] assms [of 21]
  show ?thesis using w by (cases r) (simp add: load_Registers_def regs_words_def)
qed

lemma load_store_Registers:
  assumes "span (hhdm_off s) a 176 p"
  shows "load_Registers (store_Registers a r s) a = r"
  by (rule load_Registers_words)
    (simp add: store_Registers_def load_store_words [of s a _ p] assms regs_words_def del: store_words.simps)

section \<open>Pushing and popping\<close>

lemma exec_append: "exec junk (is @ js) c s = and_then (exec junk is c s) (exec junk js)"
  by (induction "is" arbitrary: c s) (auto simp: and_then_def split: option.splits sum.splits)

text \<open>Several pushes at once: the last word pushed has the lowest address.\<close>

definition push_words :: "u64 list \<Rightarrow> cpu \<Rightarrow> 'z machine_scheme \<Rightarrow> cpu \<times> 'z machine_scheme" where
  "push_words ws c s =
     (let a = cpu_rsp c - 8 * of_nat (length ws) in (c\<lparr>cpu_rsp := a\<rparr>, store_words a (rev ws) s))"

lemma push_push_words: "push w c s = push_words [w] c s"
  by (simp add: push_def push_words_def Let_def)

lemma push_words_append:
  "push_words (ws @ vs) c s = (case push_words ws c s of (d, t) \<Rightarrow> push_words vs d t)"
  by (simp add: push_words_def Let_def store_words_append algebra_simps)

lemma gpr_push_words [simp]: "push_words ws c s = (d, t) \<Longrightarrow> gpr d = gpr c"
  by (auto simp: push_words_def Let_def)

lemma exec_pushes: "exec junk (map PUSH xs) c s = Some (Inr (push_words (map (gpr c) xs) c s))"
proof (induction xs arbitrary: c s)
  case (Cons x xs)
  obtain d t where p: "push (gpr c x) c s = (d, t)" by fastforce
  then have g: "gpr d = gpr c" using gpr_push_words by (simp add: push_push_words)
  have "push_words (map (gpr c) (x # xs)) c s = push_words (map (gpr c) xs) d t"
    using push_words_append [of "[gpr c x]" "map (gpr c) xs" c s] p by (simp add: push_push_words)
  then show ?case using Cons.IH [of d t] p g by simp
qed (simp add: push_words_def)

section \<open>The whole way\<close>

text \<open>The structure the handler gets, and the registers an \<open>iretq\<close> from it leaves.\<close>

definition frame_of :: "nat \<Rightarrow> u64 option \<Rightarrow> cpu \<Rightarrow> Registers" where
  "frame_of n err c =
     \<lparr>rax = gpr c RAX, rbx = gpr c RBX, rcx = gpr c RCX, rdx = gpr c RDX, rsi = gpr c RSI, rdi = gpr c RDI,
      rbp = gpr c RBP, r8 = gpr c R8, r9 = gpr c R9, r10 = gpr c R10, r11 = gpr c R11, r12 = gpr c R12,
      r13 = gpr c R13, r14 = gpr c R14, r15 = gpr c R15, interrupt = of_nat n,
      error = (case err of None \<Rightarrow> 0 | Some e \<Rightarrow> e), rip = cpu_rip c, cs = cpu_cs c, rflags = cpu_rflags c,
      rsp = cpu_rsp c, ss = cpu_ss c\<rparr>"

definition resume :: "Registers \<Rightarrow> cpu" where
  "resume r =
     \<lparr>gpr = case_reg (rax r) (rbx r) (rcx r) (rdx r) (rsi r) (rdi r) (rbp r) (r8 r) (r9 r) (r10 r) (r11 r) (r12 r)
        (r13 r) (r14 r) (r15 r),
      cpu_rip = rip r, cpu_cs = cs r, cpu_rflags = rflags r, cpu_rsp = rsp r, cpu_ss = ss r\<rparr>"

lemma resume_frame [simp]: "resume (frame_of n err c) = c"
proof -
  have "case_reg (gpr c RAX) (gpr c RBX) (gpr c RCX) (gpr c RDX) (gpr c RSI) (gpr c RDI) (gpr c RBP) (gpr c R8)
      (gpr c R9) (gpr c R10) (gpr c R11) (gpr c R12) (gpr c R13) (gpr c R14) (gpr c R15) = gpr c"
    by (rule ext) (simp split: reg.splits)
  then show ?thesis by (cases c) (simp add: resume_def frame_of_def)
qed

lemma frame_interrupt [simp]: "interrupt (frame_of n err c) = of_nat n" "rax (frame_of n err c) = gpr c RAX"
  "rdi (frame_of n err c) = gpr c RDI"
  by (simp_all add: frame_of_def)

text \<open>Up to the call: the frame lies below the aligned stack pointer, in the order of the structure.\<close>

definition frame_addr :: "u64 \<Rightarrow> cpu \<Rightarrow> ptr" where
  "frame_addr kstack c = entry_stack kstack c - 176"

lemma deliver_pushes:
  "deliver kstack n err c s =
     (case push_words ([cpu_ss c, cpu_rsp c, cpu_rflags c, cpu_cs c, cpu_rip c] @ (case err of None \<Rightarrow> [] | Some e \<Rightarrow> [e]))
         (c\<lparr>cpu_rsp := entry_stack kstack c\<rparr>) s of
       (d, t) \<Rightarrow> (d\<lparr>cpu_rip := gate_offset (g_IDT s ! n), cpu_cs := ucast (selector (g_IDT s ! n)),
         cpu_rflags := cpu_rflags d AND NOT 0x200\<rparr>, t))"
  by (simp add: deliver_def push_where_def push_push_words push_words_def Let_def algebra_simps split: option.splits)

text \<open>The part of a stub before the call.\<close>

definition stub_head :: "nat \<Rightarrow> instr list" where
  "stub_head n = (if error_stub n then [] else [PUSH_IMM 0]) @ PUSH_IMM (of_nat n) # PUSHA64 @ [CLD, MOV_RDI_RSP]"

lemma stub_split: "ISR_stub n = stub_head n @ CALL_HANDLER # POPA64 @ [ADD_RSP 16, IRETQ]"
  by (simp add: ISR_stub_def ISR_ERRORCODE_def ISR_NOERRORCODE_def isr_common_def stub_head_def)

lemma exec_imms: "exec junk (map PUSH_IMM ws) c s = Some (Inr (push_words ws c s))"
proof (induction ws arbitrary: c s)
  case (Cons w ws)
  obtain d t where p: "push w c s = (d, t)" by fastforce
  then show ?case using Cons.IH [of d t] push_words_append [of "[w]" ws c s] by (simp add: push_push_words)
qed (simp add: push_words_def)

lemma exec_head:
  "exec junk (stub_head n) c s =
     (let a = cpu_rsp c - 8 * of_nat (length (if error_stub n then [] else [0 :: u64]) + 16) in
      Some (Inr (c\<lparr>gpr := (gpr c)(RDI := a), cpu_rflags := cpu_rflags c AND NOT 0x400, cpu_rsp := a\<rparr>,
        store_words a (map (gpr c) [RAX, RBX, RCX, RDX, RSI, RDI, RBP, R8, R9, R10, R11, R12, R13, R14, R15] @
          of_nat n # (if error_stub n then [] else [0])) s)))"
proof -
  let ?i = "(if error_stub n then [] else [0]) @ [of_nat n] :: u64 list"
  let ?p = "[R15, R14, R13, R12, R11, R10, R9, R8, RBP, RDI, RSI, RDX, RCX, RBX, RAX]"
  have "stub_head n = map PUSH_IMM ?i @ map PUSH ?p @ [CLD, MOV_RDI_RSP]"
    by (simp add: stub_head_def PUSHA64_def)
  moreover obtain d t where i: "push_words ?i c s = (d, t)" by fastforce
  moreover have g: "map (gpr d) ?p = map (gpr c) ?p" using gpr_push_words [OF i] by simp
  have "push_words (map (gpr c) ?p) d t = push_words (?i @ map (gpr c) ?p) c s"
    by (simp only: push_words_append [of ?i] i prod.case)
  ultimately have "exec junk (stub_head n) c s =
      (case push_words (?i @ map (gpr c) ?p) c s of (d, t) \<Rightarrow> exec junk [CLD, MOV_RDI_RSP] d t)"
    by (simp only: exec_append exec_imms exec_pushes and_then_simps prod.case g) (simp add: and_then_def split: prod.splits)
  then show ?thesis
    by (cases "error_stub n") (simp_all only: push_words_def Let_def prod.case exec.simps iexec.simps and_then_simps
      if_True if_False append_Nil append_Cons rev.simps list.simps length_append length_map list.size, simp_all del: store_words.simps)
qed

text \<open>What lies on the stack at the call.\<close>

definition entry_words :: "nat \<Rightarrow> u64 option \<Rightarrow> cpu \<Rightarrow> u64 list" where
  "entry_words n err c =
     (map (gpr c) [RAX, RBX, RCX, RDX, RSI, RDI, RBP, R8, R9, R10, R11, R12, R13, R14, R15] @
        of_nat n # (if error_stub n then [] else [0])) @
     (case err of None \<Rightarrow> [] | Some e \<Rightarrow> [e]) @ [cpu_rip c, cpu_cs c, cpu_rflags c, cpu_rsp c, cpu_ss c]"

lemma stub_entry_words:
  fixes kstack :: u64 and c :: cpu and err :: "u64 option"
  assumes "code (gate_offset (g_IDT s ! n)) = ISR_stub n"
  defines "a \<equiv> entry_stack kstack c - 8 * of_nat (length (entry_words n err c))"
  obtains d where "cpu_rsp d = a" "gpr d RDI = a"
    "take_interrupt code junk kstack n err c s = exec junk (CALL_HANDLER # POPA64 @ [ADD_RSP 16, IRETQ]) d
       (store_words a (entry_words n err c) s)"
proof -
  let ?E = "entry_stack kstack c" and ?r = "CALL_HANDLER # POPA64 @ [ADD_RSP 16, IRETQ]" and ?a = "a"
  let ?H = "map (gpr c) [RAX, RBX, RCX, RDX, RSI, RDI, RBP, R8, R9, R10, R11, R12, R13, R14, R15] @
    of_nat n # (if error_stub n then [] else [0])"
  let ?W = "(case err of None \<Rightarrow> [] | Some e \<Rightarrow> [e]) @ [cpu_rip c, cpu_cs c, cpu_rflags c, cpu_rsp c, cpu_ss c]"
  let ?g = "g_IDT s ! n"
  let ?d = "c\<lparr>cpu_rip := gate_offset ?g, cpu_cs := ucast (selector ?g), gpr := (gpr c)(RDI := ?a),
    cpu_rflags := (cpu_rflags c AND NOT 0x200) AND NOT 0x400, cpu_rsp := ?a\<rparr>"
  have st: "store_words ?a (entry_words n err c) s = store_words ?a ?H (store_words (?a + 8 * of_nat (length ?H)) ?W s)"
    by (simp only: entry_words_def store_words_append)
  have "take_interrupt code junk kstack n err c s =
      and_then (exec junk (stub_head n) (c\<lparr>cpu_rsp := ?E - 8 * of_nat (length ?W), cpu_rip := gate_offset ?g,
        cpu_cs := ucast (selector ?g), cpu_rflags := cpu_rflags c AND NOT 0x200\<rparr>)
        (store_words (?E - 8 * of_nat (length ?W)) ?W s)) (exec junk ?r)"
    unfolding take_interrupt_def deliver_pushes push_words_def Let_def prod.case
    using assms(1) by (simp add: stub_split exec_append del: store_words.simps split: option.split)
  also have "\<dots> = exec junk ?r ?d (store_words ?a (entry_words n err c) s)"
    unfolding st unfolding exec_head Let_def and_then_simps a_def
    by (cases err; cases "error_stub n") (simp_all add: entry_words_def del: store_words.simps exec.simps)
  finally show thesis by (intro that [of ?d]) simp_all
qed

lemma stub_entry:
  assumes "code (gate_offset (g_IDT s ! n)) = ISR_stub n" "(err \<noteq> None) = error_stub n"
  obtains d where "cpu_rsp d = frame_addr kstack c" "gpr d RDI = frame_addr kstack c"
    "take_interrupt code junk kstack n err c s = exec junk (CALL_HANDLER # POPA64 @ [ADD_RSP 16, IRETQ]) d
       (store_Registers (frame_addr kstack c) (frame_of n err c) s)"
proof -
  have w: "entry_words n err c = regs_words (frame_of n err c)"
    using assms(2) by (cases err) (simp_all add: entry_words_def regs_words_def frame_of_def)
  have l: "8 * of_nat (length (regs_words r)) = (176 :: u64)" for r by (simp add: regs_words_def)
  show thesis
    by (rule stub_entry_words [where code = code and s = s and n = n and kstack = kstack and junk = junk and c = c and err = err])
      (use assms(1) that w l in \<open>simp_all add: frame_addr_def store_Registers_def\<close>)
qed

text \<open>
  An exception with an error code whose stub does not expect one, 29 and 30 of newer processors: the handler
  gets the error code as \<open>rip\<close>, and everything after it one place too far.
\<close>

lemma error_code_shift:
  assumes "code (gate_offset (g_IDT s ! n)) = ISR_stub n" "\<not> error_stub n"
    and "span (hhdm_off s) (entry_stack kstack c - 184) 184 p"
  obtains d t where "take_interrupt code junk kstack n (Some e) c s = exec junk (CALL_HANDLER # POPA64 @ [ADD_RSP 16, IRETQ]) d t"
    "load_Registers t (gpr d RDI) = (frame_of n None c)
       \<lparr>rip := e, cs := cpu_rip c, rflags := cpu_cs c, rsp := cpu_rflags c, ss := cpu_rsp c\<rparr>"
proof -
  let ?a = "entry_stack kstack c - 184" and ?ws = "entry_words n (Some e) c"
  let ?f = "(frame_of n None c)\<lparr>rip := e, cs := cpu_rip c, rflags := cpu_cs c, rsp := cpu_rflags c, ss := cpu_rsp c\<rparr>"
  have l: "length ?ws = 23" using assms(2) by (simp add: entry_words_def)
  have w: "?ws = regs_words ?f @ [cpu_ss c]" using assms(2) by (simp add: entry_words_def regs_words_def frame_of_def)
  obtain d where d: "gpr d RDI = ?a" "take_interrupt code junk kstack n (Some e) c s =
      exec junk (CALL_HANDLER # POPA64 @ [ADD_RSP 16, IRETQ]) d (store_words ?a ?ws s)"
    by (rule stub_entry_words [where code = code and s = s and n = n and kstack = kstack and junk = junk and c = c and err = "Some e"])
      (use assms(1) l in simp_all)
  have "load_Registers (store_words ?a ?ws s) ?a = ?f"
  proof (rule load_Registers_words)
    fix i :: nat assume i: "i < 22"
    have "length (regs_words ?f) = 22" by (simp add: regs_words_def)
    then have "?ws ! i = regs_words ?f ! i" using i by (simp add: w nth_append)
    moreover have "load64 (store_words ?a ?ws s) (?a + 8 * of_nat i) = ?ws ! i"
      using assms(3) l i by (intro load_store_words [where p = p]) simp_all
    ultimately show "load64 (store_words ?a ?ws s) (?a + 8 * of_nat i) = regs_words ?f ! i" by simp
  qed
  then have "load_Registers (store_words ?a ?ws s) (gpr d RDI) = ?f" by (simp only: d(1))
  then show thesis by (rule that [OF d(2)])
qed

text \<open>After the call: every register and the place of the interruption come from the structure.\<close>

lemma stub_exit:
  assumes "cpu_rsp d = a"
  shows "exec junk (POPA64 @ [ADD_RSP 16, IRETQ]) d s = Some (Inr (resume (load_Registers s a), s))"
proof -
  have g: "(gpr d)(RAX := load64 s a, RBX := load64 s (a + 8), RCX := load64 s (a + 16), RDX := load64 s (a + 24),
      RSI := load64 s (a + 32), RDI := load64 s (a + 40), RBP := load64 s (a + 48), R8 := load64 s (a + 56),
      R9 := load64 s (a + 64), R10 := load64 s (a + 72), R11 := load64 s (a + 80), R12 := load64 s (a + 88),
      R13 := load64 s (a + 96), R14 := load64 s (a + 104), R15 := load64 s (a + 112)) =
    gpr (resume (load_Registers s a))"
    by (rule ext) (simp add: resume_def load_Registers_def split: reg.split)
  show ?thesis
    using assms g by (cases d) (simp add: POPA64_def resume_def load_Registers_def add.assoc)
qed

text \<open>\<open>load_gdt\<close> returns to its caller, in the segments of the kernel.\<close>

lemma load_gdt_returns:
  assumes "span (hhdm_off s) (cpu_rsp c - 8) 16 p"
  obtains t where "exec junk load_gdt c s = Some (Inr (c\<lparr>cpu_ss := 0x10,
      gpr := (gpr c)(RDI := load64 s (cpu_rsp c), RAX := 0x08), cpu_rip := load64 s (cpu_rsp c), cpu_cs := 0x08,
      cpu_rsp := cpu_rsp c + 8\<rparr>, t))"
proof -
  let ?ret = "load64 s (cpu_rsp c)" and ?a = "cpu_rsp c - 8"
  let ?t = "store64 ?a ?ret (store64 (cpu_rsp c) 8 s)"
  have w: "store_words ?a [?ret, 0x08] s = ?t" by simp
  have l: "load64 ?t ?a = ?ret" "load64 ?t (cpu_rsp c) = 8"
    using load_store_words [of s ?a "[?ret, 8]" p 0] load_store_words [of s ?a "[?ret, 8]" p 1] assms
    unfolding w by simp_all
  have ss: "((gpr c RAX AND NOT 0xFFFF) OR 0x10) AND 0xFFFF = 0x10" by (simp add: word_ao_dist and.assoc)
  have g: "(gpr c)(RAX := 8, RDI := ?ret) = (gpr c)(RDI := ?ret, RAX := 8)" by (simp add: fun_upd_twist)
  show thesis
    by (rule that [of ?t]) (use l ss g in \<open>simp add: load_gdt_def push_def fun_upd_twist add.commute [of _ "cpu_rsp c"]\<close>)
qed

section \<open>Interrupts keep the kernel\<close>

text \<open>
  A part of the stack: \<open>n\<close> bytes at the physical address \<open>p\<close>, outside the bitmap and the pages of the
  events' arrays. Writing there keeps the invariant.
\<close>

definition stack_apart :: "'z evstate_scheme \<Rightarrow> u64 \<Rightarrow> nat \<Rightarrow> bool" where
  "stack_apart s p n \<longleftrightarrow> (\<forall>q \<in> prange p n. q \<notin> bmp_region (page_bmp s) s \<and>
     (\<forall>e \<in> live s. frame q \<noteq> page_of s (subscribers (events s ! e))))"

lemma evs_ok_write:
  assumes "evs_ok s" "stack_apart s p n" "\<And>q. q \<notin> prange p n \<Longrightarrow> m q = pmem s q"
  shows "evs_ok (s\<lparr>pmem := m\<rparr>)"
proof -
  let ?t = "s\<lparr>pmem := m\<rparr>"
  obtain sz where h: "heap_ok s" and sz: "arrays_ok s sz" using assms(1) by (auto simp: evs_ok_def)
  then have inv: "pmm_inv s" by (simp add: heap_ok_def)
  have dw: "data_write s ?t" using assms(2,3) by (auto simp: data_write_def stack_apart_def)
  note k = data_write_facts [OF dw inv]
  have keep: "page_block ?t (subscribers (events s ! e)) (sz e) \<and>
      page_of ?t (subscribers (events s ! e)) = page_of s (subscribers (events s ! e))" if e: "e \<in> live s" for e
  proof -
    let ?v = "subscribers (events s ! e)"
    have b: "page_block s ?v (sz e)" by (rule arrays_size(1) [OF sz e])
    have u: "page_of s ?v \<in> used_frames ?t" using page_block_facts(3) [OF h b] k(1) by simp
    have "pmem ?t q = pmem s q" if "frame q = page_of s ?v" for q
      using assms(2,3) that e by (cases "q \<in> prange p n") (auto simp: stack_apart_def)
    then show ?thesis using page_block_keep(1,2) [OF h b k(4,3) u] by blast
  qed
  have l: "live ?t = live s" by (simp add: live_def)
  have "arrays_ok ?t sz" using sz keep unfolding arrays_ok_def hp.separate_def l by simp
  then show ?thesis using assms(1) k(6) h by (auto simp: evs_ok_def)
qed

lemma kernel_inv_write:
  assumes "kernel_inv s" "stack_apart s p n" "\<And>q. q \<notin> prange p n \<Longrightarrow> m q = pmem s q"
  shows "kernel_inv (s\<lparr>pmem := m\<rparr>)"
  using assms(1) evs_ok_write [OF _ assms(2,3)]
  by (simp add: kernel_inv_def sched_inv_def sched_ok_def slots_def handlers_ok_def)

lemma kernel_inv_frame:
  assumes "kernel_inv s" "stack_apart s p 176" "span (hhdm_off s) a 176 p"
  shows "kernel_inv (store_Registers a r s)"
proof -
  have "pmem (store_Registers a r s) q = pmem s q" if "q \<notin> prange p 176" for q
    using pmem_store_words_other [of s a "regs_words r" p q] assms(3) that by (simp add: store_Registers_def regs_words_def)
  from kernel_inv_write [OF assms(1,2) this] show ?thesis
    unfolding store_Registers_def by (subst store_words_pmem_only) simp
qed

lemma store_Registers_same [simp]:
  "ISRHandlers (store_Registers a r s) = ISRHandlers s" "processes (store_Registers a r s) = processes s"
  "sched_current_pid (store_Registers a r s) = sched_current_pid s" "events (store_Registers a r s) = events s"
  "sched_num_procs (store_Registers a r s) = sched_num_procs s" "hhdm_off (store_Registers a r s) = hhdm_off s"
  "num_events (store_Registers a r s) = num_events s" "hn_pagemap (store_Registers a r s) = hn_pagemap s"
  "page_bmp (store_Registers a r s) = page_bmp s" "g_IDT (store_Registers a r s) = g_IDT s"
  "cr3 (store_Registers a r s) = cr3 s" "keyboard (store_Registers a r s) = keyboard s"
  unfolding store_Registers_def by (subst store_words_pmem_only; simp)+

text \<open>The interrupt in terms of its handler.\<close>

lemma take_interrupt_handler:
  fixes s :: "'z kbstate_scheme"
  assumes "code (gate_offset (g_IDT s ! n)) = ISR_stub n" "(err \<noteq> None) = error_stub n"
    and "span (hhdm_off s) (frame_addr kstack c) 176 p"
  shows "take_interrupt code junk kstack n err c s =
    and_then (ISR_Handler (frame_of n err c) (store_Registers (frame_addr kstack c) (frame_of n err c) s))
      (\<lambda>r t. let u = store_Registers (frame_addr kstack c) r t in
        Some (Inr (resume (load_Registers u (frame_addr kstack c)), u)))"
proof -
  let ?a = "frame_addr kstack c"
  obtain d where d: "cpu_rsp d = ?a" "gpr d RDI = ?a"
    "take_interrupt code junk kstack n err c s = exec junk (CALL_HANDLER # POPA64 @ [ADD_RSP 16, IRETQ]) d
       (store_Registers ?a (frame_of n err c) s)"
    by (rule stub_entry [of code s n err kstack c junk]) (use assms in simp_all)
  have x: "exec junk (POPA64 @ [ADD_RSP 16, IRETQ]) (d\<lparr>gpr := junk\<rparr>) u = Some (Inr (resume (load_Registers u ?a), u))"
    for u :: "'z kbstate_scheme"
    by (rule stub_exit) (simp add: d(1))
  show ?thesis
    using x load_store_Registers [OF assms(3)] d(2)
    by (simp add: d(3) and_then_def Let_def split: option.split sum.split)
qed

text \<open>What the processor goes on with when the handler returns.\<close>

definition resumed :: "nat \<Rightarrow> cpu \<Rightarrow> cpu \<Rightarrow> 'z sched_scheme \<Rightarrow> bool" where
  "resumed n c c' t \<longleftrightarrow>
     (if n = 32 then c' = resume (regs (processes t ! unat (sched_current_pid t)))
      else if n = 0x80 then c' = c\<lparr>gpr := (gpr c)(RAX := gpr c' RAX)\<rparr> else c' = c)"

lemma resume_rax: "resume (f\<lparr>rax := x\<rparr>) = (resume f)\<lparr>gpr := (gpr (resume f))(RAX := x)\<rparr>"
proof -
  have "case_reg x b c d e f g h i j k l m n q = (case_reg a b c d e f g h i j k l m n q)(RAX := x)"
    for a b c d e f g h i j k l m n q :: u64
    by (rule ext) (simp split: reg.split)
  then show ?thesis by (simp add: resume_def)
qed

text \<open>The gates of \<open>init_ISR\<close> lead to the stubs, at the addresses \<open>ISR\<close> the linker gives them.\<close>

definition stubs_linked :: "(u64 \<Rightarrow> instr list) \<Rightarrow> (nat \<Rightarrow> u64) \<Rightarrow> bool" where
  "stubs_linked code ISR \<longleftrightarrow> (\<forall>n < 256. code (ISR n) = ISR_stub n)"

lemma stub_reached:
  assumes "stubs_linked code ISR" "\<forall>n < 256. gate_offset (g_IDT s ! n) = ISR n" "n < 256"
  shows "code (gate_offset (g_IDT s ! n)) = ISR_stub n"
  using assms by (simp add: stubs_linked_def)

lemma unat_vector: "n < 256 \<Longrightarrow> unat (of_nat n :: u64) = n"
  by (intro unat_of_nat_u64) simp

lemma frame_vector:
  assumes "n < 256"
  shows "interrupt (frame_of n err c) < 32 \<longleftrightarrow> n < 32" "interrupt (frame_of n err c) = 32 \<longleftrightarrow> n = 32"
    "interrupt (frame_of n err c) = 33 \<longleftrightarrow> n = 33" "interrupt (frame_of n err c) = 0x80 \<longleftrightarrow> n = 0x80"
    "interrupt (frame_of n err c) < 255 \<longleftrightarrow> n < 255"
  using unat_vector [OF assms] by (simp_all add: word_less_nat_alt word_unat_eq_iff)

lemma handler_resumes:
  assumes "kernel_inv s" "n < 256" "room_for (frame_of n err c) s"
    and "ISR_Handler (frame_of n err c) s = Some (Inr (r, t))"
  shows "32 \<le> n \<and> n < 255 \<and> kernel_inv t \<and> hhdm_off t = hhdm_off s \<and> resumed n c (resume r) t"
proof -
  let ?f = "frame_of n err c"
  have h: "handlers_ok s" using assms(1) by (simp add: kernel_inv_def)
  note v = frame_vector [OF assms(2), of err c] and c = ISR_Handler_cases [OF h, of ?f]
  have sv: "kernel_inv t" "served ?f s r t" using ISR_Handler_serves [OF assms(1,4,3)] by auto
  have n: "32 \<le> n" "n < 255" using assms(4) c(1,6) v by (auto simp: not_less)
  have "r = ?f" if "n \<noteq> 32" "n \<noteq> 0x80"
  proof (cases "n = 33")
    case True
    then have "then_do (handler (s\<lparr>cr3 := hn_pagemap s\<rparr>)) (\<lambda>_ s. Inr (?f, s)) = Inr (r, t)"
      using assms(4) c(3) v(3) by simp
    then show ?thesis by (auto simp: then_do_Inr_iff)
  next
    case False
    then show ?thesis using assms(4) c(5) v that n by (simp add: not_less)
  qed
  moreover have "resume r = c\<lparr>gpr := (gpr c)(RAX := gpr (resume r) RAX)\<rparr>" if "n \<noteq> 32"
  proof -
    have "r = ?f\<lparr>rax := rax r\<rparr>" using sv(2) that v by (simp add: served_def)
    then have "resume r = (resume ?f)\<lparr>gpr := (gpr (resume ?f))(RAX := rax r)\<rparr>" by (metis resume_rax)
    moreover have "gpr (resume r) RAX = rax r" by (simp add: resume_def)
    ultimately show ?thesis by simp
  qed
  ultimately show ?thesis using sv n v by (simp add: resumed_def served_def)
qed

section \<open>Properties\<close>

text \<open>
  C7. An interrupt at the level of the processor, from the gate through the stub to \<open>ISR_Handler\<close> and back
  by \<open>iretq\<close>, whatever the C code leaves in the registers. The handler gets the interrupted registers as
  the structure \<open>Registers\<close>. An exception panics with its vector. The keyboard and a stray interrupt resume
  the interrupted code with every register as it was, a system call with a new \<open>rax\<close>, the timer the
  process it selects with the registers saved for it; the invariant of the kernel holds.
\<close>

theorem interrupt_path_spec:
  fixes s :: "'z kbstate_scheme"
  assumes "stubs_linked code ISR" "\<forall>n < 256. gate_offset (g_IDT s ! n) = ISR n" "n < 256" "(err \<noteq> None) = error_stub n"
    and "kernel_inv s" "span (hhdm_off s) (frame_addr kstack c) 176 p" "stack_apart s p 176" "room_for (frame_of n err c) s"
  shows "case take_interrupt code junk kstack n err c s of
      None \<Rightarrow> n = 32
    | Some (Inl e) \<Rightarrow> n < 32 \<and> e = Psod n \<or> n \<in> {32, 33, 0x80} \<or> n = 255 \<and> e = Oob
    | Some (Inr (c', u)) \<Rightarrow> 32 \<le> n \<and> n < 255 \<and>
       (\<exists>r t. ISR_Handler (frame_of n err c) (store_Registers (frame_addr kstack c) (frame_of n err c) s) = Some (Inr (r, t)) \<and>
          kernel_inv t \<and> u = store_Registers (frame_addr kstack c) r t \<and> resumed n c c' t)"
proof -
  let ?f = "frame_of n err c" and ?a = "frame_addr kstack c"
  let ?s = "store_Registers ?a ?f s"
  have path: "take_interrupt code junk kstack n err c s = and_then (ISR_Handler ?f ?s)
      (\<lambda>r t. let u = store_Registers ?a r t in Some (Inr (resume (load_Registers u ?a), u)))"
    by (rule take_interrupt_handler [where p = p]) (use stub_reached [OF assms(1-3)] assms(4,6) in simp_all)
  have k: "kernel_inv ?s" by (rule kernel_inv_frame [OF assms(5,7,6)])
  then have h: "handlers_ok ?s" by (simp add: kernel_inv_def)
  have room: "room_for ?f ?s" using assms(8) by (simp add: room_for_def)
  note v = frame_vector [OF assms(3), of err c] and c = ISR_Handler_cases [OF h, of ?f]
  show ?thesis
  proof (cases "ISR_Handler ?f ?s")
    case None
    then have "n = 32" using c v by (metis not_less option.distinct(1) insertE emptyE)
    then show ?thesis using None path by simp
  next
    case (Some x)
    show ?thesis
    proof (cases x)
      case (Inl e)
      have "n < 32 \<and> e = Psod n \<or> n \<in> {32, 33, 0x80} \<or> n = 255 \<and> e = Oob"
        using Some Inl c v unat_vector [OF assms(3)] assms(3) by (auto simp: not_less)
      then show ?thesis using Some Inl path by simp
    next
      case (Inr y)
      obtain r t where y: "y = (r, t)" by fastforce
      have i: "ISR_Handler ?f ?s = Some (Inr (r, t))" using Some Inr y by simp
      note res = handler_resumes [OF k assms(3) room i]
      have "load_Registers (store_Registers ?a r t) ?a = r" using res assms(6) by (intro load_store_Registers) simp
      then show ?thesis using path res by (simp add: i Let_def)
    qed
  qed
qed

text \<open>The stubs, 16 bytes each, and a program interrupted by a vector without handler.\<close>

definition sample_ISR :: "nat \<Rightarrow> u64" where "sample_ISR n = 0xFFFFFFFF80002000 + 16 * of_nat n"

definition sample_code :: "u64 \<Rightarrow> instr list" where
  "sample_code a = ISR_stub (unat ((a - 0xFFFFFFFF80002000) div 16))"

lemma sample_linked: "stubs_linked sample_code sample_ISR"
proof -
  have "unat ((16 * of_nat n :: u64) div 16) = n" if "n < 256" for n
  proof -
    have "unat (16 * of_nat n :: u64) = 16 * n" using unat_of_nat_u64 [of "16 * n"] that by simp
    then show ?thesis by (simp add: unat_div)
  qed
  then show ?thesis by (simp add: stubs_linked_def sample_code_def sample_ISR_def)
qed

definition sample_linked_kernel :: kbstate where
  "sample_linked_kernel = sample_kernel\<lparr>g_IDT := map (\<lambda>n. gate (sample_ISR n) 8 0b10001110) [0..<256]\<rparr>"

definition sample_cpu :: cpu where
  "sample_cpu = \<lparr>gpr = (\<lambda>x. 7), cpu_rip = 0x4000, cpu_cs = 8, cpu_rflags = 0x202, cpu_rsp = 0x8008, cpu_ss = 0x10\<rparr>"

lemma sample_linked_inv: "kernel_inv sample_linked_kernel"
proof -
  have "evs_ok sample_linked_kernel = evs_ok sample_kernel"
    by (rule evs_ok_cong(1)) (simp_all add: sample_linked_kernel_def pmm.defs)
  then show ?thesis using sample_kernel_inv
    by (simp add: kernel_inv_def sample_linked_kernel_def sched_inv_def sched_ok_def slots_def handlers_ok_def)
qed

lemma sample_stack:
  "frame_addr 0 sample_cpu = 0x7F50" "span (hhdm_off sample_linked_kernel) 0x7F50 176 0x7F50"
  "stack_apart sample_linked_kernel 0x7F50 176"
proof -
  show "frame_addr 0 sample_cpu = 0x7F50" by (simp add: frame_addr_def entry_stack_def sample_cpu_def)
  have hh: "hhdm_off sample_linked_kernel = 0xFFFF800000000000"
    by (simp add: sample_linked_kernel_def sample_kernel_def sample_int_def sample_io_def)
  then show "span (hhdm_off sample_linked_kernel) 0x7F50 176 0x7F50" by (intro span_low) simp
  have "bmp_region (page_bmp sample_linked_kernel) sample_linked_kernel = prange 0x1000 4096"
    using bmp_region_span [where s = sample_linked_kernel and bm = "page_bmp sample_linked_kernel" and p = "0x1000"]
      span_low [of "0x1000" 4096 "0xFFFF800000000000"] hh
    by (simp add: sample_linked_kernel_def sample_kernel_def sample_int_def sample_io_def)
  moreover have "live sample_linked_kernel = {}"
    by (simp add: live_def sample_linked_kernel_def sample_kernel_def sample_int_def sample_io_def)
  ultimately show "stack_apart sample_linked_kernel 0x7F50 176" by (auto simp: stack_apart_def prange_def)
qed

theorem interrupt_path_spec_witness:
  "\<exists>u. take_interrupt sample_code (\<lambda>x. 5) 0 40 None sample_cpu sample_linked_kernel = Some (Inr (sample_cpu, u))"
proof -
  let ?f = "frame_of 40 None sample_cpu"
  have g: "\<forall>n < 256. gate_offset (g_IDT sample_linked_kernel ! n) = sample_ISR n"
    by (simp add: sample_linked_kernel_def)
  have room: "room_for ?f sample_linked_kernel" by (simp add: room_for_def)
  let ?t = "store_Registers 0x7F50 ?f sample_linked_kernel"
  have "kernel_inv ?t" by (rule kernel_inv_frame [OF sample_linked_inv sample_stack(3,2)])
  then have "ISR_Handler ?f ?t = Some (Inr (?f, ?t\<lparr>cr3 := hn_pagemap ?t\<rparr>))"
    by (intro ISR_Handler_cases(5)) (simp_all add: kernel_inv_def)
  then have "take_interrupt sample_code (\<lambda>x. 5) 0 40 None sample_cpu sample_linked_kernel \<noteq> None \<and>
      (\<forall>e. take_interrupt sample_code (\<lambda>x. 5) 0 40 None sample_cpu sample_linked_kernel \<noteq> Some (Inl e))"
    using take_interrupt_handler [where code = sample_code and n = 40 and err = None and kstack = 0 and c = sample_cpu and
        s = sample_linked_kernel and p = "0x7F50" and junk = "\<lambda>x. 5"] stub_reached [OF sample_linked g, of 40] sample_stack(1,2)
    by (simp add: error_stub_def Let_def)
  then show ?thesis
    using interrupt_path_spec [OF sample_linked g, of 40 None 0 sample_cpu "0x7F50" "\<lambda>x. 5"]
      sample_linked_inv sample_stack room
    by (auto simp: error_stub_def resumed_def split: option.splits sum.splits)
qed

end
