(* ===== verification/Gaia.thy ===== *)
theory Gaia
  imports Kernel Entry
begin

text \<open>
  The first process, \<open>core/sys/wakeup/gaia.c\<close>, on the processor of \<open>Entry\<close>: what its software interrupts
  reach, and the way there from the memory map.
\<close>

section \<open>The code\<close>

text \<open>
  \<open>sys_call\<close> has five pieces of inline assembly. Four copy \<open>rax\<close>, \<open>rdi\<close>, \<open>rsi\<close> and \<open>rdx\<close> into local variables
  that nothing reads, so neither the number nor the arguments get into a register; the fifth is
  \<open>int $0x20\<close>. The registers \<open>c\<close> at that instruction are what the compiler made of the code before it, any
  values. The result is what \<open>rax\<close> holds after the interrupt. As \<open>execute\<close> is called once, there is no other
  process the interrupt could resume.
\<close>

type_synonym program = "u64 \<Rightarrow> instr list"

definition sys_call ::
    "program \<Rightarrow> (reg \<Rightarrow> u64) \<Rightarrow> u64 \<Rightarrow> cpu \<Rightarrow> u64 \<Rightarrow> u64 \<Rightarrow> u64 \<Rightarrow> u64 \<Rightarrow> 'z kbstate_scheme \<Rightarrow>
      (u64, 'z kbstate_scheme) result option" where
  "sys_call code junk kstack c number arg1 arg2 arg3 s =
     and_then (take_interrupt code junk kstack 0x20 None c s) (\<lambda>c' t. Some (Inr (gpr c' RAX, t)))"

text \<open>The functions return what they print. \<open>regs4\<close>: the registers at the four interrupts of \<open>gaia_main\<close>.\<close>

definition test_handler ::
    "program \<Rightarrow> (reg \<Rightarrow> u64) \<Rightarrow> u64 \<Rightarrow> cpu \<Rightarrow> u32 \<Rightarrow> ptr \<Rightarrow> 'z kbstate_scheme \<Rightarrow> (string list, 'z kbstate_scheme) result option" where
  "test_handler code junk kstack c event_id private s =
     and_then (sys_call code junk kstack c 6 0 0 0 s) (\<lambda>_ s. Some (Inr ([''Events Work!'' @ [CHR 0x0A]], s)))"

record regs4 =
  at_create :: cpu
  at_subscribe :: cpu
  at_fire :: cpu
  at_destroy :: cpu

definition gaia_startup ::
    "program \<Rightarrow> (reg \<Rightarrow> u64) \<Rightarrow> u64 \<Rightarrow> regs4 \<Rightarrow> u64 \<Rightarrow> 'z kbstate_scheme \<Rightarrow> (u64 \<times> string list, 'z kbstate_scheme) result option" where
  "gaia_startup code junk kstack c handler_addr s =
     and_then (sys_call code junk kstack (at_create c) 1 0 0 0 s) (\<lambda>event_id s.
     and_then (sys_call code junk kstack (at_subscribe c) 3 event_id handler_addr 0 s) (\<lambda>_ s.
     and_then (sys_call code junk kstack (at_fire c) 5 event_id 0 0 s) (\<lambda>_ s.
     and_then (sys_call code junk kstack (at_destroy c) 2 event_id 0 0 s) (\<lambda>_ s.
     Some (Inr ((event_id, [''TODO: Startup tasks'' @ [CHR 0x0A]]), s))))))"

text \<open>The \<open>while\<close> loop at the end never ends.\<close>

definition gaia_main_code ::
    "program \<Rightarrow> (reg \<Rightarrow> u64) \<Rightarrow> u64 \<Rightarrow> regs4 \<Rightarrow> u64 \<Rightarrow> 'z kbstate_scheme \<Rightarrow> (unit, 'z kbstate_scheme) result option" where
  "gaia_main_code code junk kstack c handler_addr s =
     and_then (gaia_startup code junk kstack c handler_addr s) (\<lambda>_ _. None)"

section \<open>The timer interrupt of a process that is alone\<close>

lemma alone_schedule:
  fixes s :: "'z kbstate_scheme"
  assumes "alone s"
  obtains t where "schedule r s = Some (Inr (r, t))" "alone t"
    "pmm.truncate t = pmm.truncate s" "sched.more t = sched.more s"
proof -
  note a = assms [unfolded alone_def]
  then have inv: "sched_inv s" and len: "length (processes s) = 64"
    by (simp_all add: kernel_inv_def sched_inv_def sched_ok_def)
  let ?s = "s\<lparr>processes := (processes s)[0 := (processes s ! 0)\<lparr>regs := r\<rparr>]\<rparr>"
  have sl: "slots ?s = 2" "sched_ok ?s" using a len by (simp_all add: slots_def sched_ok_def)
  have np: "next_process ?s = Some (Inr (picked 0 2 ?s))"
  proof (rule next_process_finds)
    fix j :: nat assume "1 \<le> j" "j < 2"
    then have "j = 1" by simp
    then show "\<not> ready ?s ((0 + j) mod slots ?s)" using sl a by (simp add: ready_def)
  qed (use sl a len in \<open>simp_all add: ready_def\<close>)
  let ?u = "picked 0 2 ?s"
  have u: "sched_current_pid ?u = 0" "processes ?u ! 0 = (processes s ! 0)\<lparr>regs := r\<rparr>"
    using sl len a by (auto simp: picked_def nth_reap_list)
  let ?t = "(lapic_eoi (lapic_timer_oneshot 5 32 ?u))\<lparr>cr3 := VIRT_TO_PHYS ?u (pagemap (processes s ! 0))\<rparr>"
  have run: "schedule r s = Some (Inr (r, ?t))"
    using inv a len np u by (simp add: schedule_def Let_def timer_defs VIRT_TO_PHYS_def sched_inv_def upd_process_def)
  have k: "kernel_inv s" using a by simp
  have "sched_num_procs ?t = 1" using a by (simp add: picked_def timer_defs)
  moreover have "sched_current_pid ?t = 0" using u(1) by (simp add: timer_defs)
  moreover have "state_flags (processes ?t ! 0) = READY" using u(2) a by (simp add: timer_defs)
  moreover have "state_flags (processes ?t ! 1) \<noteq> READY"
    using len a by (auto simp: picked_def timer_defs nth_reap_list zero_process_def)
  ultimately have "alone ?t" using schedule_keeps(1) [OF k run] by (simp add: alone_def)
  then show thesis using that run schedule_frame(1,2) [OF inv run] by blast
qed

text \<open>What the interrupts need of the machine, and keep: the gates, and a stack at \<open>c\<close> that is free to use.\<close>

definition linked :: "program \<Rightarrow> (nat \<Rightarrow> u64) \<Rightarrow> 'z intstate_scheme \<Rightarrow> bool" where
  "linked code ISR s \<longleftrightarrow> stubs_linked code ISR \<and> (\<forall>n < 256. gate_offset (g_IDT s ! n) = ISR n)"

definition stack_at :: "u64 \<Rightarrow> cpu \<Rightarrow> 'z evstate_scheme \<Rightarrow> bool" where
  "stack_at kstack c s \<longleftrightarrow>
     (\<exists>p. span (hhdm_off s) (frame_addr kstack c) 176 p \<and> stack_apart s p 176)"

definition same_events :: "'z intstate_scheme \<Rightarrow> 'z intstate_scheme \<Rightarrow> bool" where
  "same_events s t \<longleftrightarrow> events t = events s \<and> num_events t = num_events s \<and> g_IDT t = g_IDT s \<and>
     hhdm_off t = hhdm_off s \<and> page_bmp t = page_bmp s"

lemma same_events_trans: "same_events s t \<Longrightarrow> same_events t u \<Longrightarrow> same_events s u"
  by (simp add: same_events_def)

lemma stack_apart_same:
  fixes s t :: "'z intstate_scheme"
  assumes "same_events s t"
  shows "stack_apart t p n = stack_apart s p n"
proof -
  have l: "live t = live s" and h: "hhdm_off t = hhdm_off s" "page_bmp t = page_bmp s" and e: "events t = events s"
    using assms by (simp_all add: same_events_def live_def)
  have "page_of t v = page_of s v" for v using base_cong [OF h(1)] by (simp add: page_of_def)
  moreover have "bmp_region (page_bmp t) t = bmp_region (page_bmp s) s" using h bmp_region_cong [of t s] by simp
  ultimately show ?thesis by (simp add: stack_apart_def l e)
qed

lemma same_events_keeps:
  fixes s t :: "'z intstate_scheme"
  assumes "same_events s t"
  shows "linked code ISR t = linked code ISR s" "stack_at kstack c t = stack_at kstack c s"
  using assms stack_apart_same [OF assms] by (simp_all add: linked_def stack_at_def same_events_def)

lemma alone_interrupt:
  fixes s :: "'z kbstate_scheme"
  assumes "alone s" "linked code ISR s" "stack_at kstack c s"
  obtains t where "take_interrupt code junk kstack 32 None c s = Some (Inr (c, t))" "alone t" "same_events s t"
proof -
  let ?f = "frame_of 32 None c" and ?a = "frame_addr kstack c"
  let ?s = "store_Registers ?a ?f s"
  obtain p where p: "span (hhdm_off s) ?a 176 p" "stack_apart s p 176" using assms(3) by (auto simp: stack_at_def)
  have k: "kernel_inv ?s" using kernel_inv_frame [OF _ p(2,1)] assms(1) by (simp add: alone_def)
  let ?k = "?s\<lparr>cr3 := hn_pagemap ?s\<rparr>"
  have "alone ?k" using assms(1) kernel_inv_cr3 [OF k] by (simp add: alone_def)
  then obtain t where t: "schedule ?f ?k = Some (Inr (?f, t))" "alone t"
    "pmm.truncate t = pmm.truncate ?k" "sched.more t = sched.more ?k" by (rule alone_schedule)
  have "ISR_Handler ?f ?s = schedule ?f ?k"
    using k by (intro ISR_Handler_cases(2)) (simp_all add: kernel_inv_def)
  then have h: "ISR_Handler ?f ?s = Some (Inr (?f, t))" using t(1) by simp
  have "events t = events ?k" "num_events t = num_events ?k" "g_IDT t = g_IDT ?k"
    using t(4) by (cases t; cases ?k; simp)+
  moreover have "hhdm_off t = hhdm_off ?k" "page_bmp t = page_bmp ?k" using t(3) by (simp_all add: pmm.defs)
  ultimately have e: "same_events s t" by (simp add: same_events_def)
  let ?u = "store_Registers ?a ?f t"
  have "kernel_inv ?u"
    using t(2) p stack_apart_same [OF e] e by (intro kernel_inv_frame [where p = p]) (simp_all add: alone_def same_events_def)
  then have "alone ?u" using t(2) by (simp add: alone_def)
  moreover have "same_events s ?u" using e by (simp add: same_events_def)
  moreover have "load_Registers ?u ?a = ?f" using p(1) e by (intro load_store_Registers) (simp add: same_events_def)
  moreover have "code (gate_offset (g_IDT s ! 32)) = ISR_stub 32" using assms(2) by (simp add: linked_def stubs_linked_def)
  then have "take_interrupt code junk kstack 32 None c s = Some (Inr (resume (load_Registers ?u ?a), ?u))"
    using take_interrupt_handler [where code = code and n = 32 and err = None and s = s and kstack = kstack and c = c and
        p = p and junk = junk] p(1) h by (simp add: error_stub_def Let_def)
  ultimately show thesis using that by simp
qed

text \<open>A system call of this process: its own interrupt returns at once, and \<open>rax\<close> is what it was.\<close>

lemma sys_call_alone:
  fixes s :: "'z kbstate_scheme"
  assumes "alone s" "linked code ISR s" "stack_at kstack c s"
  shows "\<exists>t. sys_call code junk kstack c number arg1 arg2 arg3 s = Some (Inr (gpr c RAX, t)) \<and> alone t \<and> same_events s t"
proof -
  obtain t where "take_interrupt code junk kstack 32 None c s = Some (Inr (c, t))" "alone t" "same_events s t"
    by (rule alone_interrupt [OF assms])
  then show ?thesis by (simp add: sys_call_def)
qed

definition stacks_at :: "u64 \<Rightarrow> regs4 \<Rightarrow> 'z evstate_scheme \<Rightarrow> bool" where
  "stacks_at kstack c s \<longleftrightarrow> stack_at kstack (at_create c) s \<and> stack_at kstack (at_subscribe c) s \<and>
     stack_at kstack (at_fire c) s \<and> stack_at kstack (at_destroy c) s"

lemma gaia_startup_runs:
  fixes s :: "'z kbstate_scheme"
  assumes "alone s" "linked code ISR s" "stacks_at kstack c s"
  obtains t where "gaia_startup code junk kstack c h s =
      Some (Inr ((gpr (at_create c) RAX, [''TODO: Startup tasks'' @ [CHR 0x0A]]), t))"
    "alone t" "same_events s t"
proof -
  note st = assms(3) [unfolded stacks_at_def]
  obtain s1 where 1: "sys_call code junk kstack (at_create c) 1 0 0 0 s = Some (Inr (gpr (at_create c) RAX, s1))"
    "alone s1" "same_events s s1"
    using sys_call_alone [OF assms(1,2)] st by blast
  note k1 = same_events_keeps [OF 1(3)]
  obtain s2 where 2: "sys_call code junk kstack (at_subscribe c) 3 (gpr (at_create c) RAX) h 0 s1 =
      Some (Inr (gpr (at_subscribe c) RAX, s2))" "alone s2" "same_events s1 s2"
    using sys_call_alone [OF 1(2), of code ISR] st k1 assms(2) by blast
  note e2 = same_events_trans [OF 1(3) 2(3)]
  note k2 = same_events_keeps [OF e2]
  obtain s3 where 3: "sys_call code junk kstack (at_fire c) 5 (gpr (at_create c) RAX) 0 0 s2 =
      Some (Inr (gpr (at_fire c) RAX, s3))" "alone s3" "same_events s2 s3"
    using sys_call_alone [OF 2(2), of code ISR] st k2 assms(2) by blast
  note e3 = same_events_trans [OF e2 3(3)]
  note k3 = same_events_keeps [OF e3]
  obtain t where 4: "sys_call code junk kstack (at_destroy c) 2 (gpr (at_create c) RAX) 0 0 s3 =
      Some (Inr (gpr (at_destroy c) RAX, t))" "alone t" "same_events s3 t"
    using sys_call_alone [OF 3(2), of code ISR] st k3 assms(2) by blast
  have "gaia_startup code junk kstack c h s =
      Some (Inr ((gpr (at_create c) RAX, [''TODO: Startup tasks'' @ [CHR 0x0A]]), t))"
    by (simp add: gaia_startup_def 1(1) 2(1) 3(1) 4(1))
  then show thesis using that 4(2) same_events_trans [OF e3 4(3)] by blast
qed

section \<open>From the memory map to gaia\<close>

lemma launched_frame:
  fixes s :: "'z kbstate_scheme"
  assumes "launched s" "stack_apart s p 176" "span (hhdm_off s) a 176 p"
  shows "launched (store_Registers a r s)"
proof -
  have "pmem (store_Registers a r s) q = pmem s q" if "q \<notin> prange p 176" for q
    using pmem_store_words_other [of s a "regs_words r" p q] assms(3) that by (simp add: store_Registers_def regs_words_def)
  moreover have "evs_ok s" using assms(1) by (simp add: launched_def)
  ultimately have "evs_ok (s\<lparr>pmem := pmem (store_Registers a r s)\<rparr>)" using assms(2) by (blast intro: evs_ok_write)
  moreover have "store_Registers a r s = s\<lparr>pmem := pmem (store_Registers a r s)\<rparr>"
    unfolding store_Registers_def by (rule store_words_pmem_only)
  ultimately have "evs_ok (store_Registers a r s)" by simp
  moreover have "sched_running (store_Registers a r s) = sched_running s"
    unfolding store_Registers_def by (subst store_words_pmem_only) simp
  ultimately show ?thesis using assms(1) by (simp add: launched_def handlers_ok_def)
qed

text \<open>The first interrupt at the level of the processor.\<close>

lemma launch_interrupt:
  fixes s :: "'z kbstate_scheme"
  assumes "launched s" "linked code ISR s" "stack_at kstack c s"
  obtains t where "take_interrupt code junk kstack 32 None c s = Some (Inr (resume (regs (processes s ! 0)), t))"
    "alone t" "same_events s t"
proof -
  let ?f = "frame_of 32 None c" and ?a = "frame_addr kstack c"
  let ?s = "store_Registers ?a ?f s" and ?r = "regs (processes s ! 0)"
  obtain p where p: "span (hhdm_off s) ?a 176 p" "stack_apart s p 176" using assms(3) by (auto simp: stack_at_def)
  have "launched ?s" by (rule launched_frame [OF assms(1) p(2,1)])
  then obtain t where t: "ISR_Handler ?f ?s = Some (Inr (?r, t))" "alone t"
    "pmm.truncate t = pmm.truncate ?s" "sched.more t = sched.more ?s"
    by (rule launch [where r = ?f]) (simp_all add: frame_vector)
  have "events t = events ?s" "num_events t = num_events ?s" "g_IDT t = g_IDT ?s"
    using t(4) by (cases t; cases ?s; simp)+
  moreover have "hhdm_off t = hhdm_off ?s" "page_bmp t = page_bmp ?s" using t(3) by (simp_all add: pmm.defs)
  ultimately have e: "same_events s t" by (simp add: same_events_def)
  let ?u = "store_Registers ?a ?r t"
  have "kernel_inv ?u"
    using t(2) p stack_apart_same [OF e] e by (intro kernel_inv_frame [where p = p]) (simp_all add: alone_def same_events_def)
  then have "alone ?u" using t(2) by (simp add: alone_def)
  moreover have "same_events s ?u" using e by (simp add: same_events_def)
  moreover have "load_Registers ?u ?a = ?r" using p(1) e by (intro load_store_Registers) (simp add: same_events_def)
  moreover have "code (gate_offset (g_IDT s ! 32)) = ISR_stub 32" using assms(2) by (simp add: linked_def stubs_linked_def)
  then have "take_interrupt code junk kstack 32 None c s = Some (Inr (resume (load_Registers ?u ?a), ?u))"
    using take_interrupt_handler [where code = code and n = 32 and err = None and s = s and kstack = kstack and c = c and
        p = p and junk = junk] p(1) t(1) by (simp add: error_stub_def Let_def)
  ultimately show thesis using that by simp
qed

text \<open>The stack the registers \<open>c\<close> are interrupted on does not lie on the bitmap of \<open>pmm_init\<close>.\<close>

definition boot_stack :: "image \<Rightarrow> 'z pmm_scheme \<Rightarrow> u64 \<Rightarrow> cpu \<Rightarrow> bool" where
  "boot_stack im s kstack c \<longleftrightarrow> (\<exists>p. span (hhdm_off s) (frame_addr kstack c) 176 p \<and>
     (\<forall>q \<in> prange p 176. q \<notin> bmp_region (init_bitmap (memmap im) (free_mem s)) s))"

lemma boot_stack_at:
  fixes s t :: "'z evstate_scheme"
  assumes "boot_stack im s kstack c" "num_events t = 0" "page_bmp t = init_bitmap (memmap im) (free_mem s)" "hhdm_off t = hhdm_off s"
  shows "stack_at kstack c t"
  using assms bmp_region_cong [of t s] by (auto simp: boot_stack_def stack_at_def stack_apart_def live_def)

section \<open>Properties\<close>



end
