(* ===== verification/Spec2Isabelle.thy ===== *)
theory Spec2Isabelle
  imports Endian Rtc Vector Registry Gaia
begin

text \<open>
  h0r.net: a verification of the kernel.

  The kernel boots on x86-64 through the Limine protocol, sets up memory, descriptor tables,
  interrupts and a file system on the initial RAM disk, starts one process and schedules it with
  others by the timer of the local APIC. The theories below translate the C sources under
  \<open>src/src\<close>, one theory per component, and prove what makes each component correct.

  The state. Every component has a record with the globals of its source files, and extends the
  record of the components it stands on: \<open>machine\<close> (physical memory and the offset of the direct
  map), \<open>pmm\<close>, \<open>sched\<close>, \<open>evstate\<close>, \<open>iostate\<close>, \<open>ttystate\<close>, \<open>intstate\<close>, \<open>acpistate\<close>, \<open>kbstate\<close>,
  \<open>fsstate\<close>, \<open>bootstate\<close>. An operation works on any extension of the record it needs, so what
  lies above is kept by typing. A virtual address goes through the identity window below the
  offset, or through the direct map above it, to one byte of physical memory; all C data that is
  reached by pointers (bitmap, page tables, heap blocks, archives, hives, firmware tables) lives
  there, as bytes. Page faults and the translation by the active page map are not modelled: the
  kernel runs in the two windows.

  Errors and non-termination. A fallible operation returns \<open>result\<close>: \<open>Inl (Psod n)\<close> is the panic
  screen with error \<open>n\<close> (\<open>utils/error.c\<close>), \<open>Inl Oob\<close> an access outside an array. A loop that
  may run forever is a \<open>partial_function (option)\<close>, \<open>None\<close> is not to return; properties claim that a
  value is returned, they do not assume it. Loops over a count are primitive recursions on the
  rounds left. There is no fuel. Machine integers have their width everywhere.

  The theories.
  \<^item> \<open>Prelude\<close>: integer types, \<open>result\<close>, word arithmetic. \<open>Layout\<close>: structures as fields with size
    and alignment, from which offsets are computed. \<open>Interfaces\<close>: the locales.
  \<^item> \<open>Memory\<close> (\<open>core/mm/mem.h\<close>, \<open>libk/string.c\<close> up to \<open>memset\<close>): loads, stores, \<open>memchr\<close> to
    \<open>memset\<close>; what a store changes, \<open>memmove\<close> as one simultaneous copy.
  \<^item> \<open>Bitmap\<close> (\<open>libk/bitmap.c\<close>) and \<open>PMM\<close> (\<open>core/mm/pmm.c\<close>): page frames as bits; the set of used
    frames is the abstraction, \<open>pmm_inv\<close> the invariant. \<open>PMM\<close> interprets \<open>page_allocator\<close>.
  \<^item> \<open>Heap\<close> (\<open>core/mm/heap.c\<close>): blocks with their size before them in whole pages; interprets
    \<open>page_blocks\<close>, on which events and vectors rest. Blocks of at most 4088 bytes lie within one
    page; the properties of \<open>realloc\<close> are for these.
  \<^item> \<open>Pager\<close> (\<open>arch/x86_64/pager.c\<close>): \<open>pt_ok\<close> says that the tables form a tree of used frames with the
    bitmap outside; \<open>translation\<close> is the abstraction to a map from pages to entries. A new table takes
    a free frame, so mapping a page leaves every byte alone that is \<open>spared\<close>: in use and not a table.
  \<^item> \<open>Sched\<close> (\<open>core/sys/sched\<close>, \<open>constant_isrs.c\<close>, timer part of \<open>LAPIC.c\<close>): processes,
    \<open>next_process\<close> as the first ready slot in cyclic order, fairness, and the run of several timer
    interrupts with what a process is resumed with. \<open>Exec\<close> (\<open>krnlexec.c\<close>): a process with its page map, made
    without touching memory in use.
  \<^item> \<open>Events\<close> (\<open>events.c\<close>): a table of lists of subscribers, refined from arrays on the heap.
    \<open>Syscall\<close> (\<open>syscall.c\<close>): the calls, and the invariant they keep.
  \<^item> \<open>CString\<close> (rest of \<open>libk/string.c\<close>, \<open>stdlib.c\<close>) and \<open>Endian\<close> (\<open>byteswap.h\<close>, \<open>endian.h\<close>): strings as
    byte lists in memory, byte order.
  \<^item> \<open>Ports\<close>, \<open>Rtc\<close>, \<open>Tty\<close>, \<open>Gdt\<close>, \<open>Interrupts\<close> (\<open>portio.c\<close>, \<open>cereal.c\<close>, \<open>pcspk.c\<close>, \<open>rtc.c\<close>, \<open>tty.c\<close>,
    \<open>gdt.c\<close>, \<open>IDT.c\<close>, \<open>ISR.c\<close>, \<open>interrupts.c\<close>): accesses to ports are logged, and what a port answers
    is any function of the accesses before it.
  \<^item> \<open>Acpi\<close>, \<open>Ioapic\<close>, \<open>Lapic\<close> (\<open>SDT.c\<close>, \<open>MADT.c\<close>, \<open>MCFG.c\<close>, \<open>IOAPIC.c\<close>, \<open>HPET.c\<close>, \<open>LAPIC.c\<close>): firmware
    tables, and devices behind memory, again as functions of the accesses before.
  \<^item> \<open>Keyboard\<close> (\<open>PS2.c\<close>, \<open>input.c\<close>): a machine of two states that the handler refines.
  \<^item> \<open>Vector\<close> (\<open>vector.h\<close>), \<open>Tar\<close> (\<open>libk/tar.c\<close>), \<open>Siv\<close> (\<open>SIV.c\<close>, \<open>drivers/filesys/tar.c\<close>), \<open>Registry\<close>
    (\<open>registery.c\<close>): from the archive in memory to files read by name, and values looked up in a hive
    file. \<open>Siv\<close> interprets \<open>file_source\<close> for the archive driver and for an open file, \<open>Files\<close> its extension
    \<open>file_store\<close> for an open file that is written, and follows a preloaded file from opening to closing; the facts on
    vectors are for up to 252 elements (capacities 500 and 2016), those on the registry for hives of at most
    4088 bytes with one key of at most 59 entries, since the code finds no more.
  \<^item> \<open>Dispatch\<close> (\<open>ISR_Handler\<close>): the interrupts as steps on the whole state, the invariant \<open>kernel_inv\<close> of
    the tables of all components, and the page map an interrupt returns on. A subscription to an event that
    has 255 subscribers is not a step: its array would outgrow a page.
  \<^item> \<open>Entry\<close> (\<open>ISR.asm\<close>, \<open>gdt.asm\<close>): the stubs as lists of instructions on a processor of general
    registers, instruction pointer, flags and stack. \<open>take_interrupt\<close> is the whole way of an interrupt: the
    processor pushes its five words on the kernel's stack, the stub pushes the registers, which then lie in memory as
    \<open>Registers\<close>, \<open>ISR_Handler\<close> works on them there, and what it leaves is popped. What C code leaves in the
    general registers is any value (\<open>junk\<close>).
  \<^item> \<open>Panic\<close> (\<open>error.c\<close>, \<open>log.c\<close>), \<open>Cpu\<close> (\<open>cpu.c\<close>): the panic screen with its walk along the frames, the
    logger, the facts \<open>cpuid\<close> tells.
  \<^item> \<open>Boot\<close> (\<open>x86_64.c\<close>, \<open>kernel.c\<close>, \<open>wakeup.c\<close>, \<open>psf2.c\<close>, \<open>lailink.c\<close>): the order of start-up, what
    becomes of the boot modules, and the panic without an archive. \<open>Kernel\<close>: the way from the memory map to
    the first process, which puts \<open>PMM\<close>, \<open>Heap\<close>, \<open>Tty\<close>, \<open>Siv\<close>, \<open>Exec\<close>, \<open>Pager\<close>, \<open>Sched\<close> and \<open>Dispatch\<close>
    together. It asks for a page map and an archive outside the free segments of the memory map; as
    \<open>execute\<close> leaves memory in use alone, the archive is still mounted when the process runs, and the state is
    one that the invariant of \<open>Dispatch\<close> holds of (\<open>alone\<close>: with this process only).
  \<^item> \<open>Gaia\<close> (\<open>gaia.c\<close>): the first process on the processor of \<open>Entry\<close>, after the start-up of \<open>Kernel\<close>. The inline
    assembly of \<open>sys_call\<close> copies registers into variables and loads none, so the registers at each of its
    interrupts are any values, \<open>regs4\<close>, on stacks apart from the bitmap. What is proved holds for all of them.

  What the parameters stand for: the boot loader's responses, the addresses the linker gives to functions
  and literals, \<open>cpuid\<close> and the vendored terminal are an argument (\<open>image\<close>); an instruction \<open>int n\<close> is
  logged in \<open>soft_ints\<close>, its handler is the machine's next step; function pointers are datatypes
  (\<open>ISRHandler\<close>, \<open>driver_ops\<close>).

  Not modelled: the vendored \<open>printf\<close>, terminal and ACPI interpreter, of which only the calls are seen; log
  output, outside the panic screen and the logger; \<open>read_tsc\<close>, whose constraint \<open>=A\<close> leaves it to the compiler
  what it returns; the instructions \<open>lgdt\<close>, \<open>lidt\<close> and \<open>ltr\<close> beyond what they load, and the checks of
  selectors and privilege by \<open>iretq\<close> and \<open>int\<close>; the stack of compiled C code, which lies below the frame of an
  interrupt; physical concurrency, as the kernel runs on one processor with interrupts as its only interleaving.
\<close>

end
